(* ===== verification/Crawl_Prelude.thy ===== *)
theory Crawl_Prelude
  imports Main "HOL-Library.Word" "HOL-Library.List_Lexorder" "HOL-Library.AList"
    "HOL-Library.Multiset" "HOL-Library.Code_Target_Nat"
begin

text \<open>
  What every component shares: the machine types of the Go program, its outcomes
  (values, errors, run-time panics), and the generic facts about lists, sorting and
  association lists that the component theories use.

  Go's \<open>byte\<close> is \<open>8 word\<close>, \<open>[]byte\<close> and \<open>string\<close> are byte lists (a Go string is a
  sequence of bytes), and \<open>int64\<close>, \<open>uint64\<close>, \<open>uint16\<close> are words of their width. Go's
  \<open>int\<close> is a HOL \<open>int\<close> where the code cannot overflow it.
\<close>

unbundle bit_operations_syntax

type_synonym byte = "8 word"
type_synonym bytes = "byte list"
type_synonym int64 = "64 word"
type_synonym uint64 = "64 word"
type_synonym uint16 = "16 word"
type_synonym uint32 = "32 word"

named_theorems outcome_simps "rewrite rules for outcomes and their sequencing"
named_theorems wf_intros "introduction rules for the component invariants"

text \<open>A string literal of the source as the bytes Go stores for it.\<close>

definition bs :: "string \<Rightarrow> bytes" where
  "bs s = map of_char s"

lemma length_bs [simp]: "length (bs s) = length s"
  by (simp add: bs_def)

lemma bs_Nil [simp]: "bs [] = []"
  by (simp add: bs_def)

lemma uint_of_char [simp]: "uint (of_char c :: byte) = of_char c"
  by (simp add: of_int_of_char [symmetric, where 'a = byte] uint_word_of_int)

lemma bs_eq_iff [simp]: "bs s = bs t \<longleftrightarrow> s = t"
proof -
  have "inj (of_char :: char \<Rightarrow> byte)"
    by (rule injI) (metis of_char_eq_iff uint_of_char)
  then show ?thesis by (simp add: bs_def inj_map_eq_map)
qed

abbreviation ch :: "char \<Rightarrow> byte" where
  "ch c \<equiv> of_char c"

section \<open>Outcomes\<close>

text \<open>
  The errors the code returns as values, and the run-time panics it can run into. A
  panic in a goroutine that does not recover stops the whole process, so it is kept
  apart from an error.
\<close>

datatype go_error =
    ErrUnexpectedEOF
  | ErrInvalidBencode
  | ErrSyntax
  | ErrRange
  | ErrUnsupportedType
  | ErrNotDictionary
  | ErrLength
  | ErrHexByte
  | ErrTimeout
  | ErrNoMetadataSupport
  | ErrInvalidMetadata
  | ErrMetadataTooBig
  | ErrMessage string

datatype go_panic =
    MakeSliceLen
  | SliceBounds
  | IndexRange
  | DivideByZero
  | MakeChanSize
  | SendOnClosed
  | CloseOfClosed
  | NilDereference
  | NonPositiveInterval
  | MustFailed

datatype fault = Err go_error | Panic go_panic

type_synonym 'a res = "fault + 'a"

definition panics :: "'a res \<Rightarrow> bool" where
  "panics r \<longleftrightarrow> (case r of Inl (Panic _) \<Rightarrow> True | _ \<Rightarrow> False)"

lemma panics_simps [simp]:
  "\<not> panics (Inr x)" "\<not> panics (Inl (Err e))" "panics (Inl (Panic p))"
  by (simp_all add: panics_def)

text \<open>
  Sequencing: \<open>concat_res f xs\<close> runs \<open>f\<close> on the elements in order and joins the bytes
  they produce; the first fault ends the loop and discards what was produced.
\<close>

fun concat_res :: "('a \<Rightarrow> bytes res) \<Rightarrow> 'a list \<Rightarrow> bytes res" where
  "concat_res f [] = Inr []"
| "concat_res f (x # xs) =
     (case f x of
        Inl e \<Rightarrow> Inl e
      | Inr b \<Rightarrow> (case concat_res f xs of Inl e \<Rightarrow> Inl e | Inr c \<Rightarrow> Inr (b @ c)))"

lemma concat_res_cong [fundef_cong]:
  assumes "xs = ys" and "\<And>x. x \<in> set ys \<Longrightarrow> f x = g x"
  shows "concat_res f xs = concat_res g ys"
  unfolding assms(1) using assms(2) by (induction ys) (simp_all split: sum.splits)

lemma concat_res_Inr:
  assumes "\<And>x. x \<in> set xs \<Longrightarrow> f x = Inr (g x)"
  shows "concat_res f xs = Inr (concat (map g xs))"
  using assms by (induction xs) simp_all

lemma concat_res_map: "concat_res f (map h xs) = concat_res (\<lambda>x. f (h x)) xs"
  by (induction xs) (simp_all cong: sum.case_cong)

section \<open>Memory\<close>

text \<open>
  \<open>make([]byte, n)\<close> panics when \<open>n\<close> is negative or larger than the address space the
  runtime manages (\<open>2^48\<close> bytes for 64-bit Linux); below that bound the allocation is
  taken to succeed.
\<close>

definition maxAlloc :: int where
  "maxAlloc = 2 ^ 48"

definition make_ok :: "int \<Rightarrow> bool" where
  "make_ok n \<longleftrightarrow> 0 \<le> n \<and> n \<le> maxAlloc"

text \<open>A channel of \<open>n\<close> elements of \<open>width\<close> bytes has a header of 96 bytes.\<close>

definition make_chan_ok :: "int \<Rightarrow> int \<Rightarrow> bool" where
  "make_chan_ok width n \<longleftrightarrow> 0 \<le> n \<and> n * width \<le> maxAlloc - 96"

text \<open>An integer of the program, kept as an \<open>int\<close>, after an operation that may leave the 64 bits.\<close>

definition wrap64 :: "int \<Rightarrow> int" where
  "wrap64 i = sint (word_of_int i :: int64)"

section \<open>Lists\<close>

lemma take_append_replicate_self [simp]:
  "length xs = n \<Longrightarrow> take n (xs @ ys) = xs"
  by simp

text \<open>
  Sorting by an injective key has one result: whatever algorithm produces a list with
  the same distinct elements whose keys ascend produces the list \<open>sort_key\<close> does.
\<close>

lemma sort_key_unique:
  assumes inj: "inj_on f (set xs)" and d: "distinct xs"
    and s: "sorted (map f ys)" and p: "mset ys = mset xs"
  shows "ys = sort_key f xs"
proof -
  have sys: "set ys = set xs" using p by (rule mset_eq_setD)
  have dys: "distinct ys" using d p by (metis mset_eq_imp_distinct_iff)
  have "distinct (map f ys)" using inj dys sys by (simp add: distinct_map)
  moreover have "distinct (map f (sort_key f xs))" using inj d by (simp add: distinct_map)
  ultimately show ?thesis
    using s sys inj by (intro map_sorted_distinct_set_unique [of f]) auto
qed

lemma sorted_take_drop_le:
  assumes "sorted (map f xs)" and "x \<in> set (take n xs)" and "y \<in> set (drop n xs)"
  shows "f x \<le> f y"
proof -
  have "sorted (map f (take n xs) @ map f (drop n xs))"
    using assms(1) by (simp flip: map_append)
  with assms(2,3) show ?thesis by (auto simp: sorted_append)
qed

lemma sum_list_bounded:
  assumes "\<And>x. x \<in> set xs \<Longrightarrow> x \<le> (k::nat)"
  shows "sum_list xs \<le> k * length xs"
  using assms by (induction xs) (auto simp: add_le_mono)

lemma nth_eq_concat_mem:
  assumes "i < length xss" and "x \<in> set (xss ! i)"
  shows "x \<in> set (concat xss)"
  using assms nth_mem by fastforce

section \<open>Association lists\<close>

text \<open>Go maps are association lists with distinct keys; an assignment is \<open>AList.update\<close>.\<close>

lemma update_new_key:
  "k \<notin> fst ` set d \<Longrightarrow> AList.update k v d = d @ [(k, v)]"
  by (induction d) auto

lemma map_of_sort_key:
  assumes "distinct (map fst d)"
  shows "map_of (sort_key f d) = map_of d"
proof (rule map_of_eqI)
  show "set (map fst (sort_key f d)) = set (map fst d)" by simp
  have "distinct (map fst (sort_key f d))"
    using assms by (simp add: distinct_map)
  then show "\<forall>k\<in>set (map fst (sort_key f d)). map_of (sort_key f d) k = map_of d k"
    using assms by (metis (no_types, lifting) map_of_eq_Some_iff map_of_SomeD
        option.exhaust set_sort map_of_eq_None_iff set_map)
qed

lemma map_fst_sort_key: "map fst (sort_key fst d) = sort (map fst d)"
  by (rule properties_for_sort [symmetric]) simp_all

lemma insort_key_map_pair:
  "insort_key fst (k, g k) (map (\<lambda>k. (k, g k)) ks) = map (\<lambda>k. (k, g k)) (insort k ks)"
  by (induction ks) simp_all

lemma fst_comp_pair [simp]: "fst \<circ> (\<lambda>(k, v). (k, f v)) = fst"
  by auto

section \<open>Integers of the machine\<close>

lemma sint_int64_of_int:
  "- (2 ^ 63) \<le> i \<Longrightarrow> i < 2 ^ 63 \<Longrightarrow> sint (word_of_int i :: int64) = i"
  by (simp add: signed_of_int signed_take_bit_int_eq_self)

lemma uint_word_range: "- (2 ^ 63) \<le> uint (w :: 'a::len word)"
  by (rule order_trans [of _ 0]) simp_all

lemma sint_ucast_uint16 [simp]: "sint (ucast (u :: uint16) :: int64) = uint u"
proof -
  have "uint u < 2 ^ LENGTH(16)" by (rule unsigned_less)
  then have "sint (word_of_int (uint u) :: int64) = uint u"
    by (intro sint_int64_of_int uint_word_range) simp
  then show ?thesis by simp
qed

lemma sint_ucast_uint32 [simp]: "sint (ucast (u :: uint32) :: int64) = uint u"
proof -
  have "uint u < 2 ^ LENGTH(32)" by (rule unsigned_less)
  then have "sint (word_of_int (uint u) :: int64) = uint u"
    by (intro sint_int64_of_int uint_word_range) simp
  then show ?thesis by simp
qed

section \<open>Positional numbers\<close>

lemma radix_eq_iff:
  assumes "(u::nat) < p" and "v < p"
  shows "x * p + u = y * p + v \<longleftrightarrow> x = y \<and> u = v"
proof
  assume e: "x * p + u = y * p + v"
  have "(x * p + u) div p = x" "(y * p + v) div p = y"
    using assms by simp_all
  with e show "x = y \<and> u = v" by auto
qed simp

lemma radix_less_iff:
  assumes "(u::nat) < p" and "v < p"
  shows "x * p + u < y * p + v \<longleftrightarrow> x < y \<or> x = y \<and> u < v"
proof (cases x y rule: linorder_cases)
  case less
  then have "(x + 1) * p \<le> y * p" by (intro mult_le_mono1) simp
  with less assms show ?thesis by simp
next
  case greater
  then have "(y + 1) * p \<le> x * p" by (intro mult_le_mono1) simp
  with greater assms show ?thesis by simp
qed simp

end
