(* ===== verification/Codec.thy ===== *)
theory Codec
  imports Crawl_Prelude
begin

text \<open>
  The two interfaces the wire formats of the crawler satisfy. A \<open>prefix_codec\<close> encodes
  one value and decodes it from the front of a byte stream, returning the rest of the
  stream (bencode values and strings, read by a Go \<open>bytes.Reader\<close>). A \<open>record_codec\<close> is
  a list of records of one fixed width (hexadecimal bytes, compact nodes, compact
  peers), decoded all at once.

  \<open>nf\<close> is the value a decoder returns for an encoded one: the decoded form may be coarser
  than the encoded value (a Go \<open>string\<close> comes back as \<open>[]byte\<close>).
\<close>

section \<open>Values read from the front of a stream\<close>

locale prefix_codec =
  fixes enc :: "'a \<Rightarrow> bytes res"
    and dec :: "bytes \<Rightarrow> ('b \<times> bytes) res"
    and ok :: "'a \<Rightarrow> bool"
    and nf :: "'a \<Rightarrow> 'b"
  assumes enc_total: "ok x \<Longrightarrow> \<exists>b. enc x = Inr b"
    and dec_enc: "ok x \<Longrightarrow> enc x = Inr b \<Longrightarrow> dec (b @ rest) = Inr (nf x, rest)"
begin

lemma dec_enc_exact: "ok x \<Longrightarrow> enc x = Inr b \<Longrightarrow> dec b = Inr (nf x, [])"
  using dec_enc [of x b "[]"] by simp

lemma enc_inject:
  assumes "ok x" and "ok y" and "enc x = Inr b" and "enc y = Inr b"
  shows "nf x = nf y"
  using dec_enc_exact [OF assms(1,3)] dec_enc_exact [OF assms(2,4)] by simp

lemma prefix_free:
  assumes "ok x" and "ok y" and "enc x = Inr b" and "enc y = Inr c" and "b @ r = c @ s"
  shows "nf x = nf y \<and> r = s"
  using dec_enc [OF assms(1,3), of r] dec_enc [OF assms(2,4), of s] assms(5) by simp

end

section \<open>Lists of fixed-width records\<close>

locale record_codec =
  fixes width :: nat
    and enc :: "'a \<Rightarrow> bytes"
    and decs :: "bytes \<Rightarrow> 'b list res"
    and ok :: "'a \<Rightarrow> bool"
    and nf :: "'a \<Rightarrow> 'b"
  assumes enc_length: "ok x \<Longrightarrow> length (enc x) = width"
    and decs_Nil: "decs [] = Inr []"
    and decs_step: "ok x \<Longrightarrow> width dvd length rest \<Longrightarrow> decs rest = Inr ys
      \<Longrightarrow> decs (enc x @ rest) = Inr (nf x # ys)"
begin

lemma length_concat_enc:
  "list_all ok xs \<Longrightarrow> length (concat (map enc xs)) = width * length xs"
  by (induction xs) (simp_all add: enc_length)

lemma decs_concat_enc:
  "list_all ok xs \<Longrightarrow> decs (concat (map enc xs)) = Inr (map nf xs)"
proof (induction xs)
  case Nil
  then show ?case by (simp add: decs_Nil)
next
  case (Cons x xs)
  then show ?case using decs_step length_concat_enc [of xs] by simp
qed

lemma concat_enc_inject:
  assumes "list_all ok xs" and "list_all ok ys"
    and "concat (map enc xs) = concat (map enc ys)"
  shows "map nf xs = map nf ys"
  using decs_concat_enc [OF assms(1)] decs_concat_enc [OF assms(2)] assms(3) by simp

end

end
