(* ===== verification/Go_Strconv.thy ===== *)
theory Go_Strconv
  imports Codec
begin

text \<open>
  The parts of Go's standard library the program computes with: decimal formatting
  (\<open>fmt\<close>'s \<open>%d\<close>), \<open>strconv.ParseInt\<close> and \<open>strconv.Atoi\<close>, \<open>encoding/hex\<close> and the
  big-endian integers of \<open>encoding/binary\<close>. Each printer comes with the round trip
  through its parser.
\<close>

section \<open>Decimal numbers\<close>

definition is_digit :: "byte \<Rightarrow> bool" where
  "is_digit c \<longleftrightarrow> 48 \<le> c \<and> c \<le> 57"

fun dec_nat :: "nat \<Rightarrow> bytes" where
  "dec_nat n = (if n < 10 then [of_nat (48 + n)] else dec_nat (n div 10) @ [of_nat (48 + n mod 10)])"

declare dec_nat.simps [simp del]

definition fmt_int :: "int \<Rightarrow> bytes" where
  "fmt_int i = (if i < 0 then 45 # dec_nat (nat (- i)) else dec_nat (nat i))"

text \<open>
  \<open>strconv.ParseUint(s, 10, 64)\<close>: the digits are read from the left, and the loop stops
  at the first character that is no digit (syntax) or makes the value leave 64 bits
  (range).
\<close>

fun parse_digits :: "nat \<Rightarrow> bytes \<Rightarrow> nat res" where
  "parse_digits n [] = Inr n"
| "parse_digits n (c # cs) =
     (if \<not> is_digit c then Inl (Err ErrSyntax)
      else if n \<ge> 1844674407370955162 then Inl (Err ErrRange)
      else let m = 10 * n + (unat c - 48) in
           if m > 18446744073709551615 then Inl (Err ErrRange) else parse_digits m cs)"

definition parse_uint :: "bytes \<Rightarrow> nat res" where
  "parse_uint s = (if s = [] then Inl (Err ErrSyntax) else parse_digits 0 s)"

definition parse_int :: "bytes \<Rightarrow> int res" where
  "parse_int s =
     (if s = [] then Inl (Err ErrSyntax)
      else let neg = (hd s = 45); d = (if hd s = 43 \<or> hd s = 45 then tl s else s) in
           case parse_uint d of
             Inl e \<Rightarrow> Inl e
           | Inr n \<Rightarrow>
               if \<not> neg \<and> n \<ge> 9223372036854775808 then Inl (Err ErrRange)
               else if neg \<and> n > 9223372036854775808 then Inl (Err ErrRange)
               else Inr (if neg then - int n else int n))"

definition atoi :: "bytes \<Rightarrow> int res" where
  "atoi s = parse_int s"

lemma unat_digit: "d < 10 \<Longrightarrow> unat (of_nat (48 + d) :: byte) = 48 + d"
  by (simp add: unat_of_nat del: of_nat_add)

lemma is_digit_of_nat [simp]: "d < 10 \<Longrightarrow> is_digit (of_nat (48 + d))"
  using unat_digit [of d] by (simp add: is_digit_def word_le_nat_alt del: of_nat_add)

lemma dec_nat_nonempty [simp]: "dec_nat n \<noteq> []"
  by (subst dec_nat.simps) simp

lemma dec_nat_digits: "\<forall>c \<in> set (dec_nat n). is_digit c"
proof (induction n rule: dec_nat.induct)
  case (1 n)
  show ?case
    by (cases "n < 10"; subst dec_nat.simps) (use 1 in \<open>auto simp del: of_nat_add\<close>)
qed

lemma parse_digits_append:
  "parse_digits n xs = Inr m \<Longrightarrow> parse_digits n (xs @ ys) = parse_digits m ys"
  by (induction n xs rule: parse_digits.induct) (auto simp: Let_def split: if_splits)

lemma parse_digits_snoc:
  assumes "d < 10" and "parse_digits k xs = Inr m" and "10 * m + d < 2 ^ 64"
  shows "parse_digits k (xs @ [of_nat (48 + d)]) = Inr (10 * m + d)"
  using assms unat_digit [OF assms(1)]
  by (simp add: parse_digits_append Let_def del: of_nat_add)

lemma parse_digits_dec_nat: "n < 2 ^ 64 \<Longrightarrow> parse_digits 0 (dec_nat n) = Inr n"
proof (induction n rule: dec_nat.induct)
  case (1 n)
  show ?case
  proof (cases "n < 10")
    case True
    then show ?thesis
      using parse_digits_snoc [of n 0 "[]" 0] by (subst dec_nat.simps) simp
  next
    case False
    have "parse_digits 0 (dec_nat (n div 10)) = Inr (n div 10)"
      using 1 False by simp
    then have "parse_digits 0 (dec_nat (n div 10) @ [of_nat (48 + n mod 10)])
        = Inr (10 * (n div 10) + n mod 10)"
      using "1.prems" by (intro parse_digits_snoc) simp_all
    with False show ?thesis by (subst dec_nat.simps) simp
  qed
qed

lemma hd_dec_nat: "is_digit (hd (dec_nat n))"
  using dec_nat_digits [of n] by (cases "dec_nat n") auto

lemma digit_not_sign: "is_digit c \<Longrightarrow> c \<noteq> 43 \<and> c \<noteq> 45 \<and> c \<noteq> 58 \<and> c \<noteq> 101"
  by (auto simp: is_digit_def)

lemma parse_int_fmt_int:
  assumes "- (2 ^ 63) \<le> i" and "i < 2 ^ 63"
  shows "parse_int (fmt_int i) = Inr i"
proof (cases "i < 0")
  case True
  then show ?thesis
    using assms parse_digits_dec_nat [of "nat (- i)"]
    by (simp add: parse_int_def fmt_int_def parse_uint_def Let_def nat_less_iff)
next
  case False
  then show ?thesis
    using assms parse_digits_dec_nat [of "nat i"] digit_not_sign [OF hd_dec_nat [of "nat i"]]
    by (simp add: parse_int_def fmt_int_def parse_uint_def Let_def nat_less_iff nat_le_iff)
qed

lemma parse_int_dec_nat: "n < 2 ^ 63 \<Longrightarrow> parse_int (dec_nat n) = Inr (int n)"
  using parse_int_fmt_int [of "int n"] by (simp add: fmt_int_def)

lemma fmt_int_no_e: "101 \<notin> set (fmt_int i)"
  using dec_nat_digits by (auto simp: fmt_int_def dest: digit_not_sign)

text \<open>The result of a successful parse is a 64-bit integer.\<close>

lemma parse_int_range: "parse_int s = Inr i \<Longrightarrow> - (2 ^ 63) \<le> i \<and> i < 2 ^ 63"
  by (auto simp: parse_int_def Let_def split: if_splits sum.splits)

lemma parse_digits_faults: "parse_digits n s = Inl e \<Longrightarrow> \<exists>g. e = Err g"
  by (induction n s rule: parse_digits.induct) (auto simp: Let_def split: if_splits)

lemma parse_int_faults: "parse_int s = Inl e \<Longrightarrow> \<exists>g. e = Err g"
  by (auto simp: parse_int_def parse_uint_def Let_def dest: parse_digits_faults
      split: if_splits sum.splits)

lemma parse_int_nonneg: "parse_int s = Inr i \<Longrightarrow> s \<noteq> [] \<Longrightarrow> is_digit (hd s) \<Longrightarrow> 0 \<le> i"
  by (auto simp: parse_int_def Let_def dest: digit_not_sign split: if_splits sum.splits)

section \<open>Hexadecimal\<close>

definition hex_char :: "byte \<Rightarrow> byte" where
  "hex_char d = bs ''0123456789abcdef'' ! unat d"

definition hex_byte :: "byte \<Rightarrow> bytes" where
  "hex_byte b = [hex_char (drop_bit 4 b), hex_char (b AND 15)]"

definition hex_encode :: "bytes \<Rightarrow> bytes" where
  "hex_encode b = concat (map hex_byte b)"

definition from_hex_char :: "byte \<Rightarrow> byte option" where
  "from_hex_char c =
     (if 48 \<le> c \<and> c \<le> 57 then Some (c - 48)
      else if 97 \<le> c \<and> c \<le> 102 then Some (c - 97 + 10)
      else if 65 \<le> c \<and> c \<le> 70 then Some (c - 65 + 10)
      else None)"

fun hex_decode :: "bytes \<Rightarrow> bytes res" where
  "hex_decode [] = Inr []"
| "hex_decode [c] = (if from_hex_char c = None then Inl (Err ErrHexByte) else Inl (Err ErrLength))"
| "hex_decode (p # q # rest) =
     (case from_hex_char p of
        None \<Rightarrow> Inl (Err ErrHexByte)
      | Some a \<Rightarrow>
          (case from_hex_char q of
             None \<Rightarrow> Inl (Err ErrHexByte)
           | Some b \<Rightarrow>
               (case hex_decode rest of
                  Inl e \<Rightarrow> Inl e
                | Inr ds \<Rightarrow> Inr ((push_bit 4 a OR b) # ds))))"

lemma low_nibble: "(b :: byte) AND 15 = take_bit 4 b"
  by (simp add: take_bit_eq_mask mask_eq_exp_minus_1)

lemma byte_nibbles: "push_bit 4 (drop_bit 4 b) OR (b AND 15) = (b :: byte)"
  unfolding low_nibble by (intro bit_eqI) (auto simp: bit_simps)

lemma nibble_bounds: "unat (drop_bit 4 (b :: byte)) < 16" "unat ((b :: byte) AND 15) < 16"
proof -
  have "unat b < 2 ^ LENGTH(8)" by (rule unsigned_less)
  then show "unat (drop_bit 4 b) < 16"
    unfolding unat_drop_bit_eq by (simp add: drop_bit_eq_div div_less_iff_less_mult)
  show "unat (b AND 15) < 16"
    unfolding low_nibble unsigned_take_bit_eq by (simp add: take_bit_eq_mod)
qed

lemma hex_chars_all: "list_all (\<lambda>d. from_hex_char (hex_char d) = Some d) (map word_of_nat [0..<16])"
  by (simp add: upt_rec hex_char_def from_hex_char_def bs_def)

lemma from_hex_hex_char:
  assumes "unat d < 16"
  shows "from_hex_char (hex_char d) = Some d"
proof -
  have "d \<in> set (map word_of_nat [0..<16])"
    using assms by (auto intro: image_eqI [where x = "unat d"])
  with hex_chars_all show ?thesis by (auto simp only: list_all_iff)
qed

interpretation hex: record_codec 2 hex_byte hex_decode "\<lambda>_. True" "\<lambda>b. b"
  by unfold_locales
    (simp_all add: hex_byte_def from_hex_hex_char nibble_bounds byte_nibbles)

lemma hex_decode_encode: "hex_decode (hex_encode b) = Inr b"
  using hex.decs_concat_enc [of b] by (simp add: hex_encode_def list_all_iff)

lemma length_hex_encode [simp]: "length (hex_encode b) = 2 * length b"
  using hex.length_concat_enc [of b] by (simp add: hex_encode_def list_all_iff)

lemma hex_encode_inject [simp]: "hex_encode a = hex_encode b \<longleftrightarrow> a = b"
  using hex_decode_encode by (metis sum.inject(2))

lemma hex_decode_faults: "hex_decode s = Inl e \<Longrightarrow> \<exists>g. e = Err g"
  by (induction s rule: hex_decode.induct) (auto split: if_splits option.splits sum.splits)

section \<open>Big-endian integers\<close>

definition put_uint16 :: "uint16 \<Rightarrow> bytes" where
  "put_uint16 v = [ucast (drop_bit 8 v), ucast v]"

definition get_uint16 :: "byte \<Rightarrow> byte \<Rightarrow> uint16" where
  "get_uint16 b0 b1 = ucast b1 OR push_bit 8 (ucast b0)"

definition put_uint32 :: "uint32 \<Rightarrow> bytes" where
  "put_uint32 v = [ucast (drop_bit 24 v), ucast (drop_bit 16 v), ucast (drop_bit 8 v), ucast v]"

definition get_uint32 :: "byte \<Rightarrow> byte \<Rightarrow> byte \<Rightarrow> byte \<Rightarrow> uint32" where
  "get_uint32 b0 b1 b2 b3 =
     ucast b3 OR push_bit 8 (ucast b2) OR push_bit 16 (ucast b1) OR push_bit 24 (ucast b0)"

lemma get_put_uint16 [simp]:
  "get_uint16 (ucast (drop_bit 8 v)) (ucast v) = v"
  by (intro bit_eqI) (auto simp: get_uint16_def bit_simps)

lemma get_put_uint32 [simp]:
  "get_uint32 (ucast (drop_bit 24 v)) (ucast (drop_bit 16 v)) (ucast (drop_bit 8 v)) (ucast v) = v"
proof (rule bit_word_eqI)
  fix n
  assume "n < LENGTH(32)"
  then consider "n < 8" | "8 \<le> n" "n < 16" | "16 \<le> n" "n < 24" | "24 \<le> n" "n < 32"
    by fastforce
  then show "bit (get_uint32 (ucast (drop_bit 24 v)) (ucast (drop_bit 16 v))
      (ucast (drop_bit 8 v)) (ucast v)) n = bit v n"
    by cases (auto simp: get_uint32_def bit_simps)
qed

lemma length_put_uint16 [simp]: "length (put_uint16 v) = 2"
  by (simp add: put_uint16_def)

lemma length_put_uint32 [simp]: "length (put_uint32 v) = 4"
  by (simp add: put_uint32_def)

end
