(* ===== verification/Bencode.thy ===== *)
theory Bencode
  imports Go_Strconv
begin

text \<open>
  \<open>internal/bt/bencode.go\<close>: the bencode values, the encoder, the recursive-descent
  decoder over a \<open>bytes.Reader\<close> (here the list of unread bytes), and the typed accessors
  of decoded dictionaries. The recursion of the code has no bound but the length of its input; the
  functions here are total, the depth they reach is the subject of section Nesting, and the stack a
  goroutine has for it is not modelled.
\<close>

section \<open>Values\<close>

text \<open>
  The dynamic types an \<open>interface{}\<close> can carry in a type switch of the file. A Go map is
  an association list with distinct keys (\<open>gval_ok\<close>); \<open>GOther\<close> is any type the switch
  does not list.
\<close>

datatype gval =
    GString bytes
  | GBytes bytes
  | GInt int64
  | GInt64 int64
  | GUint16 uint16
  | GUint32 uint32
  | GList "gval list"
  | GDict "(bytes \<times> gval) list"
  | GOther

type_synonym gdict = "(bytes \<times> gval) list"

lemma size_dict_value [termination_simp]:
  "(k, v) \<in> set d \<Longrightarrow> size v < Suc (size_list (size_prod (\<lambda>_. 0) size) d)"
  by (induction d) auto

lemma size_map_of_value [termination_simp]:
  "map_of d k = Some v \<Longrightarrow> size v < Suc (size_list (size_prod (\<lambda>_. 0) size) d)"
  by (rule size_dict_value) (rule map_of_SomeD)

section \<open>Encoding\<close>

definition enc_string :: "bytes \<Rightarrow> bytes" where
  "enc_string s = dec_nat (length s) @ [ch CHR '':''] @ s"

definition enc_int :: "int \<Rightarrow> bytes" where
  "enc_int i = [ch CHR ''i''] @ fmt_int i @ [ch CHR ''e'']"

function (sequential) encode :: "gval \<Rightarrow> bytes res" where
  "encode (GString s) = Inr (enc_string s)"
| "encode (GBytes s) = Inr (enc_string s)"
| "encode (GInt i) = Inr (enc_int (sint i))"
| "encode (GInt64 i) = Inr (enc_int (sint i))"
| "encode (GUint16 u) = Inr (enc_int (uint u))"
| "encode (GUint32 u) = Inr (enc_int (uint u))"
| "encode (GList items) =
     (case concat_res encode items of
        Inl e \<Rightarrow> Inl e
      | Inr b \<Rightarrow> Inr ([ch CHR ''l''] @ b @ [ch CHR ''e'']))"
| "encode (GDict d) =
     (let keys = sort (map fst d) in
      case concat_res
             (\<lambda>k. case map_of d k of
                None \<Rightarrow> Inl (Err ErrUnsupportedType)
              | Some v \<Rightarrow>
                  (case encode v of
                     Inl e \<Rightarrow> Inl e
                   | Inr b \<Rightarrow> Inr (enc_string k @ b)))
             keys of
        Inl e \<Rightarrow> Inl e
      | Inr b \<Rightarrow> Inr ([ch CHR ''d''] @ b @ [ch CHR ''e'']))"
| "encode GOther = Inl (Err ErrUnsupportedType)"
  by pat_completeness auto
termination
  by (relation "measure size")
    (auto simp: less_Suc_eq_le intro: size_list_estimation' dest!: size_map_of_value)

section \<open>Decoding\<close>

fun read_int :: "bytes \<Rightarrow> bytes \<Rightarrow> (bytes \<times> bytes) res" where
  "read_int [] buf = Inl (Err ErrUnexpectedEOF)"
| "read_int (b # r) buf = (if b = ch CHR ''e'' then Inr (buf, r) else read_int r (buf @ [b]))"

definition decodeInt :: "bytes \<Rightarrow> (int64 \<times> bytes) res" where
  "decodeInt r =
     (case read_int r [] of
        Inl e \<Rightarrow> Inl e
      | Inr (buf, r') \<Rightarrow>
          (case parse_int buf of Inl e \<Rightarrow> Inl e | Inr i \<Rightarrow> Inr (word_of_int i, r')))"

fun read_len :: "bytes \<Rightarrow> bytes \<Rightarrow> (bytes \<times> bytes) res" where
  "read_len [] lenBuf = Inl (Err ErrUnexpectedEOF)"
| "read_len (b # r) lenBuf =
     (if b = ch CHR '':'' then Inr (lenBuf, r)
      else if b < ch CHR ''0'' \<or> b > ch CHR ''9'' then Inl (Err ErrInvalidBencode)
      else read_len r (lenBuf @ [b]))"

definition decodeString :: "bytes \<Rightarrow> (bytes \<times> bytes) res" where
  "decodeString r =
     (case read_len r [] of
        Inl e \<Rightarrow> Inl e
      | Inr (lenBuf, r') \<Rightarrow>
          (case atoi lenBuf of
             Inl e \<Rightarrow> Inl e
           | Inr n \<Rightarrow>
               if \<not> make_ok n then Inl (Panic MakeSliceLen)
               else if int (length r') < n then Inl (Err ErrUnexpectedEOF)
               else Inr (take (nat n) r', drop (nat n) r')))"

function (sequential) decode :: "bytes \<Rightarrow> (gval \<times> bytes) res"
  and decodeList :: "bytes \<Rightarrow> gval list \<Rightarrow> (gval list \<times> bytes) res"
  and decodeDict :: "bytes \<Rightarrow> gdict \<Rightarrow> (gdict \<times> bytes) res"
where
  "decode [] = Inl (Err ErrUnexpectedEOF)"
| "decode (b # r) =
     (if b = ch CHR ''i'' then
        (case decodeInt r of Inl e \<Rightarrow> Inl e | Inr (i, r') \<Rightarrow> Inr (GInt64 i, r'))
      else if b = ch CHR ''l'' then
        (case decodeList r [] of Inl e \<Rightarrow> Inl e | Inr (l, r') \<Rightarrow> Inr (GList l, r'))
      else if b = ch CHR ''d'' then
        (case decodeDict r [] of Inl e \<Rightarrow> Inl e | Inr (d, r') \<Rightarrow> Inr (GDict d, r'))
      else if b \<ge> ch CHR ''0'' \<and> b \<le> ch CHR ''9'' then
        (case decodeString (b # r) of Inl e \<Rightarrow> Inl e | Inr (s, r') \<Rightarrow> Inr (GBytes s, r'))
      else Inl (Err ErrInvalidBencode))"
| "decodeList [] acc = Inl (Err ErrUnexpectedEOF)"
| "decodeList (b # r) acc =
     (if b = ch CHR ''e'' then Inr (acc, r)
      else case decode (b # r) of
             Inl e \<Rightarrow> Inl e
           | Inr (item, r') \<Rightarrow> decodeList r' (acc @ [item]))"
| "decodeDict [] dict = Inl (Err ErrUnexpectedEOF)"
| "decodeDict (b # r) dict =
     (if b = ch CHR ''e'' then Inr (dict, r)
      else case decodeString (b # r) of
             Inl e \<Rightarrow> Inl e
           | Inr (key, r') \<Rightarrow>
               (case decode r' of
                  Inl e \<Rightarrow> Inl e
                | Inr (val, r'') \<Rightarrow> decodeDict r'' (AList.update key val dict)))"
  by pat_completeness auto

text \<open>
  Termination: every successful read leaves fewer bytes than it was given, which is
  proved on the domain of the functions first.
\<close>

lemma read_int_shorter: "read_int r buf = Inr (x, r') \<Longrightarrow> length r' < length r"
  by (induction r buf rule: read_int.induct) (auto split: if_splits)

lemma decodeInt_shorter: "decodeInt r = Inr (i, r') \<Longrightarrow> length r' < length r"
  by (auto simp: decodeInt_def dest: read_int_shorter split: sum.splits)

lemma read_len_shorter: "read_len r buf = Inr (x, r') \<Longrightarrow> length r' < length r"
  by (induction r buf rule: read_len.induct) (auto split: if_splits)

lemma decodeString_shorter: "decodeString r = Inr (s, r') \<Longrightarrow> length r' < length r"
  by (auto simp: decodeString_def dest!: read_len_shorter split: sum.splits if_splits)

lemma decode_dom_shorter:
  "decode_decodeList_decodeDict_dom (Inl r) \<Longrightarrow> decode r = Inr (v, r') \<Longrightarrow> length r' < length r"
  "decode_decodeList_decodeDict_dom (Inr (Inl (r, acc))) \<Longrightarrow> decodeList r acc = Inr (l, r')
    \<Longrightarrow> length r' < length r"
  "decode_decodeList_decodeDict_dom (Inr (Inr (r, dict))) \<Longrightarrow> decodeDict r dict = Inr (d, r')
    \<Longrightarrow> length r' < length r"
proof (induction r and r acc and r dict arbitrary: v r' and l r' and d r'
    rule: decode_decodeList_decodeDict.pinduct)
  case (2 b r)
  then show ?case
    by (fastforce simp: decode.psimps dest: decodeInt_shorter decodeString_shorter
        split: if_splits sum.splits)
next
  case (4 b r acc)
  then show ?case
    by (fastforce simp: decodeList.psimps split: if_splits sum.splits)
next
  case (6 b r dict)
  then show ?case
    by (fastforce simp: decodeDict.psimps dest: decodeString_shorter split: if_splits sum.splits)
qed (simp_all add: decode.psimps decodeList.psimps decodeDict.psimps)

termination decode
  by (relation "measure (case_sum (\<lambda>r. 2 * length r)
        (case_sum (\<lambda>(r, _). Suc (2 * length r)) (\<lambda>(r, _). Suc (2 * length r))))")
    (auto dest!: decode_dom_shorter decodeString_shorter)

declare decode.simps [simp del] decodeList.simps [simp del] decodeDict.simps [simp del]

lemmas decode_equations = decode.simps decodeList.simps decodeDict.simps

lemma decodeList_step:
  assumes "r \<noteq> []" and "hd r \<noteq> ch CHR ''e''"
  shows "decodeList r acc =
    (case decode r of Inl e \<Rightarrow> Inl e | Inr (item, r') \<Rightarrow> decodeList r' (acc @ [item]))"
  using assms by (cases r) (simp_all add: decodeList.simps)

lemma decodeDict_step:
  assumes "r \<noteq> []" and "hd r \<noteq> ch CHR ''e''"
  shows "decodeDict r dict =
    (case decodeString r of
       Inl e \<Rightarrow> Inl e
     | Inr (key, r') \<Rightarrow>
         (case decode r' of
            Inl e \<Rightarrow> Inl e
          | Inr (val, r'') \<Rightarrow> decodeDict r'' (AList.update key val dict)))"
  using assms by (cases r) (simp_all add: decodeDict.simps)

section \<open>Round trip\<close>

text \<open>
  \<open>gval_ok\<close> holds of the values a Go program can pass to the encoder with success: maps
  have distinct keys, no string is larger than the address space, and every type is one
  the switch lists. \<open>norm\<close> is what decoding an encoded value returns: strings as \<open>[]byte\<close>,
  integers as \<open>int64\<close>, dictionaries in key order.
\<close>

fun gval_ok :: "gval \<Rightarrow> bool" where
  "gval_ok (GString s) = (int (length s) \<le> maxAlloc)"
| "gval_ok (GBytes s) = (int (length s) \<le> maxAlloc)"
| "gval_ok (GInt i) = True"
| "gval_ok (GInt64 i) = True"
| "gval_ok (GUint16 u) = True"
| "gval_ok (GUint32 u) = True"
| "gval_ok (GList items) = (\<forall>x \<in> set items. gval_ok x)"
| "gval_ok (GDict d) =
     (distinct (map fst d) \<and> (\<forall>(k, v) \<in> set d. int (length k) \<le> maxAlloc \<and> gval_ok v))"
| "gval_ok GOther = False"

fun norm :: "gval \<Rightarrow> gval" where
  "norm (GString s) = GBytes s"
| "norm (GBytes s) = GBytes s"
| "norm (GInt i) = GInt64 i"
| "norm (GInt64 i) = GInt64 i"
| "norm (GUint16 u) = GInt64 (ucast u)"
| "norm (GUint32 u) = GInt64 (ucast u)"
| "norm (GList items) = GList (map norm items)"
| "norm (GDict d) = GDict (sort_key fst (map (\<lambda>(k, v). (k, norm v)) d))"
| "norm GOther = GOther"

definition wire :: "gval \<Rightarrow> bytes" where
  "wire v = (case encode v of Inl _ \<Rightarrow> [] | Inr b \<Rightarrow> b)"

definition wire_ok :: "gval \<Rightarrow> bool" where
  "wire_ok v \<longleftrightarrow> encode v = Inr (wire v) \<and> wire v \<noteq> [] \<and> hd (wire v) \<noteq> ch CHR ''e''
     \<and> (\<forall>rest. decode (wire v @ rest) = Inr (norm v, rest))"

lemma wire_encode: "encode v = Inr b \<Longrightarrow> wire v = b"
  by (simp add: wire_def)

lemma read_len_digits:
  "\<forall>c \<in> set ds. is_digit c \<Longrightarrow> read_len (ds @ ch CHR '':'' # rest) buf = Inr (buf @ ds, rest)"
proof (induction ds arbitrary: buf)
  case (Cons c ds)
  then show ?case
    using digit_not_sign [of c] by (auto simp: is_digit_def not_less)
qed simp

lemma decodeString_enc_string:
  assumes "int (length s) \<le> maxAlloc"
  shows "decodeString (enc_string s @ rest) = Inr (s, rest)"
proof -
  have "length s < 2 ^ 63" using assms by (simp add: maxAlloc_def)
  then show ?thesis
    using assms read_len_digits [OF dec_nat_digits, of "length s" "s @ rest" "[]"]
    by (simp add: decodeString_def enc_string_def atoi_def parse_int_dec_nat make_ok_def)
qed

lemma hd_enc_string: "is_digit (hd (enc_string s))" "enc_string s \<noteq> []"
  using hd_dec_nat by (simp_all add: enc_string_def hd_append)

lemma decode_digit:
  assumes "r \<noteq> []" and "is_digit (hd r)"
  shows "decode r =
    (case decodeString r of Inl e \<Rightarrow> Inl e | Inr (s, r') \<Rightarrow> Inr (GBytes s, r'))"
proof -
  obtain b r' where r: "r = b # r'" and d: "is_digit b"
    using assms by (cases r) auto
  have "b \<noteq> ch CHR ''i''" "b \<noteq> ch CHR ''l''" "b \<noteq> ch CHR ''d''"
    using d by (auto simp: is_digit_def)
  with d show ?thesis
    unfolding r by (simp add: decode.simps is_digit_def)
qed

lemma decode_enc_string:
  "int (length s) \<le> maxAlloc \<Longrightarrow> decode (enc_string s @ rest) = Inr (GBytes s, rest)"
  by (simp add: decode_digit hd_enc_string decodeString_enc_string)

lemma read_int_no_e:
  "ch CHR ''e'' \<notin> set ds \<Longrightarrow> read_int (ds @ ch CHR ''e'' # rest) buf = Inr (buf @ ds, rest)"
  by (induction ds arbitrary: buf) auto

lemma decode_enc_int:
  assumes "- (2 ^ 63) \<le> i" and "i < 2 ^ 63"
  shows "decode (enc_int i @ rest) = Inr (GInt64 (word_of_int i), rest)"
  using assms read_int_no_e [of "fmt_int i" rest "[]"] fmt_int_no_e [of i]
  by (simp add: enc_int_def decode.simps decodeInt_def parse_int_fmt_int)

lemma wire_okI:
  assumes "encode v = Inr b" and "b \<noteq> []" and "hd b \<noteq> ch CHR ''e''"
    and "\<And>rest. decode (b @ rest) = Inr (norm v, rest)"
  shows "wire_ok v"
  using assms by (simp add: wire_ok_def wire_encode)

lemma wire_ok_enc_string:
  assumes "int (length s) \<le> maxAlloc" and "encode v = Inr (enc_string s)" and "norm v = GBytes s"
  shows "wire_ok v"
proof (rule wire_okI [OF assms(2)])
  show "hd (enc_string s) \<noteq> ch CHR ''e''"
    using digit_not_sign [OF hd_enc_string(1), of s] by simp
qed (use assms in \<open>simp_all add: hd_enc_string decode_enc_string\<close>)

lemma wire_ok_enc_int:
  assumes "- (2 ^ 63) \<le> i" and "i < 2 ^ 63"
    and "encode v = Inr (enc_int i)" and "norm v = GInt64 (word_of_int i)"
  shows "wire_ok v"
proof (rule wire_okI [OF assms(3)])
  show "enc_int i \<noteq> []" "hd (enc_int i) \<noteq> ch CHR ''e''"
    by (simp_all add: enc_int_def)
qed (use assms in \<open>simp add: decode_enc_int\<close>)

lemma sint_int64_range: "- (2 ^ 63) \<le> sint (i :: int64)" "sint (i :: int64) < 2 ^ 63"
  using sint_ge [of i] sint_lt [of i] by simp_all

lemma wire_ok_sint:
  "encode v = Inr (enc_int (sint i)) \<Longrightarrow> norm v = GInt64 i \<Longrightarrow> wire_ok v"
  using sint_int64_range [of i] by (intro wire_ok_enc_int [of "sint i"]) simp_all

lemma decodeList_wire:
  "\<forall>x \<in> set l. wire_ok x \<Longrightarrow>
    decodeList (concat (map wire l) @ ch CHR ''e'' # rest) acc = Inr (acc @ map norm l, rest)"
proof (induction l arbitrary: acc)
  case Nil
  then show ?case by (simp add: decodeList.simps)
next
  case (Cons x l)
  then show ?case
    by (simp add: decodeList_step wire_ok_def)
qed

lemma decodeDict_wire:
  assumes "\<forall>k \<in> set ks. int (length k) \<le> maxAlloc \<and> wire_ok (f k)"
    and "distinct ks" and "set ks \<inter> fst ` set acc = {}"
  shows "decodeDict (concat (map (\<lambda>k. enc_string k @ wire (f k)) ks) @ ch CHR ''e'' # rest) acc
    = Inr (acc @ map (\<lambda>k. (k, norm (f k))) ks, rest)"
  using assms
proof (induction ks arbitrary: acc)
  case Nil
  then show ?case by (simp add: decodeDict.simps)
next
  case (Cons k ks)
  have "hd (enc_string k) \<noteq> ch CHR ''e''"
    using digit_not_sign [OF hd_enc_string(1), of k] by simp
  moreover have "AList.update k (norm (f k)) acc = acc @ [(k, norm (f k))]"
    using Cons.prems(3) by (intro update_new_key) simp
  moreover have "set ks \<inter> fst ` set (acc @ [(k, norm (f k))]) = {}"
    using Cons.prems(2,3) by auto
  ultimately show ?case
    using Cons.prems Cons.IH [of "acc @ [(k, norm (f k))]"]
    by (simp add: decodeDict_step hd_enc_string decodeString_enc_string wire_ok_def)
qed

lemma norm_dict_keys:
  assumes "distinct (map fst d)"
  shows "norm (GDict d) = GDict (map (\<lambda>k. (k, norm (the (map_of d k)))) (sort (map fst d)))"
proof -
  let ?n = "map (\<lambda>(k, v). (k, norm v)) d"
  have "the (map_of d k) = v" if "(k, v) \<in> set d" for k v
    using assms that by simp
  then have n: "?n = map (\<lambda>k. (k, norm (the (map_of d k)))) (map fst d)"
    by (auto simp: list_eq_iff_nth_eq split: prod.split) (metis nth_mem prod.collapse)
  have s: "sort_key fst (map (\<lambda>k. (k, g k)) ks) = map (\<lambda>k. (k, g k)) (sort ks)"
    for g :: "bytes \<Rightarrow> gval" and ks
    by (induction ks) (simp_all add: sort_key_simps insort_key_map_pair)
  show ?thesis by (simp only: norm.simps n s)
qed

text \<open>Every well-formed value is encoded, and decoding gives back its normal form.\<close>

lemma wire_ok_list:
  assumes "\<forall>x \<in> set l. wire_ok x"
  shows "wire_ok (GList l)"
proof (rule wire_okI)
  show "encode (GList l) = Inr ([ch CHR ''l''] @ concat (map wire l) @ [ch CHR ''e''])"
    using assms concat_res_Inr [of l encode wire] by (simp add: wire_ok_def)
  show "decode (([ch CHR ''l''] @ concat (map wire l) @ [ch CHR ''e'']) @ rest)
      = Inr (norm (GList l), rest)" for rest
    using decodeList_wire [OF assms, of rest "[]"] by (simp add: decode.simps)
qed simp_all

lemma wire_ok_dict:
  assumes d: "distinct (map fst d)"
    and ok: "\<forall>(k, v) \<in> set d. int (length k) \<le> maxAlloc \<and> wire_ok v"
  shows "wire_ok (GDict d)"
proof -
  let ?f = "\<lambda>k. the (map_of d k)" and ?ks = "sort (map fst d)"
  let ?b = "concat (map (\<lambda>k. enc_string k @ wire (?f k)) ?ks)"
  have f: "int (length k) \<le> maxAlloc \<and> wire_ok (?f k)" if "k \<in> set ?ks" for k
    using that ok d by (auto simp: case_prod_beta)
  have g: "(case map_of d k of
        None \<Rightarrow> Inl (Err ErrUnsupportedType)
      | Some v \<Rightarrow> (case encode v of Inl e \<Rightarrow> Inl e | Inr b \<Rightarrow> Inr (enc_string k @ b)))
    = Inr (enc_string k @ wire (?f k))" if k: "k \<in> set ?ks" for k
  proof -
    from k have "map_of d k \<noteq> None" by (simp add: map_of_eq_None_iff)
    then obtain v where "map_of d k = Some v" by blast
    with f [OF k] show ?thesis by (simp add: wire_ok_def)
  qed
  show ?thesis
  proof (rule wire_okI)
    show "encode (GDict d) = Inr ([ch CHR ''d''] @ ?b @ [ch CHR ''e''])"
      unfolding encode.simps Let_def by (simp only: concat_res_Inr [OF g] sum.case)
    show "decode (([ch CHR ''d''] @ ?b @ [ch CHR ''e'']) @ rest) = Inr (norm (GDict d), rest)" for rest
      using decodeDict_wire [of ?ks ?f "[]" rest] f d
      by (simp add: decode.simps norm_dict_keys del: norm.simps)
  qed simp_all
qed

lemma gval_ok_wire_ok: "gval_ok v \<Longrightarrow> wire_ok v"
proof (induction v)
  case (GString s)
  then show ?case by (auto intro: wire_ok_enc_string)
next
  case (GBytes s)
  then show ?case by (auto intro: wire_ok_enc_string)
next
  case (GUint16 u)
  have "uint u < 2 ^ LENGTH(16)" by (rule unsigned_less)
  moreover have "- (2 ^ 63) \<le> uint u" by (rule order_trans [of _ 0]) simp_all
  ultimately show ?case
    by (intro wire_ok_enc_int [of "uint u"]) (simp_all only: norm.simps encode.simps, simp_all add: unsigned_ucast_eq)
next
  case (GUint32 u)
  have "uint u < 2 ^ LENGTH(32)" by (rule unsigned_less)
  moreover have "- (2 ^ 63) \<le> uint u" by (rule order_trans [of _ 0]) simp_all
  ultimately show ?case
    by (intro wire_ok_enc_int [of "uint u"]) (simp_all only: norm.simps encode.simps, simp_all add: unsigned_ucast_eq)
next
  case (GList l)
  then show ?case by (intro wire_ok_list) simp
next
  case (GDict d)
  then show ?case by (intro wire_ok_dict) (fastforce simp: case_prod_beta)+
qed (auto intro: wire_ok_sint)

interpretation bencode: prefix_codec encode decode gval_ok norm
  by unfold_locales
    (auto dest!: gval_ok_wire_ok simp: wire_ok_def)

section \<open>Canonical form\<close>

text \<open>
  The encoder sorts the keys, so the bytes do not depend on Go's map iteration order:
  a value and its normal form have the same encoding.
\<close>

lemma sort_map_fst_norm:
  "sort (map fst (sort_key fst (map (\<lambda>(k, v). (k, norm v)) d))) = sort (map fst d)"
  by (simp add: map_fst_sort_key sorted_sort_id)

lemma map_of_norm_dict:
  assumes "distinct (map fst d)"
  shows "map_of (sort_key fst (map (\<lambda>(k, v). (k, norm v)) d)) k = map_option norm (map_of d k)"
proof -
  have "map_of (sort_key fst (map (\<lambda>(k, v). (k, norm v)) d)) = map_of (map (\<lambda>(k, v). (k, norm v)) d)"
    using assms by (intro map_of_sort_key) simp
  then show ?thesis by (simp add: map_of_map)
qed

lemma encode_norm: "gval_ok v \<Longrightarrow> encode (norm v) = encode v"
proof (induction v)
  case (GList l)
  then have "concat_res encode (map norm l) = concat_res encode l"
    by (simp add: concat_res_map cong: concat_res_cong)
  then show ?case by simp
next
  case (GDict d)
  have IH: "encode (norm v) = encode v" if "map_of d k = Some v" for k v
    using GDict that by (fastforce dest: map_of_SomeD)
  have "distinct (map fst d)" using GDict.prems by simp
  then show ?case
    unfolding norm.simps encode.simps sort_map_fst_norm Let_def
    by (simp only: map_of_norm_dict)
      (auto intro!: arg_cong [where f = "case_sum _ _"] concat_res_cong simp: IH split: option.split)
qed simp_all

section \<open>What decoding yields\<close>

text \<open>
  \<open>decoded\<close> is the type the comment of \<open>Decode\<close> announces: byte strings, \<open>int64\<close>s,
  lists and dictionaries of such, and nothing else.
\<close>

fun decoded :: "gval \<Rightarrow> bool" where
  "decoded (GBytes s) = (int (length s) \<le> maxAlloc)"
| "decoded (GInt64 i) = True"
| "decoded (GList items) = (\<forall>x \<in> set items. decoded x)"
| "decoded (GDict d) =
     (distinct (map fst d) \<and> (\<forall>(k, v) \<in> set d. int (length k) \<le> maxAlloc \<and> decoded v))"
| "decoded _ = False"

lemma decoded_gval_ok: "decoded v \<Longrightarrow> gval_ok v"
  by (induction v) fastforce+

lemma decodeString_length: "decodeString r = Inr (s, r') \<Longrightarrow> int (length s) \<le> maxAlloc"
  by (auto simp: decodeString_def make_ok_def split: sum.splits if_splits)

lemma set_update_subset: "set (AList.update k v d) \<subseteq> insert (k, v) (set d)"
  by (induction d) auto

lemma decoded_update:
  assumes "decoded (GDict d)" and "int (length k) \<le> maxAlloc" and "decoded v"
  shows "decoded (GDict (AList.update k v d))"
proof -
  have "\<forall>x \<in> insert (k, v) (set d). int (length (fst x)) \<le> maxAlloc \<and> decoded (snd x)"
    using assms by (auto simp: case_prod_beta)
  then show ?thesis
    using assms(1) set_update_subset [of k v d]
    by (auto simp: case_prod_beta distinct_update)
qed

lemma decode_decoded:
  "decode r = Inr (v, r') \<Longrightarrow> decoded v"
  "decodeList r acc = Inr (l, r') \<Longrightarrow> decoded (GList acc) \<Longrightarrow> decoded (GList l)"
  "decodeDict r dict = Inr (d, r') \<Longrightarrow> decoded (GDict dict) \<Longrightarrow> decoded (GDict d)"
proof (induction r and r acc and r dict arbitrary: v r' and l r' and d r'
    rule: decode_decodeList_decodeDict.induct)
  case (2 b r)
  then show ?case
    by (auto simp: decode.simps(2) dest: decodeString_length split: if_splits sum.splits)
next
  case (4 b r acc)
  then show ?case
    by (auto simp: decodeList.simps(2) split: if_splits sum.splits)
next
  case (6 b r dict)
  show ?case
  proof (cases "b = ch CHR ''e''")
    case True
    with 6 show ?thesis by (simp add: decodeDict.simps)
  next
    case False
    with "6.prems"(1) obtain key r1 val r2
      where k: "decodeString (b # r) = Inr (key, r1)" and v: "decode r1 = Inr (val, r2)"
        and rec: "decodeDict r2 (AList.update key val dict) = Inr (d, r')"
      by (auto simp: decodeDict.simps split: sum.splits)
    have "decoded (GDict (AList.update key val dict))"
      using "6.IH"(1) False k v
      by (intro decoded_update [OF "6.prems"(2) decodeString_length [OF k]]) blast
    with "6.IH"(2) False k v rec show ?thesis by simp
  qed
qed (simp_all add: decode.simps decodeList.simps decodeDict.simps)

section \<open>Locality\<close>

text \<open>
  A successful read looks only at the bytes it consumes: the rest of the stream can be
  replaced without changing the result. \<open>local_read\<close> states this of one reader.
\<close>

definition local_read :: "(bytes \<Rightarrow> ('a \<times> bytes) res) \<Rightarrow> bytes \<Rightarrow> 'a \<Rightarrow> bytes \<Rightarrow> bool" where
  "local_read f r x r' \<longleftrightarrow> (\<exists>p. p \<noteq> [] \<and> r = p @ r' \<and> (\<forall>s. f (p @ s) = Inr (x, s)))"

lemma local_readI:
  "p \<noteq> [] \<Longrightarrow> r = p @ r' \<Longrightarrow> (\<And>s. f (p @ s) = Inr (x, s)) \<Longrightarrow> local_read f r x r'"
  by (auto simp: local_read_def)

lemma local_readE:
  assumes "local_read f r x r'"
  obtains p where "p \<noteq> []" and "r = p @ r'" and "\<And>s. f (p @ s) = Inr (x, s)"
  using assms by (auto simp: local_read_def)

lemma read_int_local:
  "read_int r buf = Inr (x, r') \<Longrightarrow> local_read (\<lambda>r. read_int r buf) r x r'"
proof (induction r buf rule: read_int.induct)
  case (2 b r buf)
  show ?case
  proof (cases "b = ch CHR ''e''")
    case True
    with 2 show ?thesis by (intro local_readI [of "[b]"]) auto
  next
    case False
    with 2 obtain p where "r = p @ r'" "\<And>s. read_int (p @ s) (buf @ [b]) = Inr (x, s)"
      by (auto elim: local_readE)
    with False show ?thesis by (intro local_readI [of "b # p"]) auto
  qed
qed simp

lemma read_len_local:
  "read_len r buf = Inr (x, r') \<Longrightarrow> local_read (\<lambda>r. read_len r buf) r x r'"
proof (induction r buf rule: read_len.induct)
  case (2 b r buf)
  show ?case
  proof (cases "b = ch CHR '':''")
    case True
    with 2 show ?thesis by (intro local_readI [of "[b]"]) auto
  next
    case False
    with 2 obtain p where "r = p @ r'" "\<And>s. read_len (p @ s) (buf @ [b]) = Inr (x, s)"
      by (auto elim: local_readE split: if_splits)
    with False "2.prems" show ?thesis
      by (intro local_readI [of "b # p"]) (auto split: if_splits)
  qed
qed simp

lemma decodeInt_local: "decodeInt r = Inr (i, r') \<Longrightarrow> local_read decodeInt r i r'"
  by (auto simp: decodeInt_def local_read_def dest!: read_int_local split: sum.splits)

lemma decodeString_local:
  assumes "decodeString r = Inr (s, r')"
  shows "local_read decodeString r s r'"
proof -
  from assms obtain ds q n where ds: "read_len r [] = Inr (ds, q)" and n: "atoi ds = Inr n"
    and ok: "make_ok n" "n \<le> int (length q)" and s: "s = take (nat n) q" "r' = drop (nat n) q"
    by (auto simp: decodeString_def split: sum.splits if_splits)
  from ds obtain p where p: "p \<noteq> []" "r = p @ q" "\<And>t. read_len (p @ t) [] = Inr (ds, t)"
    by (auto dest!: read_len_local elim: local_readE)
  have "decodeString ((p @ s) @ t) = Inr (s, t)" for t
    using n ok s by (simp add: decodeString_def p(3) make_ok_def min_def nat_le_iff)
  with p(1,2) s show ?thesis by (intro local_readI [of "p @ s"]) auto
qed

lemma decode_local:
  "decode r = Inr (v, r') \<Longrightarrow> local_read decode r v r'"
  "decodeList r acc = Inr (l, r') \<Longrightarrow> local_read (\<lambda>r. decodeList r acc) r l r'"
  "decodeDict r dict = Inr (d, r') \<Longrightarrow> local_read (\<lambda>r. decodeDict r dict) r d r'"
proof (induction r and r acc and r dict arbitrary: v r' and l r' and d r'
    rule: decode_decodeList_decodeDict.induct)
  case (2 b r)
  consider (i) "b = ch CHR ''i''" | (l) "b = ch CHR ''l''" | (d) "b = ch CHR ''d''" | (s) "is_digit b"
    using "2.prems" by (auto simp: decode.simps is_digit_def split: if_splits)
  then show ?case
  proof cases
    case i
    with "2.prems" obtain x where "decodeInt r = Inr (x, r')" and v: "v = GInt64 x"
      by (auto simp: decode.simps split: sum.splits)
    from decodeInt_local [OF this(1)] obtain p where
      "r = p @ r'" "\<And>s. decodeInt (p @ s) = Inr (x, s)" by (auto elim: local_readE)
    with i v show ?thesis by (intro local_readI [of "b # p"]) (auto simp: decode.simps)
  next
    case l
    with "2.prems" obtain x where "decodeList r [] = Inr (x, r')" and v: "v = GList x"
      by (auto simp: decode.simps split: sum.splits)
    with "2.IH"(1) l obtain p where
      "r = p @ r'" "\<And>s. decodeList (p @ s) [] = Inr (x, s)" by (auto elim: local_readE)
    with l v show ?thesis by (intro local_readI [of "b # p"]) (auto simp: decode.simps)
  next
    case d
    with "2.prems" obtain x where "decodeDict r [] = Inr (x, r')" and v: "v = GDict x"
      by (auto simp: decode.simps split: sum.splits)
    with "2.IH"(2) d obtain p where
      "r = p @ r'" "\<And>s. decodeDict (p @ s) [] = Inr (x, s)" by (auto elim: local_readE)
    with d v show ?thesis by (intro local_readI [of "b # p"]) (auto simp: decode.simps)
  next
    case s
    with "2.prems" obtain x where "decodeString (b # r) = Inr (x, r')" and v: "v = GBytes x"
      by (auto simp: decode_digit split: sum.splits)
    from decodeString_local [OF this(1)] obtain p where
      "p \<noteq> []" "b # r = p @ r'" "\<And>s. decodeString (p @ s) = Inr (x, s)" by (auto elim: local_readE)
    with s v show ?thesis
      by (intro local_readI [of p]) (auto simp: decode_digit hd_append neq_Nil_conv)
  qed
next
  case (4 b r acc)
  show ?case
  proof (cases "b = ch CHR ''e''")
    case True
    with 4 show ?thesis by (intro local_readI [of "[b]"]) (auto simp: decodeList.simps)
  next
    case False
    with "4.prems" obtain x q where x: "decode (b # r) = Inr (x, q)"
      and rec: "decodeList q (acc @ [x]) = Inr (l, r')"
      by (auto simp: decodeList.simps split: sum.splits)
    from "4.IH"(1) [OF False x] obtain p where p: "p \<noteq> []" "b # r = p @ q"
      "\<And>s. decode (p @ s) = Inr (x, s)" by (auto elim: local_readE)
    have "local_read (\<lambda>r. decodeList r (acc @ [x])) q l r'"
      using "4.IH"(2) False x rec by auto
    then obtain p' where p': "q = p' @ r'"
      "\<And>s. decodeList (p' @ s) (acc @ [x]) = Inr (l, s)" by (auto elim: local_readE)
    have "hd p = b" using p by (cases p) auto
    with False p p' show ?thesis
      by (intro local_readI [of "p @ p'"]) (auto simp: decodeList_step)
  qed
next
  case (6 b r dict)
  show ?case
  proof (cases "b = ch CHR ''e''")
    case True
    with 6 show ?thesis by (intro local_readI [of "[b]"]) (auto simp: decodeDict.simps)
  next
    case False
    with "6.prems" obtain k q1 x q2 where k: "decodeString (b # r) = Inr (k, q1)"
      and x: "decode q1 = Inr (x, q2)"
      and rec: "decodeDict q2 (AList.update k x dict) = Inr (d, r')"
      by (auto simp: decodeDict.simps split: sum.splits)
    from decodeString_local [OF k] obtain p1 where p1: "p1 \<noteq> []" "b # r = p1 @ q1"
      "\<And>s. decodeString (p1 @ s) = Inr (k, s)" by (auto elim: local_readE)
    have "local_read decode q1 x q2" using "6.IH"(1) False k x by auto
    then obtain p2 where p2: "q1 = p2 @ q2"
      "\<And>s. decode (p2 @ s) = Inr (x, s)" by (auto elim: local_readE)
    have "local_read (\<lambda>r. decodeDict r (AList.update k x dict)) q2 d r'"
      using "6.IH"(2) False k x rec by auto
    then obtain p3 where p3: "q2 = p3 @ r'"
      "\<And>s. decodeDict (p3 @ s) (AList.update k x dict) = Inr (d, s)" by (auto elim: local_readE)
    have "hd p1 = b" using p1 by (cases p1) auto
    with False p1 p2 p3 show ?thesis
      by (intro local_readI [of "p1 @ p2 @ p3"]) (auto simp: decodeDict_step)
  qed
qed (simp_all add: decode.simps decodeList.simps decodeDict.simps)

section \<open>Entry points and accessors\<close>

definition Encode :: "gval \<Rightarrow> bytes res" where
  "Encode v = (case encode v of Inl e \<Rightarrow> Inl e | Inr b \<Rightarrow> Inr b)"

definition Decode :: "bytes \<Rightarrow> gval res" where
  "Decode data = (case decode data of Inl e \<Rightarrow> Inl e | Inr (val, _) \<Rightarrow> Inr val)"

definition DecodeDict :: "bytes \<Rightarrow> gdict res" where
  "DecodeDict data =
     (case Decode data of
        Inl e \<Rightarrow> Inl e
      | Inr val \<Rightarrow> (case val of GDict dict \<Rightarrow> Inr dict | _ \<Rightarrow> Inl (Err ErrNotDictionary)))"

definition peekByte :: "bytes \<Rightarrow> byte res" where
  "peekByte r = (case r of [] \<Rightarrow> Inl (Err ErrUnexpectedEOF) | b # _ \<Rightarrow> Inr b)"

definition GetString :: "gdict \<Rightarrow> bytes \<Rightarrow> bytes option" where
  "GetString dict key =
     (case map_of dict key of
        None \<Rightarrow> None
      | Some val \<Rightarrow> (case val of GBytes v \<Rightarrow> Some v | GString v \<Rightarrow> Some v | _ \<Rightarrow> None))"

definition GetBytes :: "gdict \<Rightarrow> bytes \<Rightarrow> bytes option" where
  "GetBytes dict key =
     (case map_of dict key of
        None \<Rightarrow> None
      | Some val \<Rightarrow> (case val of GBytes v \<Rightarrow> Some v | GString v \<Rightarrow> Some v | _ \<Rightarrow> None))"

definition GetInt :: "gdict \<Rightarrow> bytes \<Rightarrow> int64 option" where
  "GetInt dict key =
     (case map_of dict key of
        None \<Rightarrow> None
      | Some val \<Rightarrow> (case val of GInt64 v \<Rightarrow> Some v | GInt v \<Rightarrow> Some v | _ \<Rightarrow> None))"

definition GetDict :: "gdict \<Rightarrow> bytes \<Rightarrow> gdict option" where
  "GetDict dict key =
     (case map_of dict key of None \<Rightarrow> None | Some val \<Rightarrow> (case val of GDict d \<Rightarrow> Some d | _ \<Rightarrow> None))"

definition GetList :: "gdict \<Rightarrow> bytes \<Rightarrow> gval list option" where
  "GetList dict key =
     (case map_of dict key of None \<Rightarrow> None | Some val \<Rightarrow> (case val of GList l \<Rightarrow> Some l | _ \<Rightarrow> None))"

lemmas accessor_defs = GetString_def GetBytes_def GetInt_def GetDict_def GetList_def

text \<open>
  The dictionary a receiver decodes from an encoded one, and what the accessors read
  from it: what was stored, with strings and byte slices identified.
\<close>

definition norm_dict :: "gdict \<Rightarrow> gdict" where
  "norm_dict d = sort_key fst (map (\<lambda>(k, v). (k, norm v)) d)"

lemma norm_GDict: "norm (GDict d) = GDict (norm_dict d)"
  by (simp add: norm_dict_def)

lemma map_of_norm_dict' [simp]:
  "distinct (map fst d) \<Longrightarrow> map_of (norm_dict d) k = map_option norm (map_of d k)"
  by (simp add: norm_dict_def map_of_norm_dict)

lemma norm_eq_GDict: "norm v = GDict e \<longleftrightarrow> (\<exists>d. v = GDict d \<and> e = norm_dict d)"
  by (cases v) (auto simp: norm_dict_def)

lemma norm_cases [simp]:
  "(case norm v of GBytes s \<Rightarrow> Some s | GString s \<Rightarrow> Some s | _ \<Rightarrow> None) =
     (case v of GBytes s \<Rightarrow> Some s | GString s \<Rightarrow> Some s | _ \<Rightarrow> None)"
  by (cases v) simp_all

lemma accessors_norm_dict:
  assumes "distinct (map fst d)"
  shows "GetBytes (norm_dict d) k = GetBytes d k"
    and "GetString (norm_dict d) k = GetString d k"
    and "GetDict (norm_dict d) k = map_option norm_dict (GetDict d k)"
    and "GetList (norm_dict d) k = map_option (map norm) (GetList d k)"
  using assms
  by (auto simp: accessor_defs norm_dict_def [symmetric] split: option.split gval.split)

lemma DecodeDict_encode:
  assumes "gval_ok (GDict d)"
  shows "\<exists>b. encode (GDict d) = Inr b \<and> DecodeDict b = Inr (norm_dict d)"
proof -
  obtain b where b: "encode (GDict d) = Inr b"
    using bencode.enc_total [OF assms] by blast
  have "decode b = Inr (GDict (norm_dict d), [])"
    using bencode.dec_enc_exact [OF assms b] by (simp only: norm_GDict)
  with b show ?thesis by (simp add: DecodeDict_def Decode_def)
qed

lemma DecodeDict_Inr: "DecodeDict b = Inr d \<longleftrightarrow> (\<exists>r. decode b = Inr (GDict d, r))"
  by (auto simp: DecodeDict_def Decode_def split: sum.splits gval.splits)

lemma DecodeDict_decoded: "DecodeDict b = Inr d \<Longrightarrow> decoded (GDict d)"
  unfolding DecodeDict_Inr by (blast dest: decode_decoded(1))

section \<open>Panics\<close>

text \<open>
  \<open>oversized r\<close>: the input holds a string length larger than any allocation.
\<close>

definition oversized :: "bytes \<Rightarrow> bool" where
  "oversized r \<longleftrightarrow> (\<exists>pre ds post n. r = pre @ ds @ ch CHR '':'' # post
     \<and> (\<forall>c \<in> set ds. is_digit c) \<and> atoi ds = Inr n \<and> maxAlloc < n)"

lemma oversizedI:
  "r = pre @ ds @ ch CHR '':'' # post \<Longrightarrow> \<forall>c \<in> set ds. is_digit c \<Longrightarrow> atoi ds = Inr n
    \<Longrightarrow> maxAlloc < n \<Longrightarrow> oversized r"
  by (auto simp: oversized_def)

lemma oversized_append: "oversized r \<Longrightarrow> oversized (p @ r)"
  unfolding oversized_def by (metis append_assoc)

lemma oversized_Cons: "oversized r \<Longrightarrow> oversized (b # r)"
  using oversized_append [of r "[b]"] by simp

lemma read_int_faults: "read_int r buf = Inl e \<Longrightarrow> e = Err ErrUnexpectedEOF"
  by (induction r buf rule: read_int.induct) (auto split: if_splits)

lemma decodeInt_no_panic: "decodeInt r \<noteq> Inl (Panic p)"
  by (auto simp: decodeInt_def dest: read_int_faults parse_int_faults split: sum.splits)

lemma read_len_faults: "read_len r buf = Inl e \<Longrightarrow> \<exists>g. e = Err g"
  by (induction r buf rule: read_len.induct) (auto split: if_splits)

lemma read_len_digits_prefix:
  "read_len r buf = Inr (x, q) \<Longrightarrow> \<exists>ds. x = buf @ ds \<and> r = ds @ ch CHR '':'' # q
    \<and> (\<forall>c \<in> set ds. is_digit c)"
proof (induction r buf rule: read_len.induct)
  case (2 b r buf)
  then show ?case
    by (cases "b = ch CHR '':''")
      (force simp: is_digit_def not_less split: if_splits intro: exI [of _ "b # _"])+
qed simp

lemma decodeString_panic:
  assumes "decodeString r = Inl (Panic p)"
  shows "p = MakeSliceLen \<and> oversized r"
proof -
  from assms obtain x q n where x: "read_len r [] = Inr (x, q)" and n: "atoi x = Inr n"
    and bad: "\<not> make_ok n" and p: "p = MakeSliceLen"
    by (auto simp: decodeString_def atoi_def dest: read_len_faults parse_int_faults
        split: sum.splits if_splits)
  from read_len_digits_prefix [OF x] obtain ds where ds: "x = ds" "r = ds @ ch CHR '':'' # q"
    "\<forall>c \<in> set ds. is_digit c" by auto
  have "0 \<le> n"
    using n ds parse_int_nonneg [of ds n] by (cases ds) (auto simp: atoi_def parse_int_def)
  then have "maxAlloc < n" using bad by (simp add: make_ok_def)
  with ds n p show ?thesis
    using oversizedI [of r "[]" ds q n] by simp
qed

lemma local_oversized: "local_read f r x q \<Longrightarrow> oversized q \<Longrightarrow> oversized r"
  by (auto simp: local_read_def intro: oversized_append)

lemma decode_panic_oversized:
  "decode r = Inl (Panic p) \<Longrightarrow> p = MakeSliceLen \<and> oversized r"
  "decodeList r acc = Inl (Panic p) \<Longrightarrow> p = MakeSliceLen \<and> oversized r"
  "decodeDict r dict = Inl (Panic p) \<Longrightarrow> p = MakeSliceLen \<and> oversized r"
proof (induction r and r acc and r dict rule: decode_decodeList_decodeDict.induct)
  case (2 b r)
  then show ?case
    by (auto simp: decode.simps decodeInt_no_panic intro: oversized_Cons
        dest!: decodeString_panic split: if_splits sum.splits)
next
  case (4 b r acc)
  show ?case
  proof (cases "decode (b # r)")
    case (Inl e)
    with 4 show ?thesis by (auto simp: decodeList.simps split: if_splits)
  next
    case (Inr y)
    then obtain x q where y: "decode (b # r) = Inr (x, q)" by (cases y) auto
    with 4 have "p = MakeSliceLen \<and> oversized q"
      by (auto simp: decodeList.simps split: if_splits)
    with decode_local(1) [OF y] show ?thesis by (auto dest: local_oversized)
  qed
next
  case (6 b r dict)
  have ne: "b \<noteq> ch CHR ''e''" using "6.prems" by (auto simp: decodeDict.simps)
  show ?case
  proof (cases "decodeString (b # r)")
    case (Inl e)
    with 6 ne show ?thesis by (auto simp: decodeDict.simps dest: decodeString_panic)
  next
    case (Inr y)
    then obtain k q1 where k: "decodeString (b # r) = Inr (k, q1)" by (cases y) auto
    note k_over = local_oversized [OF decodeString_local [OF k]]
    show ?thesis
    proof (cases "decode q1")
      case (Inl e)
      with 6 ne k show ?thesis by (auto simp: decodeDict.simps intro: k_over)
    next
      case (Inr z)
      then obtain x q2 where x: "decode q1 = Inr (x, q2)" by (cases z) auto
      with 6 ne k have "p = MakeSliceLen \<and> oversized q2"
        by (auto simp: decodeDict.simps)
      with local_oversized [OF decode_local(1) [OF x]] k_over show ?thesis by blast
    qed
  qed
qed (simp_all add: decode.simps decodeList.simps decodeDict.simps)

section \<open>Nesting\<close>

text \<open>
  The decoder calls itself for every list and dictionary it enters, to any depth. These functions follow
  its calls and give how many lists and dictionaries are open at once: the depth of its recursion, which
  the runtime's limit on the stack of a goroutine bounds and nothing in the code.
\<close>

function (sequential) decode_depth :: "bytes \<Rightarrow> nat"
  and list_depth :: "bytes \<Rightarrow> nat"
  and dict_depth :: "bytes \<Rightarrow> nat"
where
  "decode_depth [] = 0"
| "decode_depth (b # r) =
     (if b = ch CHR ''l'' then Suc (list_depth r) else if b = ch CHR ''d'' then Suc (dict_depth r) else 0)"
| "list_depth [] = 0"
| "list_depth (b # r) =
     (if b = ch CHR ''e'' then 0
      else max (decode_depth (b # r)) (case decode (b # r) of Inl _ \<Rightarrow> 0 | Inr (_, r') \<Rightarrow> list_depth r'))"
| "dict_depth [] = 0"
| "dict_depth (b # r) =
     (if b = ch CHR ''e'' then 0
      else case decodeString (b # r) of
             Inl _ \<Rightarrow> 0
           | Inr (_, r') \<Rightarrow> max (decode_depth r') (case decode r' of Inl _ \<Rightarrow> 0 | Inr (_, r'') \<Rightarrow> dict_depth r''))"
  by pat_completeness auto

lemma decode_shorter: "decode r = Inr (v, r') \<Longrightarrow> length r' < length r"
  by (fastforce dest: decode_local(1) simp: local_read_def)

termination decode_depth
  by (relation "measure (case_sum (\<lambda>r. 2 * length r) (case_sum (\<lambda>r. Suc (2 * length r)) (\<lambda>r. Suc (2 * length r))))")
    (auto dest!: decode_shorter decodeString_shorter)

declare decode_depth.simps [simp del] list_depth.simps [simp del] dict_depth.simps [simp del]

lemma decode_depth_bound:
  "decode_depth r \<le> length r" "list_depth r \<le> length r" "dict_depth r \<le> length r"
proof (induction r and r and r rule: decode_depth_list_depth_dict_depth.induct)
  case (4 b r)
  then show ?case
    by (fastforce simp: list_depth.simps dest: decode_shorter split: sum.splits)
next
  case (6 b r)
  then show ?case
    by (fastforce simp: dict_depth.simps dest: decode_shorter decodeString_shorter split: sum.splits)
qed (auto simp: decode_depth.simps list_depth.simps dict_depth.simps)

text \<open>A string of \<open>l\<close> alone opens a list with each byte.\<close>

lemma decode_open_lists: "decode (replicate n (ch CHR ''l'')) = Inl (Err ErrUnexpectedEOF)"
  and decodeList_open_lists: "decodeList (replicate n (ch CHR ''l'')) acc = Inl (Err ErrUnexpectedEOF)"
proof -
  have "decode (replicate n (ch CHR ''l'')) = Inl (Err ErrUnexpectedEOF)
      \<and> (\<forall>acc. decodeList (replicate n (ch CHR ''l'')) acc = Inl (Err ErrUnexpectedEOF))"
    by (induction n) (simp_all add: decode_equations)
  then show "decode (replicate n (ch CHR ''l'')) = Inl (Err ErrUnexpectedEOF)"
    and "decodeList (replicate n (ch CHR ''l'')) acc = Inl (Err ErrUnexpectedEOF)" by simp_all
qed

lemma depth_open_lists: "decode_depth (replicate n (ch CHR ''l'')) = n"
proof -
  have "decode_depth (replicate n (ch CHR ''l'')) = n \<and> list_depth (replicate n (ch CHR ''l'')) = n"
  proof (induction n)
    case (Suc n)
    have "list_depth (replicate (Suc n) (ch CHR ''l'')) = decode_depth (replicate (Suc n) (ch CHR ''l''))"
      using decode_open_lists [of "Suc n"] by (simp add: list_depth.simps)
    with Suc show ?case by (simp add: decode_depth.simps)
  qed (simp_all add: decode_depth.simps list_depth.simps)
  then show ?thesis by simp
qed

section \<open>Properties\<close>

text \<open>C19: Round trip. Every value the program can encode is encoded without error, and
  decoding the bytes in front of any stream returns the value's normal form (strings as
  byte slices, integers as int64, dictionary keys sorted) and leaves exactly the stream.\<close>

theorem bencode_roundtrip:
  assumes "gval_ok v"
  shows "\<exists>b. encode v = Inr b \<and> (\<forall>rest. decode (b @ rest) = Inr (norm v, rest))"
  using bencode.enc_total [OF assms] bencode.dec_enc [OF assms] by blast

text \<open>A dictionary out of key order, with a string, a list and integers of two types.\<close>

definition sample_value :: gval where
  "sample_value = GDict [(bs ''q'', GString (bs ''ping'')),
     (bs ''a'', GList [GInt (- 7), GUint16 65535, GBytes [0, 255]])]"

lemma sample_value_ok: "gval_ok sample_value"
  by (simp add: sample_value_def maxAlloc_def bs_def)

theorem bencode_roundtrip_witness:
  "gval_ok sample_value \<and>
   (\<exists>b. encode sample_value = Inr b \<and> (\<forall>rest. decode (b @ rest) = Inr (norm sample_value, rest)))"
  using sample_value_ok bencode_roundtrip [OF sample_value_ok] by blast

text \<open>Canonical encoding. Two encodable values have the same bytes exactly when they
  have the same normal form; in particular Go's random map order never shows.\<close>

lemma encode_canonical:
  assumes "gval_ok v" and "gval_ok w"
  shows "encode v = encode w \<longleftrightarrow> norm v = norm w"
proof
  assume "encode v = encode w"
  then show "norm v = norm w"
    using bencode.enc_total [OF assms(1)] bencode.enc_inject [OF assms] by auto
next
  assume "norm v = norm w"
  then show "encode v = encode w"
    using encode_norm [OF assms(1)] encode_norm [OF assms(2)] by simp
qed

definition sample_permuted :: gval where
  "sample_permuted = GDict [(bs ''a'', GList [GInt64 (- 7), GInt 65535, GString [0, 255]]),
     (bs ''q'', GBytes (bs ''ping''))]"

lemma sample_permuted_ok: "gval_ok sample_permuted" "norm sample_value = norm sample_permuted"
  by (simp_all add: sample_permuted_def sample_value_def maxAlloc_def bs_def)

lemma encode_canonical_witness:
  "gval_ok sample_value \<and> gval_ok sample_permuted \<and> encode sample_value = encode sample_permuted"
  using encode_canonical [OF sample_value_ok sample_permuted_ok(1)] sample_value_ok sample_permuted_ok
  by blast

text \<open>The decoder consumes a non-empty prefix of its input, and its result depends on
  that prefix alone.\<close>

lemma decode_consumes_prefix:
  assumes "decode r = Inr (v, r')"
  shows "\<exists>p. p \<noteq> [] \<and> r = p @ r' \<and> (\<forall>s. decode (p @ s) = Inr (v, s))"
  using decode_local(1) [OF assms] by (simp add: local_read_def)

lemma decode_sample: "decode (bs ''i42exyz'') = Inr (GInt64 42, bs ''xyz'')"
  by code_simp

lemma decode_consumes_prefix_witness:
  "decode (bs ''i42exyz'') = Inr (GInt64 42, bs ''xyz'') \<and>
   (\<exists>p. p \<noteq> [] \<and> bs ''i42exyz'' = p @ bs ''xyz'' \<and> (\<forall>s. decode (p @ s) = Inr (GInt64 42, s)))"
  using decode_sample decode_consumes_prefix [OF decode_sample] by blast

text \<open>C23: Decoded values have the types the interface promises, and any decoded value can
  be encoded again to bytes that decode to its normal form.\<close>

theorem decode_type_safe:
  assumes "decode r = Inr (v, r')"
  shows "decoded v \<and> (\<exists>b. encode v = Inr b \<and> decode b = Inr (norm v, []))"
proof -
  have d: "decoded v" using assms by (rule decode_decoded(1))
  note ok = decoded_gval_ok [OF d]
  show ?thesis using d bencode.enc_total [OF ok] bencode.dec_enc_exact [OF ok] by blast
qed

theorem decode_type_safe_witness:
  "decode (bs ''i42exyz'') = Inr (GInt64 42, bs ''xyz'') \<and> decoded (GInt64 42) \<and>
   (\<exists>b. encode (GInt64 42) = Inr b \<and> decode b = Inr (norm (GInt64 42), []))"
  using decode_sample decode_type_safe [OF decode_sample] by blast

text \<open>The decoder's only panic is the allocation of a string whose announced length is
  larger than the address space, and it happens only on inputs that hold such a length.\<close>

lemma decode_panics_only_oversized:
  assumes "decode r = Inl (Panic p)"
  shows "p = MakeSliceLen \<and> oversized r"
  using assms by (rule decode_panic_oversized(1))

lemma decode_huge: "decode (bs ''999999999999999:'') = Inl (Panic MakeSliceLen)"
  by code_simp

lemma decode_panics_only_oversized_witness:
  "decode (bs ''999999999999999:'') = Inl (Panic MakeSliceLen) \<and> oversized (bs ''999999999999999:'')"
  using decode_huge decode_panics_only_oversized [OF decode_huge] by blast

end
