(* ===== verification/Node_ID.thy ===== *)
theory Node_ID
  imports Go_Strconv
begin

text \<open>
  \<open>internal/dht/id.go\<close>: 160-bit node identifiers, the XOR metric, the k-bucket index, the
  conversions from and to bytes and hexadecimal, and the generation of identifiers spread
  over the key space. The specification side is the number an identifier denotes
  (\<open>id_val\<close>): distance is XOR of numbers, \<open>Less\<close> is \<open><\<close>, the bucket index is the position
  of the highest set bit.
\<close>

section \<open>The array type\<close>

text \<open>
  \<open>[20]byte\<close>: the type carries its length. \<open>arr20_of b\<close> is a zero array with \<open>b\<close> copied
  into it (\<open>var id NodeID; copy(id[:], b)\<close>). \<open>NodeID\<close> and the info hashes are this type.
\<close>

typedef arr20 = "{b :: bytes. length b = 20}" morphisms arr_bytes Abs_arr20
  by (rule exI [of _ "replicate 20 0"]) simp

type_synonym node_id = arr20
type_synonym info_hash = arr20

lemma Abs_arr20_code [code abstype]: "Abs_arr20 (arr_bytes a) = a"
  by (rule arr_bytes_inverse)

lemma length_arr_bytes [simp]: "length (arr_bytes a) = 20"
  using arr_bytes [of a] by simp

definition arr20_of :: "bytes \<Rightarrow> arr20" where
  "arr20_of b = Abs_arr20 (take 20 (b @ replicate 20 0))"

lemma arr_bytes_arr20_of [simp, code abstract]:
  "arr_bytes (arr20_of b) = take 20 (b @ replicate 20 0)"
  by (simp add: arr20_of_def Abs_arr20_inverse)

lemma arr_bytes_of_20 [simp]: "length b = 20 \<Longrightarrow> arr_bytes (arr20_of b) = b"
  by simp

lemma arr20_of_arr_bytes [simp]: "arr20_of (arr_bytes a) = a"
  by (rule arr_bytes_inject [THEN iffD1]) simp

lemma arr20_eq_iff: "a = b \<longleftrightarrow> arr_bytes a = arr_bytes b"
  by (simp add: arr_bytes_inject)

instantiation arr20 :: equal
begin

definition equal_arr20 :: "arr20 \<Rightarrow> arr20 \<Rightarrow> bool" where
  "equal_arr20 a b \<longleftrightarrow> arr_bytes a = arr_bytes b"

instance
  by standard (simp add: equal_arr20_def arr_bytes_inject)

end

text \<open>The order of the bytes, most significant first; \<open>Less\<close> below computes it.\<close>

instantiation arr20 :: linorder
begin

definition less_eq_arr20 :: "arr20 \<Rightarrow> arr20 \<Rightarrow> bool" where
  "less_eq_arr20 a b \<longleftrightarrow> arr_bytes a \<le> arr_bytes b"

definition less_arr20 :: "arr20 \<Rightarrow> arr20 \<Rightarrow> bool" where
  "less_arr20 a b \<longleftrightarrow> arr_bytes a < arr_bytes b"

instance
  by standard (auto simp: less_eq_arr20_def less_arr20_def arr20_eq_iff)

end

section \<open>Operations\<close>

definition IDLength :: nat where
  "IDLength = 20"

definition zeroID :: node_id where
  "zeroID = arr20_of []"

definition Distance :: "node_id \<Rightarrow> node_id \<Rightarrow> node_id" where
  "Distance a b = arr20_of (map (\<lambda>i. (arr_bytes a ! i) XOR (arr_bytes b ! i)) [0..<IDLength])"

fun less_loop :: "bytes \<Rightarrow> bytes \<Rightarrow> bool" where
  "less_loop (x # xs) (y # ys) =
     (if x < y then True else if x > y then False else less_loop xs ys)"
| "less_loop _ _ = False"

definition Less :: "node_id \<Rightarrow> node_id \<Rightarrow> bool" where
  "Less a b = less_loop (arr_bytes a) (arr_bytes b)"

function lz_mask :: "byte \<Rightarrow> byte \<Rightarrow> nat \<Rightarrow> nat" where
  "lz_mask b msk zeros =
     (if msk \<noteq> 0 \<and> b AND msk = 0 then lz_mask b (drop_bit 1 msk) (Suc zeros) else zeros)"
  by pat_completeness auto
termination
proof (relation "measure (\<lambda>(b, msk, zeros). unat msk)")
  fix b msk :: byte and zeros :: nat
  assume "msk \<noteq> 0 \<and> b AND msk = 0"
  then have "0 < unat msk" by (simp add: unat_gt_0)
  then show "((b, drop_bit 1 msk, Suc zeros), (b, msk, zeros))
      \<in> measure (\<lambda>(b, msk, zeros). unat msk)"
    by (simp only: in_measure case_prod_conv unat_drop_bit_eq) (simp add: drop_bit_eq_div)
qed simp

declare lz_mask.simps [simp del]

fun lz_loop :: "bytes \<Rightarrow> nat \<Rightarrow> nat" where
  "lz_loop [] zeros = zeros"
| "lz_loop (b # rest) zeros = (if b = 0 then lz_loop rest (zeros + 8) else lz_mask b 128 zeros)"

definition LeadingZeros :: "node_id \<Rightarrow> nat" where
  "LeadingZeros a = lz_loop (arr_bytes a) 0"

definition BucketIndex :: "node_id \<Rightarrow> node_id \<Rightarrow> nat" where
  "BucketIndex a b =
     (let dist = Distance a b; lz = LeadingZeros dist in
      if lz \<ge> IDLength * 8 then 0 else IDLength * 8 - 1 - lz)"

definition Hex :: "node_id \<Rightarrow> bytes" where
  "Hex a = hex_encode (arr_bytes a)"

definition String :: "node_id \<Rightarrow> bytes" where
  "String a = take 8 (Hex a) @ bs ''...''"

definition FromHex :: "bytes \<Rightarrow> node_id res" where
  "FromHex s =
     (if length s \<noteq> IDLength * 2 then Inl (Err ErrLength)
      else case hex_decode s of Inl e \<Rightarrow> Inl e | Inr decoded \<Rightarrow> Inr (arr20_of decoded))"

definition FromBytes :: "bytes \<Rightarrow> node_id res" where
  "FromBytes b = (if length b \<noteq> IDLength then Inl (Err ErrLength) else Inr (arr20_of b))"

definition IsZero :: "node_id \<Rightarrow> bool" where
  "IsZero a = list_all (\<lambda>b. b = 0) (arr_bytes a)"

definition Bytes :: "node_id \<Rightarrow> bytes" where
  "Bytes a = arr_bytes a"

section \<open>Numbers\<close>

text \<open>\<open>be_bytes\<close> is \<open>big.Int.Bytes\<close> (big-endian, no leading zero); \<open>be_val\<close> reads bytes back.\<close>

fun be_val :: "bytes \<Rightarrow> nat" where
  "be_val [] = 0"
| "be_val (b # rest) = unat b * 256 ^ length rest + be_val rest"

fun be_bytes :: "nat \<Rightarrow> bytes" where
  "be_bytes n = (if n = 0 then [] else be_bytes (n div 256) @ [word_of_nat (n mod 256)])"

declare be_bytes.simps [simp del]

definition id_val :: "node_id \<Rightarrow> nat" where
  "id_val a = be_val (arr_bytes a)"

lemma be_val_append: "be_val (xs @ ys) = be_val xs * 256 ^ length ys + be_val ys"
  by (induction xs) (simp_all add: algebra_simps power_add)

lemma unat_byte_less: "unat (b :: byte) < 256"
proof -
  have "unat b < 2 ^ LENGTH(8)" by (rule unsigned_less)
  then show ?thesis by simp
qed

lemma be_val_less: "be_val xs < 256 ^ length xs"
proof (induction xs)
  case (Cons b xs)
  have "unat b * 256 ^ length xs + be_val xs < (unat b + 1) * 256 ^ length xs"
    using Cons by (simp add: algebra_simps)
  also have "\<dots> \<le> 256 * 256 ^ length xs"
    using unat_byte_less [of b] by (intro mult_le_mono1) simp
  finally show ?case by simp
qed simp

lemma id_val_less: "id_val a < 2 ^ 160"
  using be_val_less [of "arr_bytes a"] by (simp add: id_val_def)

lemma be_val_be_bytes: "be_val (be_bytes n) = n"
proof (induction n rule: be_bytes.induct)
  case (1 n)
  have "unat (word_of_nat (n mod 256) :: byte) = n mod 256"
    by (simp add: unat_of_nat take_bit_eq_mod)
  with 1 show ?case
    by (cases "n = 0") (simp_all add: be_bytes.simps [of n] be_bytes.simps [of 0] be_val_append)
qed

lemma length_be_bytes: "n < 256 ^ k \<Longrightarrow> length (be_bytes n) \<le> k"
proof (induction n arbitrary: k rule: be_bytes.induct)
  case (1 n)
  show ?case
  proof (cases "n = 0")
    case True
    then show ?thesis by (simp add: be_bytes.simps)
  next
    case False
    then obtain j where k: "k = Suc j" using "1.prems" by (cases k) auto
    have "n div 256 < 256 ^ j" using "1.prems" k by (simp add: div_less_iff_less_mult mult.commute)
    with "1.IH" False have "length (be_bytes (n div 256)) \<le> j" by blast
    with False k show ?thesis by (subst be_bytes.simps) simp
  qed
qed

lemma be_val_zeros: "be_val (replicate k 0 @ xs) = be_val xs"
  by (induction k) simp_all

lemma be_val_inject: "length xs = length ys \<Longrightarrow> be_val xs = be_val ys \<Longrightarrow> xs = ys"
proof (induction xs ys rule: list_induct2)
  case (Cons x xs y ys)
  have "be_val xs < 256 ^ length xs" "be_val ys < 256 ^ length xs"
    using be_val_less [of xs] be_val_less [of ys] Cons.hyps by simp_all
  then have "unat x = unat y \<and> be_val xs = be_val ys"
    using Cons.prems Cons.hyps radix_eq_iff [of "be_val xs" "256 ^ length xs" "be_val ys"] by simp
  with Cons.IH show ?case by (simp add: word_unat_eq_iff)
qed simp

lemma id_val_inject [simp]: "id_val a = id_val b \<longleftrightarrow> a = b"
  unfolding id_val_def arr20_eq_iff using be_val_inject by auto

section \<open>The metric\<close>

lemma less_loop_be_val:
  "length xs = length ys \<Longrightarrow> less_loop xs ys \<longleftrightarrow> be_val xs < be_val ys"
proof (induction xs ys rule: list_induct2)
  case (Cons x xs y ys)
  have "be_val xs < 256 ^ length xs" "be_val ys < 256 ^ length xs"
    using be_val_less [of xs] be_val_less [of ys] Cons.hyps by simp_all
  with Cons show ?case
    using radix_less_iff [of "be_val xs" "256 ^ length xs" "be_val ys" "unat x" "unat y"]
    by (auto simp: word_less_nat_alt word_unat_eq_iff)
qed simp

lemma less_loop_lex: "length xs = length ys \<Longrightarrow> less_loop xs ys \<longleftrightarrow> xs < ys"
  by (induction xs ys rule: list_induct2) auto

lemma Less_iff_val: "Less a b \<longleftrightarrow> id_val a < id_val b"
  by (simp add: Less_def id_val_def less_loop_be_val)

lemma Less_iff_less: "Less a b \<longleftrightarrow> a < b"
  by (simp add: Less_def less_arr20_def less_loop_lex)

lemma less_iff_val: "(a::arr20) < b \<longleftrightarrow> id_val a < id_val b"
  by (simp add: Less_iff_val flip: Less_iff_less)

lemma le_iff_val: "(a::arr20) \<le> b \<longleftrightarrow> id_val a \<le> id_val b"
  by (simp add: less_iff_val flip: not_less)

lemma arr_bytes_Distance:
  "arr_bytes (Distance a b) = map2 (XOR) (arr_bytes a) (arr_bytes b)"
  by (simp add: Distance_def IDLength_def list_eq_iff_nth_eq)

lemma bit_high: "(t::nat) < 2 ^ k \<Longrightarrow> k \<le> n \<Longrightarrow> \<not> bit t n"
  using take_bit_nat_eq_self [of t k] bit_take_bit_iff [of k t n] by simp

lemma bit_radix:
  assumes "(t::nat) < 2 ^ k"
  shows "bit (w * 2 ^ k + t) n \<longleftrightarrow> (if n < k then bit t n else bit w (n - k))"
proof -
  have "push_bit k w + t = push_bit k w OR t"
    by (rule disjunctive_add) (use bit_high [OF assms] in \<open>auto simp: bit_push_bit_iff\<close>)
  then have "w * 2 ^ k + t = push_bit k w OR t"
    by (simp only: push_bit_eq_mult)
  moreover have "bit (push_bit k w OR t) n \<longleftrightarrow> (if n < k then bit t n else bit w (n - k))"
    using bit_high [OF assms, of n] by (auto simp: bit_or_iff bit_push_bit_iff)
  ultimately show ?thesis by (simp only:)
qed

lemma xor_less_exp: "(u::nat) < 2 ^ k \<Longrightarrow> v < 2 ^ k \<Longrightarrow> u XOR v < 2 ^ k"
  by (metis take_bit_nat_eq_self take_bit_nat_less_exp take_bit_xor)

lemma radix_xor:
  assumes "(u::nat) < 2 ^ k" and "v < 2 ^ k"
  shows "(x * 2 ^ k + u) XOR (y * 2 ^ k + v) = (x XOR y) * 2 ^ k + (u XOR v)"
  by (rule bit_eqI)
    (simp add: bit_xor_iff bit_radix [OF assms(1)] bit_radix [OF assms(2)]
      bit_radix [OF xor_less_exp [OF assms]])

lemma be_val_xor:
  "length xs = length ys \<Longrightarrow> be_val (map2 (XOR) xs ys) = be_val xs XOR be_val ys"
proof (induction xs ys rule: list_induct2)
  case (Cons x xs y ys)
  have "be_val xs < 2 ^ (8 * length xs)" "be_val ys < 2 ^ (8 * length xs)"
    using be_val_less [of xs] be_val_less [of ys] Cons.hyps by (simp_all add: power_mult)
  from radix_xor [OF this, of "unat x" "unat y"] Cons show ?case
    by (simp add: power_mult unsigned_xor_eq)
qed simp

lemma id_val_Distance: "id_val (Distance a b) = id_val a XOR id_val b"
  by (simp add: id_val_def arr_bytes_Distance be_val_xor)

lemma xor_metric_inj: "Distance a t = Distance b t \<longleftrightarrow> a = b"
proof -
  have "Distance a t = Distance b t \<longleftrightarrow> id_val a XOR id_val t = id_val b XOR id_val t"
    by (simp flip: id_val_Distance)
  also have "\<dots> \<longleftrightarrow> id_val a = id_val b"
    by (metis xor.assoc xor.right_neutral xor_self_eq)
  finally show ?thesis by simp
qed

section \<open>Leading zeros and buckets\<close>

lemma lz_mask_add: "lz_mask b msk (z + k) = lz_mask b msk z + k"
proof (induction b msk z rule: lz_mask.induct)
  case (1 b msk z)
  then show ?case
    by (simp add: lz_mask.simps [of b msk "z + k"] lz_mask.simps [of b msk z])
qed

lemma bit_ge_exp: "bit (n::nat) k \<Longrightarrow> 2 ^ k \<le> n"
  using bit_high [of n k k] by (auto simp: not_le [symmetric])

lemma not_bit_less_exp:
  assumes "\<not> bit (n::nat) k" and "n < 2 ^ Suc k"
  shows "n < 2 ^ k"
proof -
  have "take_bit (Suc k) n = take_bit k n"
    using assms(1) by (intro bit_eqI) (auto simp: bit_take_bit_iff less_Suc_eq)
  then show ?thesis
    using take_bit_nat_eq_self [OF assms(2)] take_bit_nat_less_exp [of k n] by simp
qed

lemma lz_mask_exp:
  assumes "b \<noteq> 0" and "unat b < 2 ^ Suc k" and "k < 8"
  shows "lz_mask b (2 ^ k) 0 \<le> k \<and> 2 ^ (k - lz_mask b (2 ^ k) 0) \<le> unat b
    \<and> unat b < 2 ^ Suc (k - lz_mask b (2 ^ k) 0)"
  using assms
proof (induction k)
  case 0
  then have "unat b \<noteq> 0" and "unat b < 2" by (simp_all add: unat_eq_zero)
  then have "unat b = unat (1 :: byte)" by simp
  then have "b = 1" by (simp only: word_unat_eq_iff)
  then show ?case by (simp add: lz_mask.simps [of 1 1])
next
  case (Suc k)
  have "(2 :: byte) ^ Suc k \<noteq> 0"
    unfolding exp_eq_zero_iff using Suc.prems(3) by simp
  moreover have "drop_bit 1 ((2 :: byte) ^ Suc k) = 2 ^ k"
    using Suc.prems(3) by (intro bit_word_eqI) (auto simp: bit_drop_bit_eq bit_exp_iff simp del: power_Suc)
  ultimately have m: "(2 :: byte) ^ Suc k \<noteq> 0" "drop_bit 1 ((2 :: byte) ^ Suc k) = 2 ^ k" .
  show ?case
  proof (cases "bit b (Suc k)")
    case True
    then have "lz_mask b (2 ^ Suc k) 0 = 0"
      by (subst lz_mask.simps) (simp add: and_exp_eq_0_iff_not_bit del: power_Suc)
    moreover have "2 ^ Suc k \<le> unat b"
      using True by (intro bit_ge_exp) (simp add: bit_unsigned_iff)
    ultimately show ?thesis using Suc.prems by simp
  next
    case False
    then have "lz_mask b (2 ^ Suc k) 0 = lz_mask b (2 ^ k) (Suc 0)"
      by (simp only: lz_mask.simps [of b "2 ^ Suc k" 0] and_exp_eq_0_iff_not_bit m
          not_False_eq_True simp_thms if_True)
    then have "lz_mask b (2 ^ Suc k) 0 = lz_mask b (2 ^ k) 0 + 1"
      using lz_mask_add [of b "2 ^ k" 0 1] by simp
    moreover have "unat b < 2 ^ Suc k"
    proof (rule not_bit_less_exp)
      show "\<not> bit (unat b) (Suc k)" using False by (simp only: bit_unsigned_iff simp_thms)
      show "unat b < 2 ^ Suc (Suc k)" by (rule Suc.prems(2))
    qed
    ultimately show ?thesis
      using Suc.IH [OF Suc.prems(1)] Suc.prems(3) by (auto simp: Suc_diff_le)
  qed
qed

lemma lz_mask_bounds:
  assumes "b \<noteq> 0"
  shows "lz_mask b 128 0 < 8" and "2 ^ (7 - lz_mask b 128 0) \<le> unat b"
    and "unat b < 2 ^ (8 - lz_mask b 128 0)"
proof -
  have "lz_mask b 128 0 \<le> 7 \<and> 2 ^ (7 - lz_mask b 128 0) \<le> unat b
      \<and> unat b < 2 ^ Suc (7 - lz_mask b 128 0)"
    using lz_mask_exp [OF assms, of 7] unat_byte_less [of b] by simp
  moreover from this have "Suc (7 - lz_mask b 128 0) = 8 - lz_mask b 128 0"
    by arith
  ultimately show "lz_mask b 128 0 < 8" "2 ^ (7 - lz_mask b 128 0) \<le> unat b"
    "unat b < 2 ^ (8 - lz_mask b 128 0)"
    by (simp_all only: less_Suc_eq_le numeral_eq_Suc)
qed

lemma lz_loop_add: "lz_loop xs (z + k) = lz_loop xs z + k"
  by (induction xs z rule: lz_loop.induct) (simp_all add: lz_mask_add ac_simps flip: add.assoc)

lemma lz_loop_bounds:
  "if be_val xs = 0 then lz_loop xs 0 = 8 * length xs
   else lz_loop xs 0 < 8 * length xs \<and> 2 ^ (8 * length xs - 1 - lz_loop xs 0) \<le> be_val xs
     \<and> be_val xs < 2 ^ (8 * length xs - lz_loop xs 0)"
proof (induction xs)
  case (Cons b xs)
  show ?case
  proof (cases "b = 0")
    case True
    then show ?thesis using Cons lz_loop_add [of xs 0 8] by (auto split: if_splits)
  next
    case False
    let ?z = "lz_mask b 128 0" and ?p = "2 ^ (8 * length xs) :: nat"
    note z = lz_mask_bounds [OF False]
    have v: "be_val xs < ?p" using be_val_less [of xs] by (simp add: power_mult)
    have "2 ^ (7 - ?z) * ?p \<le> unat b * ?p + be_val xs"
      using z(2) by (simp add: trans_le_add1)
    moreover have "unat b * ?p + be_val xs < 2 ^ (8 - ?z) * ?p"
    proof -
      have "(unat b + 1) * ?p \<le> 2 ^ (8 - ?z) * ?p" using z(3) by (intro mult_le_mono1) simp
      with v show ?thesis by simp
    qed
    moreover have "7 - ?z + 8 * length xs = 7 + 8 * length xs - ?z"
      "8 - ?z + 8 * length xs = 8 + 8 * length xs - ?z" using z(1) by simp_all
    ultimately have "2 ^ (7 + 8 * length xs - ?z) \<le> unat b * ?p + be_val xs"
      "unat b * ?p + be_val xs < 2 ^ (8 + 8 * length xs - ?z)"
      by (simp_all flip: power_add)
    moreover have "0 < unat b" using False by (simp add: unat_gt_0)
    ultimately show ?thesis using False z(1) by (simp add: power_mult)
  qed
qed simp

lemma LeadingZeros_bounds:
  "if id_val a = 0 then LeadingZeros a = 160
   else LeadingZeros a < 160 \<and> 2 ^ (159 - LeadingZeros a) \<le> id_val a
     \<and> id_val a < 2 ^ (160 - LeadingZeros a)"
  using lz_loop_bounds [of "arr_bytes a"] by (simp add: LeadingZeros_def id_val_def split: if_splits)

lemma Distance_self_iff: "id_val (Distance a b) = 0 \<longleftrightarrow> a = b"
proof -
  have "id_val a XOR id_val b = 0 \<longleftrightarrow> id_val a = id_val b"
    by (metis xor.left_neutral xor.right_neutral xor.assoc xor_self_eq)
  then show ?thesis by (simp add: id_val_Distance)
qed

lemma BucketIndex_bounds:
  "BucketIndex a b < 160"
  "a \<noteq> b \<Longrightarrow> 2 ^ BucketIndex a b \<le> id_val (Distance a b)"
  "a \<noteq> b \<Longrightarrow> id_val (Distance a b) < 2 ^ (BucketIndex a b + 1)"
proof -
  show "BucketIndex a b < 160"
    by (auto simp: BucketIndex_def Let_def IDLength_def intro: le_less_trans [OF diff_le_self])
  assume "a \<noteq> b"
  then have "LeadingZeros (Distance a b) < 160"
    and b: "2 ^ (159 - LeadingZeros (Distance a b)) \<le> id_val (Distance a b)"
      "id_val (Distance a b) < 2 ^ (160 - LeadingZeros (Distance a b))"
    using LeadingZeros_bounds [of "Distance a b"] by (simp_all add: Distance_self_iff)
  then have i: "BucketIndex a b = 159 - LeadingZeros (Distance a b)"
    "BucketIndex a b + 1 = 160 - LeadingZeros (Distance a b)"
    by (simp_all add: BucketIndex_def Let_def IDLength_def)
  show "2 ^ BucketIndex a b \<le> id_val (Distance a b)"
    using b(1) unfolding i(1) .
  show "id_val (Distance a b) < 2 ^ (BucketIndex a b + 1)"
    using b(2) unfolding i(2) .
qed

lemma BucketIndex_unique:
  assumes "a \<noteq> b" and "2 ^ k \<le> id_val (Distance a b)" and "id_val (Distance a b) < 2 ^ (k + 1)"
  shows "BucketIndex a b = k"
proof -
  have "(2::nat) ^ k < 2 ^ (BucketIndex a b + 1)" "(2::nat) ^ BucketIndex a b < 2 ^ (k + 1)"
    using assms BucketIndex_bounds(2,3) [OF assms(1)] by linarith+
  then have "k < BucketIndex a b + 1" and "BucketIndex a b < k + 1"
    using power_less_imp_less_exp [of "2::nat" k "BucketIndex a b + 1"]
      power_less_imp_less_exp [of "2::nat" "BucketIndex a b" "k + 1"] by linarith+
  then show ?thesis by simp
qed

section \<open>Distributed identifiers\<close>

text \<open>
  \<open>GenerateDistributedIDs\<close>: \<open>draw i piece\<close> is the outcome of the \<open>i\<close>-th call
  \<open>rand.Int(rand.Reader, piece)\<close>. The identifier of a number is its big-endian bytes,
  padded to 20 on the left (or cut to 20, which a number below \<open>2^160\<close> never is).
\<close>

definition id_of_big :: "nat \<Rightarrow> node_id" where
  "id_of_big n =
     (let idBytes = be_bytes n in
      if length idBytes < IDLength
      then arr20_of (replicate (IDLength - length idBytes) 0 @ idBytes)
      else arr20_of (take IDLength idBytes))"

fun gen_loop :: "(nat \<Rightarrow> nat \<Rightarrow> nat res) \<Rightarrow> nat \<Rightarrow> nat \<Rightarrow> nat \<Rightarrow> node_id list res" where
  "gen_loop draw piece i 0 = Inr []"
| "gen_loop draw piece i (Suc m) =
     (case draw i piece of
        Inl e \<Rightarrow> Inl e
      | Inr randomOffset \<Rightarrow>
          (case gen_loop draw piece (Suc i) m of
             Inl e \<Rightarrow> Inl e
           | Inr ids \<Rightarrow> Inr (id_of_big (piece * i + randomOffset) # ids)))"

definition GenerateDistributedIDs :: "(nat \<Rightarrow> nat \<Rightarrow> nat res) \<Rightarrow> int \<Rightarrow> node_id list res" where
  "GenerateDistributedIDs draw cnt =
     (if cnt \<le> 0 then Inl (Err (ErrMessage ''count must be positive''))
      else if \<not> make_ok (cnt * int IDLength) then Inl (Panic MakeSliceLen)
      else gen_loop draw (2 ^ 160 div nat cnt) 0 (nat cnt))"

lemma id_val_id_of_big: "n < 2 ^ 160 \<Longrightarrow> id_val (id_of_big n) = n"
  using length_be_bytes [of n 20] be_val_be_bytes [of n]
  by (auto simp: id_of_big_def id_val_def Let_def IDLength_def be_val_zeros)

lemma id_of_big_id_val [simp]: "id_of_big (id_val a) = a"
  using id_val_id_of_big [OF id_val_less [of a]] by (simp only: id_val_inject)

lemma gen_loop_pieces:
  assumes "gen_loop draw piece i m = Inr ids" and "piece * (i + m) \<le> 2 ^ 160"
    and "\<And>j r. i \<le> j \<Longrightarrow> j < i + m \<Longrightarrow> draw j piece = Inr r \<Longrightarrow> r < piece"
  shows "length ids = m \<and>
    (\<forall>k < m. piece * (i + k) \<le> id_val (ids ! k) \<and> id_val (ids ! k) < piece * (i + k + 1))"
  using assms
proof (induction m arbitrary: i ids)
  case (Suc m)
  from Suc.prems(1) obtain r rest where r: "draw i piece = Inr r"
    and rest: "gen_loop draw piece (Suc i) m = Inr rest"
    and ids: "ids = id_of_big (piece * i + r) # rest"
    by (auto split: sum.splits)
  have IH: "length rest = m \<and> (\<forall>k < m. piece * (Suc i + k) \<le> id_val (rest ! k)
      \<and> id_val (rest ! k) < piece * (Suc i + k + 1))"
  proof (rule Suc.IH [OF rest])
    show "piece * (Suc i + m) \<le> 2 ^ 160" using Suc.prems(2) by simp
  next
    fix j r assume "Suc i \<le> j" "j < Suc i + m" "draw j piece = Inr r"
    then show "r < piece" by (intro Suc.prems(3) [of j r]) simp_all
  qed
  have "r < piece" using Suc.prems(3) [of i r] r by simp
  moreover have "piece * i + piece \<le> piece * (i + Suc m)" by (simp add: algebra_simps)
  ultimately have "piece * i + r < 2 ^ 160" using Suc.prems(2) by linarith
  then have "id_val (id_of_big (piece * i + r)) = piece * i + r" by (rule id_val_id_of_big)
  with IH \<open>r < piece\<close> show ?case
    by (auto simp: ids nth_Cons algebra_simps split: nat.split)
qed simp

section \<open>Properties\<close>

text \<open>C24: The XOR metric. Read as 160-bit numbers, \<open>Distance\<close> is bitwise XOR and \<open>Less\<close> the
  order of numbers; \<open>Less\<close> is therefore a strict total order, and no two identifiers are
  at the same distance from a third.\<close>

theorem xor_metric_refines_numbers:
  "id_val (Distance a b) = id_val a XOR id_val b
   \<and> (Less a b \<longleftrightarrow> id_val a < id_val b)
   \<and> (Distance a t = Distance b t \<longleftrightarrow> a = b)"
  by (simp add: id_val_Distance Less_iff_val xor_metric_inj)

text \<open>The bucket index is below 160; for two different identifiers it is the position
  of the highest bit in which they differ, and no other index has that property.\<close>

lemma bucket_index_highest_bit:
  "BucketIndex a b < 160 \<and> BucketIndex a a = 0 \<and>
   (a \<noteq> b \<longrightarrow> (\<forall>k. BucketIndex a b = k \<longleftrightarrow>
      2 ^ k \<le> id_val a XOR id_val b \<and> id_val a XOR id_val b < 2 ^ (k + 1)))"
proof -
  have "id_val (Distance a a) = 0" by (simp add: id_val_Distance)
  then have "LeadingZeros (Distance a a) = 160"
    using LeadingZeros_bounds [of "Distance a a"] by simp
  then have "BucketIndex a a = 0"
    by (simp add: BucketIndex_def Let_def IDLength_def)
  then show ?thesis
    using BucketIndex_bounds [of a b] BucketIndex_unique [of a b]
    by (auto simp flip: id_val_Distance)
qed

lemma bucket_sample: "arr20_of [1] \<noteq> arr20_of [3]" "BucketIndex (arr20_of [1]) (arr20_of [3]) = 153"
  by (simp add: arr20_eq_iff) code_simp

lemma bucket_index_highest_bit_witness:
  "arr20_of [1] \<noteq> arr20_of [3] \<and> 2 ^ 153 \<le> id_val (arr20_of [1]) XOR id_val (arr20_of [3])
   \<and> id_val (arr20_of [1]) XOR id_val (arr20_of [3]) < 2 ^ (153 + 1)"
  using bucket_index_highest_bit [of "arr20_of [1]" "arr20_of [3]"] bucket_sample by blast

text \<open>Conversions. Hexadecimal and byte forms of an identifier parse back to it, and
  \<open>FromBytes\<close> accepts exactly the 20-byte strings.\<close>

lemma id_conversions_roundtrip:
  "FromHex (Hex a) = Inr a \<and> FromBytes (Bytes a) = Inr a \<and> length (Hex a) = 40
   \<and> (FromBytes b = Inr x \<longleftrightarrow> Bytes x = b)
   \<and> (FromBytes b = Inl (Err ErrLength) \<longleftrightarrow> length b \<noteq> 20)"
  by (auto simp: FromHex_def Hex_def FromBytes_def Bytes_def IDLength_def hex_decode_encode)

text \<open>Distributed identifiers. When every random offset is below the piece it is drawn
  for, \<open>GenerateDistributedIDs\<close> returns \<open>cnt\<close> identifiers, the \<open>i\<close>-th in the
  \<open>i\<close>-th of \<open>cnt\<close> equal pieces of the key space; they are strictly increasing.\<close>

lemma distributed_ids_spread:
  assumes "GenerateDistributedIDs draw cnt = Inr ids"
    and "\<And>i r. draw i (2 ^ 160 div nat cnt) = Inr r \<Longrightarrow> r < 2 ^ 160 div nat cnt"
  shows "length ids = nat cnt \<and>
    (\<forall>i < nat cnt. (2 ^ 160 div nat cnt) * i \<le> id_val (ids ! i)
       \<and> id_val (ids ! i) < (2 ^ 160 div nat cnt) * (i + 1)) \<and>
    (\<forall>i j. i < j \<longrightarrow> j < nat cnt \<longrightarrow> Less (ids ! i) (ids ! j))"
proof -
  let ?p = "2 ^ 160 div nat cnt"
  have "gen_loop draw ?p 0 (nat cnt) = Inr ids"
    using assms(1) by (simp add: GenerateDistributedIDs_def split: if_splits)
  then have pieces: "length ids = nat cnt"
    "\<forall>i < nat cnt. ?p * i \<le> id_val (ids ! i) \<and> id_val (ids ! i) < ?p * (i + 1)"
    using gen_loop_pieces [of draw ?p 0 "nat cnt" ids] assms(2) by simp_all
  have "Less (ids ! i) (ids ! j)" if "i < j" "j < nat cnt" for i j
  proof -
    have "?p * (i + 1) \<le> ?p * j" using that by (intro mult_le_mono2) simp
    moreover have "id_val (ids ! i) < ?p * (i + 1)" "?p * j \<le> id_val (ids ! j)"
      using pieces(2) that by (blast intro: less_trans)+
    ultimately show ?thesis unfolding Less_iff_val by (meson less_le_trans)
  qed
  with pieces show ?thesis by blast
qed

lemma distributed_ids_spread_witness:
  "\<exists>ids. GenerateDistributedIDs (\<lambda>_ _. Inr 5) 2 = Inr ids \<and> length ids = 2
     \<and> Less (ids ! 0) (ids ! 1)"
proof -
  have g: "GenerateDistributedIDs (\<lambda>_ _. Inr 5) 2 = Inr [id_of_big 5, id_of_big (2 ^ 159 + 5)]"
    using gen_loop.simps(2) [of "\<lambda>_ _. Inr 5" _ _ "Suc 0"]
    by (simp add: GenerateDistributedIDs_def make_ok_def maxAlloc_def IDLength_def flip: numeral_2_eq_2)
  have "Less ([id_of_big 5, id_of_big (2 ^ 159 + 5)] ! 0) ([id_of_big 5, id_of_big (2 ^ 159 + 5)] ! 1)"
    using distributed_ids_spread [OF g] by force
  with g show ?thesis by (intro exI [of _ "[id_of_big 5, id_of_big (2 ^ 159 + 5)]"]) simp
qed

end
