(* ===== verification/Routing.thy ===== *)
theory Routing
  imports Node_ID
begin

text \<open>
  \<open>internal/dht/routing.go\<close>: the Kademlia routing table, 160 buckets of at most \<open>K\<close> nodes.
  Every exported method holds the table's lock for its whole body, so each is one atomic
  function of the table. The clock is an argument (\<open>now\<close>, in nanoseconds): one reading per
  operation. \<open>GetNode\<close> is the abstract view, a finite map from identifiers to nodes.
\<close>

section \<open>State\<close>

definition K :: nat where
  "K = 8"

definition NumBuckets :: nat where
  "NumBuckets = 160"

definition NodeTimeout :: int where
  "NodeTimeout = 15 * 60 * 1000000000"

record routing_node =
  rn_ID :: node_id
  rn_IP :: bytes
  rn_Port :: int
  rn_LastSeen :: int

type_synonym bucket = "routing_node list"

record routing_table =
  localID :: node_id
  buckets :: "bucket list"

record udp_addr =
  ua_IP :: bytes
  ua_Port :: int

definition UDPAddr :: "routing_node \<Rightarrow> udp_addr" where
  "UDPAddr n = \<lparr>ua_IP = rn_IP n, ua_Port = rn_Port n\<rparr>"

definition NewRoutingTable :: "node_id \<Rightarrow> routing_table" where
  "NewRoutingTable lid = \<lparr>localID = lid, buckets = replicate NumBuckets []\<rparr>"

section \<open>Operations\<close>

text \<open>The position of the first node of a bucket that a loop with an early return stops at.\<close>

fun find_index :: "('a \<Rightarrow> bool) \<Rightarrow> 'a list \<Rightarrow> nat option" where
  "find_index P [] = None"
| "find_index P (x # xs) = (if P x then Some 0 else map_option Suc (find_index P xs))"

definition bucket_of :: "routing_table \<Rightarrow> node_id \<Rightarrow> bucket" where
  "bucket_of rt i = buckets rt ! BucketIndex (localID rt) i"

definition set_bucket :: "routing_table \<Rightarrow> node_id \<Rightarrow> bucket \<Rightarrow> routing_table" where
  "set_bucket rt i b = rt\<lparr>buckets := (buckets rt)[BucketIndex (localID rt) i := b]\<rparr>"

definition Insert :: "routing_table \<Rightarrow> node_id \<Rightarrow> bytes \<Rightarrow> int \<Rightarrow> int \<Rightarrow> bool \<times> routing_table" where
  "Insert rt i ip port now =
     (if i = localID rt then (False, rt)
      else
        let bucket = bucket_of rt i;
            fresh = \<lparr>rn_ID = i, rn_IP = ip, rn_Port = port, rn_LastSeen = now\<rparr> in
        case find_index (\<lambda>node. rn_ID node = i) bucket of
          Some j \<Rightarrow>
            let n = (bucket ! j)\<lparr>rn_IP := ip, rn_Port := port, rn_LastSeen := now\<rparr> in
            (True, set_bucket rt i ((take j bucket @ drop (Suc j) bucket) @ [n]))
        | None \<Rightarrow>
            if length bucket < K then (True, set_bucket rt i (bucket @ [fresh]))
            else
              (case find_index (\<lambda>node. now - rn_LastSeen node > NodeTimeout) bucket of
                 Some j \<Rightarrow> (True, set_bucket rt i (bucket[j := fresh]))
               | None \<Rightarrow> (False, rt)))"

definition Remove :: "routing_table \<Rightarrow> node_id \<Rightarrow> routing_table" where
  "Remove rt i =
     (let bucket = bucket_of rt i in
      case find_index (\<lambda>node. rn_ID node = i) bucket of
        Some j \<Rightarrow> set_bucket rt i (take j bucket @ drop (Suc j) bucket)
      | None \<Rightarrow> rt)"

definition GetAllNodes :: "routing_table \<Rightarrow> routing_node list" where
  "GetAllNodes rt = concat (buckets rt)"

definition FindClosest :: "routing_table \<Rightarrow> node_id \<Rightarrow> nat \<Rightarrow> routing_node list" where
  "FindClosest rt target cnt =
     (let allNodes = sort_key (\<lambda>n. Distance (rn_ID n) target) (concat (buckets rt)) in
      if length allNodes > cnt then take cnt allNodes else allNodes)"

definition GetNode :: "routing_table \<Rightarrow> node_id \<Rightarrow> routing_node option" where
  "GetNode rt i = find (\<lambda>node. rn_ID node = i) (bucket_of rt i)"

definition RandomFromBucket :: "routing_table \<Rightarrow> int \<Rightarrow> routing_node option" where
  "RandomFromBucket rt bucketIdx =
     (if bucketIdx < 0 \<or> bucketIdx \<ge> int NumBuckets then None
      else case buckets rt ! nat bucketIdx of [] \<Rightarrow> None | n # _ \<Rightarrow> Some n)"

definition Size :: "routing_table \<Rightarrow> nat" where
  "Size rt = foldl (\<lambda>c b. c + length b) 0 (buckets rt)"

definition BucketSizes :: "routing_table \<Rightarrow> nat list" where
  "BucketSizes rt = map length (buckets rt)"

definition Touch :: "routing_table \<Rightarrow> node_id \<Rightarrow> int \<Rightarrow> routing_table" where
  "Touch rt i now =
     (let bucket = bucket_of rt i in
      case find_index (\<lambda>node. rn_ID node = i) bucket of
        Some j \<Rightarrow> set_bucket rt i (bucket[j := (bucket ! j)\<lparr>rn_LastSeen := now\<rparr>])
      | None \<Rightarrow> rt)"

definition GetStaleNodes :: "routing_table \<Rightarrow> int \<Rightarrow> int \<Rightarrow> routing_node list" where
  "GetStaleNodes rt maxAge now =
     (let cutoff = now - maxAge in
      filter (\<lambda>node. rn_LastSeen node < cutoff) (concat (buckets rt)))"

section \<open>Bucket positions\<close>

lemma find_index_None [simp]: "find_index P xs = None \<longleftrightarrow> (\<forall>x \<in> set xs. \<not> P x)"
  by (induction xs) auto

lemma find_index_Some:
  "find_index P xs = Some j \<longleftrightarrow> j < length xs \<and> P (xs ! j) \<and> (\<forall>k < j. \<not> P (xs ! k))"
proof (induction xs arbitrary: j)
  case (Cons x xs)
  then show ?case by (cases j) (auto simp: less_Suc_eq_0_disj)
qed simp

lemma find_indexD: "find_index P xs = Some j \<Longrightarrow> j < length xs \<and> P (xs ! j)"
  by (simp add: find_index_Some)

lemma delete_nth_split:
  "j < length xs \<Longrightarrow> xs = take j xs @ xs ! j # drop (Suc j) xs"
  by (rule id_take_nth_drop)

lemma update_nth_split:
  "j < length xs \<Longrightarrow> xs[j := y] = take j xs @ y # drop (Suc j) xs"
  by (rule upd_conv_take_nth_drop)

section \<open>Invariant\<close>

text \<open>
  A bucket holds at most \<open>K\<close> nodes with distinct identifiers, none of them the local one,
  each with the bucket's index. A table has one such bucket per bit.
\<close>

definition wf_bucket :: "node_id \<Rightarrow> nat \<Rightarrow> bucket \<Rightarrow> bool" where
  "wf_bucket lid k b \<longleftrightarrow> length b \<le> K \<and> distinct (map rn_ID b)
     \<and> (\<forall>n \<in> set b. rn_ID n \<noteq> lid \<and> BucketIndex lid (rn_ID n) = k)"

definition wf_table :: "routing_table \<Rightarrow> bool" where
  "wf_table rt \<longleftrightarrow> length (buckets rt) = NumBuckets
     \<and> (\<forall>k < NumBuckets. wf_bucket (localID rt) k (buckets rt ! k))"

lemma BucketIndex_NumBuckets [simp]: "BucketIndex a b < NumBuckets"
  using BucketIndex_bounds(1) by (simp add: NumBuckets_def)

lemma wf_bucket_of: "wf_table rt \<Longrightarrow> wf_bucket (localID rt) (BucketIndex (localID rt) i) (bucket_of rt i)"
  by (simp add: wf_table_def bucket_of_def)

lemma localID_set_bucket [simp]: "localID (set_bucket rt i b) = localID rt"
  by (simp add: set_bucket_def)

lemma wf_set_bucket [wf_intros]:
  assumes "wf_table rt" and "wf_bucket (localID rt) (BucketIndex (localID rt) i) b"
  shows "wf_table (set_bucket rt i b)"
  using assms by (auto simp: wf_table_def set_bucket_def nth_list_update)

lemma bucket_of_set_bucket:
  "wf_table rt \<Longrightarrow> bucket_of (set_bucket rt i b) k =
     (if BucketIndex (localID rt) k = BucketIndex (localID rt) i then b else bucket_of rt k)"
  by (simp add: wf_table_def bucket_of_def set_bucket_def nth_list_update)

lemma find_id_iff:
  "distinct (map rn_ID b) \<Longrightarrow>
    find (\<lambda>node. rn_ID node = k) b = Some x \<longleftrightarrow> x \<in> set b \<and> rn_ID x = k"
  by (induction b) (auto simp: image_iff)

lemma option_eqI: "(\<And>x. a = Some x \<longleftrightarrow> b = Some x) \<Longrightarrow> a = b"
  by (metis not_Some_eq)

lemma GetNode_bucket:
  assumes "wf_table rt"
  shows "GetNode rt k = Some x \<longleftrightarrow> x \<in> set (bucket_of rt k) \<and> rn_ID x = k"
  using wf_bucket_of [OF assms, of k] by (simp add: GetNode_def find_id_iff wf_bucket_def)

lemma wf_table_NewRoutingTable: "wf_table (NewRoutingTable lid)"
  by (simp add: wf_table_def NewRoutingTable_def wf_bucket_def)

lemma GetNode_NewRoutingTable [simp]: "GetNode (NewRoutingTable lid) k = None"
  by (simp add: GetNode_def bucket_of_def NewRoutingTable_def)

text \<open>
  The four ways a bucket changes: a node is moved to the end, appended, replaced, removed.
  Each keeps the bucket well-formed, and its members are known.
\<close>

lemma set_delete_nth:
  assumes "distinct (map f b)" and "j < length b"
  shows "set (take j b @ drop (Suc j) b) = {x \<in> set b. f x \<noteq> f (b ! j)}"
    and "distinct (map f (take j b @ drop (Suc j) b))"
proof -
  let ?t = "take j b" and ?d = "drop (Suc j) b"
  have b: "b = ?t @ b ! j # ?d" using assms(2) by (rule delete_nth_split)
  have d: "distinct (map f (?t @ b ! j # ?d))" using assms(1) b by simp
  show "set (?t @ ?d) = {x \<in> set b. f x \<noteq> f (b ! j)}"
    using d by (subst (3) b) (auto simp: image_iff)
  show "distinct (map f (?t @ ?d))" using d by auto
qed

lemma length_delete_nth: "j < length b \<Longrightarrow> length (take j b @ drop (Suc j) b) < length b"
  by simp

lemma wf_bucket_delete:
  assumes "wf_bucket lid k b" and "j < length b"
  shows "wf_bucket lid k (take j b @ drop (Suc j) b)"
proof -
  have d: "distinct (map rn_ID b)" using assms(1) by (simp add: wf_bucket_def)
  note del = set_delete_nth [OF d assms(2)]
  have "length (take j b @ drop (Suc j) b) \<le> K"
    using length_delete_nth [OF assms(2)] assms(1) by (simp only: wf_bucket_def) linarith
  then show ?thesis
    using del(2) assms(1) unfolding wf_bucket_def del(1) by blast
qed

lemma wf_bucket_append:
  assumes "wf_bucket lid k b" and "length b < K" and "\<forall>x \<in> set b. rn_ID x \<noteq> rn_ID n"
    and "rn_ID n \<noteq> lid" and "BucketIndex lid (rn_ID n) = k"
  shows "wf_bucket lid k (b @ [n])"
proof -
  have "rn_ID n \<notin> rn_ID ` set b" using assms(3) by (metis imageE)
  then show ?thesis using assms(1,2,4,5) by (simp add: wf_bucket_def)
qed

lemma wf_bucket_move_end:
  assumes "wf_bucket lid k b" and "j < length b" and "rn_ID n = rn_ID (b ! j)"
  shows "wf_bucket lid k ((take j b @ drop (Suc j) b) @ [n])"
proof (rule wf_bucket_append [OF wf_bucket_delete [OF assms(1,2)]])
  have "length b \<le> K" using assms(1) by (simp add: wf_bucket_def)
  with length_delete_nth [OF assms(2)] show "length (take j b @ drop (Suc j) b) < K"
    by (rule less_le_trans)
  show "\<forall>x \<in> set (take j b @ drop (Suc j) b). rn_ID x \<noteq> rn_ID n"
    using set_delete_nth(1) [OF _ assms(2), of rn_ID] assms(1,3) by (auto simp: wf_bucket_def)
qed (use assms nth_mem [OF assms(2)] in \<open>auto simp: wf_bucket_def\<close>)

lemma wf_bucket_replace:
  assumes "wf_bucket lid k b" and "j < length b" and "\<forall>x \<in> set b. rn_ID x \<noteq> rn_ID n \<or> x = b ! j"
    and "rn_ID n \<noteq> lid" and "BucketIndex lid (rn_ID n) = k"
  shows "wf_bucket lid k (b[j := n])"
    and "set (b[j := n]) = insert n {x \<in> set b. rn_ID x \<noteq> rn_ID (b ! j)}"
proof -
  let ?t = "take j b" and ?d = "drop (Suc j) b"
  have d: "distinct (map rn_ID b)" using assms(1) by (simp add: wf_bucket_def)
  have u: "b[j := n] = ?t @ n # ?d" using assms(2) by (rule update_nth_split)
  note del = set_delete_nth [OF d assms(2)]
  show s: "set (b[j := n]) = insert n {x \<in> set b. rn_ID x \<noteq> rn_ID (b ! j)}"
    using del(1) by (simp add: u)
  have "distinct (map rn_ID (?t @ n # ?d))"
    using del assms(3) by (auto simp: image_iff)
  then have "distinct (map rn_ID (b[j := n]))" by (simp only: u)
  then show "wf_bucket lid k (b[j := n])"
    using assms(1,4,5) unfolding wf_bucket_def s by auto
qed

section \<open>Insertion\<close>

definition stale :: "int \<Rightarrow> routing_node \<Rightarrow> bool" where
  "stale now n \<longleftrightarrow> now - rn_LastSeen n > NodeTimeout"

definition new_node :: "node_id \<Rightarrow> bytes \<Rightarrow> int \<Rightarrow> int \<Rightarrow> routing_node" where
  "new_node i ip port now = \<lparr>rn_ID = i, rn_IP = ip, rn_Port = port, rn_LastSeen = now\<rparr>"

lemma rn_ID_new_node [simp]: "rn_ID (new_node i ip port now) = i"
  by (simp add: new_node_def)

text \<open>
  What \<open>Insert\<close> does to a well-formed table, by case: the node takes the place of its old
  entry, is appended to a bucket with room, or replaces one stale node of a full bucket;
  otherwise nothing changes. \<open>gone\<close> is what leaves the bucket.
\<close>

definition inserted :: "routing_table \<Rightarrow> node_id \<Rightarrow> int \<Rightarrow> routing_node \<Rightarrow> routing_node set
    \<Rightarrow> routing_table \<Rightarrow> bool" where
  "inserted rt i now n gone rt' \<longleftrightarrow> (\<exists>b. rt' = set_bucket rt i b
     \<and> wf_bucket (localID rt) (BucketIndex (localID rt) i) b
     \<and> set b = insert n (set (bucket_of rt i) - gone)
     \<and> (gone = {x \<in> set (bucket_of rt i). rn_ID x = i}
        \<or> (\<exists>old \<in> set (bucket_of rt i). gone = {old} \<and> stale now old
             \<and> length (bucket_of rt i) = K \<and> (\<forall>x \<in> set (bucket_of rt i). rn_ID x \<noteq> i))))"

lemma Insert_found:
  assumes wf: "wf_table rt" and ne: "i \<noteq> localID rt"
    and j: "find_index (\<lambda>node. rn_ID node = i) (bucket_of rt i) = Some j"
  shows "fst (Insert rt i ip port now)"
    and "inserted rt i now (new_node i ip port now) {x \<in> set (bucket_of rt i). rn_ID x = i}
      (snd (Insert rt i ip port now))"
proof -
  let ?b = "bucket_of rt i" and ?n = "new_node i ip port now"
  let ?b' = "(take j ?b @ drop (Suc j) ?b) @ [?n]"
  have jd: "j < length ?b" "rn_ID (?b ! j) = i" using find_indexD [OF j] by simp_all
  have n: "(?b ! j)\<lparr>rn_IP := ip, rn_Port := port, rn_LastSeen := now\<rparr> = ?n"
    using jd by (simp add: new_node_def)
  have ins: "Insert rt i ip port now = (True, set_bucket rt i ?b')"
    using ne j n by (simp add: Insert_def Let_def)
  have "wf_bucket (localID rt) (BucketIndex (localID rt) i) ?b'"
    using wf_bucket_of [OF wf] jd by (intro wf_bucket_move_end) simp_all
  moreover have "set ?b' = insert ?n (set ?b - {x \<in> set ?b. rn_ID x = i})"
    using set_delete_nth(1) [of rn_ID ?b j] wf_bucket_of [OF wf, of i] jd
    by (auto simp: wf_bucket_def)
  ultimately show "fst (Insert rt i ip port now)"
    and "inserted rt i now ?n {x \<in> set ?b. rn_ID x = i} (snd (Insert rt i ip port now))"
    unfolding inserted_def ins by (auto intro: exI [of _ ?b'])
qed

lemma Insert_absent:
  assumes "i \<noteq> localID rt" and "\<forall>x \<in> set (bucket_of rt i). rn_ID x \<noteq> i"
  shows "Insert rt i ip port now =
    (if length (bucket_of rt i) < K
     then (True, set_bucket rt i (bucket_of rt i @ [new_node i ip port now]))
     else case find_index (stale now) (bucket_of rt i) of
            Some j \<Rightarrow> (True, set_bucket rt i ((bucket_of rt i)[j := new_node i ip port now]))
          | None \<Rightarrow> (False, rt))"
proof -
  have "find_index (\<lambda>node. rn_ID node = i) (bucket_of rt i) = None" using assms(2) by simp
  then show ?thesis
    using assms(1)
    by (simp add: Insert_def Let_def new_node_def stale_def [abs_def] del: find_index_None
        split: option.split)
qed

lemma Insert_room:
  assumes wf: "wf_table rt" and ne: "i \<noteq> localID rt"
    and absent: "\<forall>x \<in> set (bucket_of rt i). rn_ID x \<noteq> i" and room: "length (bucket_of rt i) < K"
  shows "fst (Insert rt i ip port now)"
    and "inserted rt i now (new_node i ip port now) {x \<in> set (bucket_of rt i). rn_ID x = i}
      (snd (Insert rt i ip port now))"
proof -
  let ?b = "bucket_of rt i" and ?n = "new_node i ip port now"
  have "wf_bucket (localID rt) (BucketIndex (localID rt) i) (?b @ [?n])"
    using wf_bucket_of [OF wf] room absent ne by (intro wf_bucket_append) simp_all
  then show "fst (Insert rt i ip port now)"
    and "inserted rt i now ?n {x \<in> set ?b. rn_ID x = i} (snd (Insert rt i ip port now))"
    unfolding inserted_def Insert_absent [OF ne absent] using absent room
    by (auto intro!: exI [of _ "?b @ [?n]"])
qed

lemma Insert_full:
  assumes wf: "wf_table rt" and ne: "i \<noteq> localID rt"
    and absent: "\<forall>x \<in> set (bucket_of rt i). rn_ID x \<noteq> i" and full: "\<not> length (bucket_of rt i) < K"
    and st: "\<exists>x \<in> set (bucket_of rt i). stale now x"
  shows "fst (Insert rt i ip port now)"
    and "\<exists>gone. inserted rt i now (new_node i ip port now) gone (snd (Insert rt i ip port now))"
proof -
  let ?b = "bucket_of rt i" and ?n = "new_node i ip port now"
  obtain j where j: "find_index (stale now) ?b = Some j"
    using st by (cases "find_index (stale now) ?b") auto
  then have jd: "j < length ?b" "stale now (?b ! j)" using find_indexD [OF j] by simp_all
  have wfb: "wf_bucket (localID rt) (BucketIndex (localID rt) i) ?b" using wf by (rule wf_bucket_of)
  have ins: "Insert rt i ip port now = (True, set_bucket rt i (?b[j := ?n]))"
    using j full by (simp add: Insert_absent [OF ne absent])
  have r: "wf_bucket (localID rt) (BucketIndex (localID rt) i) (?b[j := ?n])"
    "set (?b[j := ?n]) = insert ?n {x \<in> set ?b. rn_ID x \<noteq> rn_ID (?b ! j)}"
    using wf_bucket_replace [OF wfb jd(1), of ?n] absent ne by auto
  have d: "distinct (map rn_ID ?b)" using wfb by (simp add: wf_bucket_def)
  have "{x \<in> set ?b. rn_ID x \<noteq> rn_ID (?b ! j)} = set ?b - {?b ! j}"
    using d jd(1) by (auto simp: distinct_map inj_on_def)
  with r have s: "set (?b[j := ?n]) = insert ?n (set ?b - {?b ! j})" by simp
  have "length ?b = K" using full wfb by (simp add: wf_bucket_def)
  with r(1) s jd absent have "inserted rt i now ?n {?b ! j} (set_bucket rt i (?b[j := ?n]))"
    unfolding inserted_def by (intro exI [of _ "?b[j := ?n]"]) auto
  with ins show "fst (Insert rt i ip port now)"
    "\<exists>gone. inserted rt i now ?n gone (snd (Insert rt i ip port now))" by auto
qed

lemma Insert_True:
  assumes wf: "wf_table rt" and ins: "Insert rt i ip port now = (True, rt')"
  shows "i \<noteq> localID rt \<and> (\<exists>gone. inserted rt i now (new_node i ip port now) gone rt')"
proof -
  have ne: "i \<noteq> localID rt" using ins by (auto simp: Insert_def)
  show ?thesis
  proof (cases "find_index (\<lambda>node. rn_ID node = i) (bucket_of rt i)")
    case (Some j)
    with Insert_found(2) [OF wf ne Some, of now ip port] ins ne show ?thesis by auto
  next
    case None
    then have absent: "\<forall>x \<in> set (bucket_of rt i). rn_ID x \<noteq> i" by simp
    show ?thesis
    proof (cases "length (bucket_of rt i) < K")
      case True
      with Insert_room(2) [OF wf ne absent True, of now ip port] ins ne show ?thesis by auto
    next
      case False
      have "\<exists>x \<in> set (bucket_of rt i). stale now x"
      proof (rule ccontr)
        assume "\<not> ?thesis"
        then have "find_index (stale now) (bucket_of rt i) = None" by simp
        with ins False show "False" by (simp add: Insert_absent [OF ne absent])
      qed
      with Insert_full(2) [OF wf ne absent False] ins ne show ?thesis by (metis snd_conv)
    qed
  qed
qed

lemma Insert_rejects:
  assumes wf: "wf_table rt"
  shows "\<not> fst (Insert rt i ip port now) \<longleftrightarrow>
     i = localID rt \<or> length (bucket_of rt i) = K
       \<and> (\<forall>x \<in> set (bucket_of rt i). rn_ID x \<noteq> i \<and> \<not> stale now x)" (is "?L \<longleftrightarrow> ?R")
proof
  assume L: ?L
  show ?R
  proof (rule ccontr)
    assume nR: "\<not> ?R"
    then have ne: "i \<noteq> localID rt" by simp
    have "find_index (\<lambda>node. rn_ID node = i) (bucket_of rt i) = None"
      using L Insert_found(1) [OF wf ne] by (metis not_Some_eq)
    then have absent: "\<forall>x \<in> set (bucket_of rt i). rn_ID x \<noteq> i" by simp
    have full: "\<not> length (bucket_of rt i) < K"
      using L Insert_room(1) [OF wf ne absent] by blast
    then have "length (bucket_of rt i) = K"
      using wf_bucket_of [OF wf, of i] by (simp add: wf_bucket_def)
    with nR absent have "\<exists>x \<in> set (bucket_of rt i). stale now x" by blast
    with L Insert_full(1) [OF wf ne absent full] show "False" by blast
  qed
next
  assume R: ?R
  show ?L
  proof (cases "i = localID rt")
    case True
    then show ?thesis by (simp add: Insert_def)
  next
    case False
    with R have "\<forall>x \<in> set (bucket_of rt i). rn_ID x \<noteq> i"
      and "find_index (stale now) (bucket_of rt i) = None" by auto
    with False R show ?thesis by (simp add: Insert_absent del: find_index_None)
  qed
qed

lemma Insert_False_same: "Insert rt i ip port now = (False, rt') \<Longrightarrow> rt' = rt"
  by (auto simp: Insert_def Let_def split: if_splits option.splits)

lemma wf_Insert [wf_intros]:
  assumes "wf_table rt"
  shows "wf_table (snd (Insert rt i ip port now))"
proof (cases "Insert rt i ip port now")
  case (Pair r rt')
  show ?thesis
  proof (cases r)
    case True
    with Pair Insert_True [OF assms, of i ip port now rt'] show ?thesis
      by (auto simp: inserted_def intro: wf_set_bucket [OF assms])
  next
    case False
    with Pair Insert_False_same [of rt i ip port now rt'] assms show ?thesis by simp
  qed
qed

lemma localID_Insert [simp]: "localID (snd (Insert rt i ip port now)) = localID rt"
  by (simp add: Insert_def Let_def split: option.split)

lemma GetNode_inserted:
  assumes wf: "wf_table rt" and ins: "inserted rt i now n gone rt'" and n: "rn_ID n = i"
  shows "GetNode rt' k = Some x \<longleftrightarrow> (if k = i then x = n else GetNode rt k = Some x \<and> x \<notin> gone)"
proof -
  from ins obtain b where rt': "rt' = set_bucket rt i b"
    and b: "wf_bucket (localID rt) (BucketIndex (localID rt) i) b"
    and sb: "set b = insert n (set (bucket_of rt i) - gone)"
    and g: "gone = {x \<in> set (bucket_of rt i). rn_ID x = i}
      \<or> (\<exists>old \<in> set (bucket_of rt i). gone = {old} \<and> (\<forall>x \<in> set (bucket_of rt i). rn_ID x \<noteq> i))"
    unfolding inserted_def by blast
  have gsub: "gone \<subseteq> set (bucket_of rt i)" using g by auto
  have wf': "wf_table rt'" unfolding rt' by (rule wf_set_bucket [OF wf b])
  show ?thesis
  proof (cases "BucketIndex (localID rt) k = BucketIndex (localID rt) i")
    case True
    then have "bucket_of rt' k = b" by (simp add: rt' bucket_of_set_bucket [OF wf])
    moreover have "bucket_of rt k = bucket_of rt i" using True by (simp add: bucket_of_def)
    ultimately show ?thesis
      unfolding GetNode_bucket [OF wf'] GetNode_bucket [OF wf] using sb g n by auto
  next
    case False
    then have "bucket_of rt' k = bucket_of rt k" by (simp add: rt' bucket_of_set_bucket [OF wf])
    moreover have "rn_ID y \<noteq> k" if "y \<in> gone" for y
      using that gsub False wf_bucket_of [OF wf, of i] by (auto simp: wf_bucket_def)
    moreover have "k \<noteq> i" using False by auto
    ultimately show ?thesis
      unfolding GetNode_bucket [OF wf'] GetNode_bucket [OF wf] by auto
  qed
qed

section \<open>Removal and refresh\<close>

lemma bucket_find_None:
  "find_index (\<lambda>node. rn_ID node = i) (bucket_of rt i) = None \<longleftrightarrow> GetNode rt i = None"
  by (auto simp: GetNode_def find_None_iff)

lemma wf_Remove [wf_intros]: "wf_table rt \<Longrightarrow> wf_table (Remove rt i)"
  by (auto simp: Remove_def Let_def dest: find_indexD split: option.split
      intro!: wf_set_bucket wf_bucket_delete wf_bucket_of)

lemma GetNode_Remove:
  assumes wf: "wf_table rt"
  shows "GetNode (Remove rt i) k = (if k = i then None else GetNode rt k)"
proof (cases "find_index (\<lambda>node. rn_ID node = i) (bucket_of rt i)")
  case None
  then show ?thesis
    using bucket_find_None [of i rt] by (auto simp: Remove_def simp del: find_index_None)
next
  case (Some j)
  let ?b = "bucket_of rt i" and ?b' = "take j (bucket_of rt i) @ drop (Suc j) (bucket_of rt i)"
  have jd: "j < length ?b" "rn_ID (?b ! j) = i" using find_indexD [OF Some] by simp_all
  have d: "distinct (map rn_ID ?b)" using wf_bucket_of [OF wf, of i] by (simp add: wf_bucket_def)
  have s: "set ?b' = {x \<in> set ?b. rn_ID x \<noteq> i}"
    using set_delete_nth(1) [OF d jd(1)] jd(2) by simp
  have rem: "Remove rt i = set_bucket rt i ?b'" using Some by (simp add: Remove_def Let_def)
  have wf': "wf_table (set_bucket rt i ?b')" using wf_Remove [OF wf, of i] rem by simp
  show ?thesis
  proof (rule option_eqI)
    fix x
    show "GetNode (Remove rt i) k = Some x \<longleftrightarrow> (if k = i then None else GetNode rt k) = Some x"
      unfolding rem GetNode_bucket [OF wf'] bucket_of_set_bucket [OF wf]
      using s GetNode_bucket [OF wf, of k x] by (auto simp: bucket_of_def)
  qed
qed

lemma wf_Touch [wf_intros]:
  assumes wf: "wf_table rt"
  shows "wf_table (Touch rt i now)"
proof (cases "find_index (\<lambda>node. rn_ID node = i) (bucket_of rt i)")
  case (Some j)
  let ?b = "bucket_of rt i"
  have jd: "j < length ?b" "rn_ID (?b ! j) = i" using find_indexD [OF Some] by simp_all
  have wfb: "wf_bucket (localID rt) (BucketIndex (localID rt) i) ?b" using wf by (rule wf_bucket_of)
  have "wf_bucket (localID rt) (BucketIndex (localID rt) i) (?b[j := (?b ! j)\<lparr>rn_LastSeen := now\<rparr>])"
  proof (rule wf_bucket_replace(1) [OF wfb jd(1)])
    show "\<forall>x \<in> set ?b. rn_ID x \<noteq> rn_ID ((?b ! j)\<lparr>rn_LastSeen := now\<rparr>) \<or> x = ?b ! j"
      using wfb nth_mem [OF jd(1)] by (auto simp: wf_bucket_def distinct_map dest: inj_onD)
  qed (use wfb jd nth_mem [OF jd(1)] in \<open>auto simp: wf_bucket_def\<close>)
  with Some wf show ?thesis by (simp add: Touch_def Let_def wf_set_bucket)
qed (simp add: Touch_def wf del: find_index_None)

lemma GetNode_Touch:
  assumes wf: "wf_table rt"
  shows "GetNode (Touch rt i now) k =
    (if k = i then map_option (\<lambda>n. n\<lparr>rn_LastSeen := now\<rparr>) (GetNode rt k) else GetNode rt k)"
proof (cases "find_index (\<lambda>node. rn_ID node = i) (bucket_of rt i)")
  case None
  then have "GetNode rt i = None" by (simp add: GetNode_def find_None_iff)
  with None show ?thesis by (simp add: Touch_def del: find_index_None)
next
  case (Some j)
  let ?b = "bucket_of rt i" and ?n = "(bucket_of rt i ! j)\<lparr>rn_LastSeen := now\<rparr>"
  have j: "j < length ?b" "rn_ID (?b ! j) = i" using find_indexD [OF Some] by simp_all
  have wb: "wf_bucket (localID rt) (BucketIndex (localID rt) i) ?b" using wf_bucket_of [OF wf] .
  have d: "distinct (map rn_ID ?b)" using wb by (simp add: wf_bucket_def)
  have uniq: "x = ?b ! j" if "x \<in> set ?b" "rn_ID x = i" for x
    using that j d nth_mem [OF j(1)] by (metis find_id_iff option.inject)
  have s: "set (?b[j := ?n]) = insert ?n {x \<in> set ?b. rn_ID x \<noteq> i}"
  proof -
    have "\<forall>x \<in> set ?b. rn_ID x \<noteq> rn_ID ?n \<or> x = ?b ! j" using uniq j(2) by simp
    moreover have "rn_ID ?n \<noteq> localID rt" "BucketIndex (localID rt) (rn_ID ?n) = BucketIndex (localID rt) i"
      using wb nth_mem [OF j(1)] j(2) by (simp_all add: wf_bucket_def) metis
    ultimately show ?thesis using wf_bucket_replace(2) [OF wb j(1), of ?n] j(2) by simp
  qed
  have t: "Touch rt i now = set_bucket rt i (?b[j := ?n])" using Some by (simp add: Touch_def Let_def)
  note wt = wf_Touch [OF wf, of i now]
  have old: "GetNode rt i = Some (?b ! j)" using j nth_mem [OF j(1)] by (simp add: GetNode_bucket [OF wf])
  have b': "bucket_of (Touch rt i now) k = (if BucketIndex (localID rt) k = BucketIndex (localID rt) i
      then ?b[j := ?n] else bucket_of rt k)"
    by (simp add: t bucket_of_set_bucket [OF wf])
  have same: "bucket_of rt k = ?b" if "BucketIndex (localID rt) k = BucketIndex (localID rt) i"
    using that by (simp add: bucket_of_def)
  show ?thesis
  proof (rule option_eqI)
    fix x
    show "GetNode (Touch rt i now) k = Some x \<longleftrightarrow>
      (if k = i then map_option (\<lambda>n. n\<lparr>rn_LastSeen := now\<rparr>) (GetNode rt k) else GetNode rt k) = Some x"
    proof (cases "k = i")
      case True
      have "bucket_of (Touch rt i now) i = ?b[j := ?n]" using b' True by simp
      then show ?thesis using s j True by (auto simp: GetNode_bucket [OF wt] old)
    next
      case False
      then show ?thesis using s j same by (auto simp: GetNode_bucket [OF wt] GetNode_bucket [OF wf] b')
    qed
  qed
qed

section \<open>The table as a whole\<close>

lemma GetAllNodes_bucket:
  assumes wf: "wf_table rt"
  shows "n \<in> set (GetAllNodes rt) \<longleftrightarrow> n \<in> set (bucket_of rt (rn_ID n))"
proof
  assume "n \<in> set (GetAllNodes rt)"
  then obtain b where "b \<in> set (buckets rt)" "n \<in> set b" by (auto simp: GetAllNodes_def)
  then obtain k where k: "k < length (buckets rt)" "n \<in> set (buckets rt ! k)"
    by (auto simp: in_set_conv_nth)
  with wf have "BucketIndex (localID rt) (rn_ID n) = k"
    by (auto simp: wf_table_def wf_bucket_def)
  with k show "n \<in> set (bucket_of rt (rn_ID n))" by (simp add: bucket_of_def)
next
  assume "n \<in> set (bucket_of rt (rn_ID n))"
  then show "n \<in> set (GetAllNodes rt)"
    using wf nth_eq_concat_mem [of "BucketIndex (localID rt) (rn_ID n)" "buckets rt" n]
    by (simp add: GetAllNodes_def bucket_of_def wf_table_def)
qed

lemma GetNode_GetAllNodes:
  "wf_table rt \<Longrightarrow> GetNode rt k = Some x \<longleftrightarrow> x \<in> set (GetAllNodes rt) \<and> rn_ID x = k"
  by (auto simp: GetNode_bucket GetAllNodes_bucket)

lemma distinct_concat_ids:
  assumes "\<forall>k < length bss. distinct (map rn_ID (bss ! k)) \<and> (\<forall>n \<in> set (bss ! k). f (rn_ID n) = m + k)"
  shows "distinct (map rn_ID (concat bss))"
  using assms
proof (induction bss arbitrary: m)
  case (Cons b bss)
  have b: "distinct (map rn_ID b)" "\<forall>n \<in> set b. f (rn_ID n) = m"
    using Cons.prems by (auto dest: spec [where x = 0])
  have r: "\<forall>k < length bss. distinct (map rn_ID (bss ! k)) \<and> (\<forall>n \<in> set (bss ! k). f (rn_ID n) = Suc m + k)"
    using Cons.prems by (auto dest: spec [where x = "Suc _"])
  have "f (rn_ID n) \<noteq> m" if "n \<in> set (concat bss)" for n
  proof -
    from that obtain b' where "b' \<in> set bss" "n \<in> set b'" by auto
    then obtain k where "k < length bss" "n \<in> set (bss ! k)" by (auto simp: in_set_conv_nth)
    with r have "f (rn_ID n) = Suc m + k" by blast
    then show ?thesis by simp
  qed
  with b Cons.IH [OF r] show ?case by (auto simp: image_iff) metis
qed simp

lemma distinct_ids:
  assumes "wf_table rt"
  shows "distinct (map rn_ID (GetAllNodes rt))"
  unfolding GetAllNodes_def
  using assms by (intro distinct_concat_ids [where f = "BucketIndex (localID rt)" and m = 0])
    (auto simp: wf_table_def wf_bucket_def)

lemma Size_GetAllNodes: "Size rt = length (GetAllNodes rt)"
proof -
  have "foldl (\<lambda>c b. c + length b) m bss = m + length (concat bss)" for m and bss :: "bucket list"
    by (induction bss arbitrary: m) simp_all
  then show ?thesis by (simp add: Size_def GetAllNodes_def)
qed

lemma Size_bound:
  assumes "wf_table rt"
  shows "Size rt \<le> K * NumBuckets"
proof -
  have "length b \<le> K" if "b \<in> set (buckets rt)" for b
    using that assms by (auto simp: wf_table_def wf_bucket_def in_set_conv_nth)
  then have "sum_list (map length (buckets rt)) \<le> K * length (map length (buckets rt))"
    by (intro sum_list_bounded) auto
  then show ?thesis using assms by (simp add: Size_GetAllNodes GetAllNodes_def length_concat wf_table_def)
qed

section \<open>Nearest nodes\<close>

text \<open>
  The interface of a selection by distance: when no two identifiers are equally far from a
  target, the sorted list is unique and its front holds exactly the nearest nodes. The XOR
  metric is such a distance.
\<close>

locale nearest =
  fixes dist :: "'id \<Rightarrow> 'id \<Rightarrow> 'd::linorder"
    and ident :: "'n \<Rightarrow> 'id"
  assumes dist_inj: "dist a t = dist b t \<longleftrightarrow> a = b"
begin

lemma dist_inj_on:
  "distinct (map ident xs) \<Longrightarrow> inj_on (\<lambda>n. dist (ident n) t) (set xs)"
  by (auto simp: inj_on_def dist_inj distinct_map)

lemma sorted_unique:
  assumes "distinct (map ident xs)" and "mset ys = mset xs"
    and "sorted (map (\<lambda>n. dist (ident n) t) ys)"
  shows "ys = sort_key (\<lambda>n. dist (ident n) t) xs"
  using assms by (intro sort_key_unique dist_inj_on) (auto simp: distinct_map)

lemma front_nearest:
  assumes d: "distinct (map ident xs)" and ys: "ys = take k (sort_key (\<lambda>n. dist (ident n) t) xs)"
    and y: "y \<in> set ys" and x: "x \<in> set xs" "x \<notin> set ys"
  shows "dist (ident y) t < dist (ident x) t"
proof -
  let ?s = "sort_key (\<lambda>n. dist (ident n) t) xs"
  have "set ?s = set (take k ?s) \<union> set (drop k ?s)"
    by (metis append_take_drop_id set_append)
  then have "x \<in> set (drop k ?s)" using x ys by auto
  then have "dist (ident y) t \<le> dist (ident x) t"
    using y ys by (intro sorted_take_drop_le [of "\<lambda>n. dist (ident n) t" ?s y k x]) auto
  moreover have "y \<in> set xs" "y \<noteq> x" using x y ys in_set_takeD by fastforce+
  then have "dist (ident y) t \<noteq> dist (ident x) t"
    using d x(1) by (auto simp: dist_inj distinct_map dest: inj_onD)
  ultimately show ?thesis by simp
qed

lemma front_strict:
  assumes "distinct (map ident xs)"
  shows "sorted_wrt (\<lambda>m n. dist (ident m) t < dist (ident n) t)
    (take k (sort_key (\<lambda>n. dist (ident n) t) xs))"
proof -
  let ?f = "\<lambda>n. dist (ident n) t" and ?s = "sort_key (\<lambda>n. dist (ident n) t) xs"
  have "distinct (map ?f ?s)"
    using assms dist_inj_on [OF assms, of t] by (simp add: distinct_map)
  then have "sorted_wrt (<) (map ?f ?s)" by (simp add: strict_sorted_iff)
  then show ?thesis
    by (metis sorted_wrt_map sorted_wrt_take)
qed

lemma front_unique:
  assumes d: "distinct (map ident xs)" and len: "length ys = min k (length xs)"
    and sub: "set ys \<subseteq> set xs"
    and s: "sorted_wrt (\<lambda>m n. dist (ident m) t < dist (ident n) t) ys"
    and far: "\<And>m n. m \<in> set ys \<Longrightarrow> n \<in> set xs \<Longrightarrow> n \<notin> set ys \<Longrightarrow> dist (ident m) t < dist (ident n) t"
  shows "ys = take k (sort_key (\<lambda>n. dist (ident n) t) xs)"
proof -
  let ?f = "\<lambda>n. dist (ident n) t"
  let ?rest = "sort_key ?f (filter (\<lambda>n. n \<notin> set ys) xs)"
  have dx: "distinct xs" using d by (simp add: distinct_map)
  have st: "sorted_wrt (<) (map ?f ys)" using s by (simp add: sorted_wrt_map)
  then have dy: "distinct ys" by (simp add: strict_sorted_iff distinct_map)
  have "mset ys = mset (filter (\<lambda>n. n \<in> set ys) xs)"
    using dx dy sub by (intro set_eq_iff_mset_eq_distinct [THEN iffD1]) auto
  then have "mset (ys @ ?rest) = mset xs" by (simp add: multiset_partition [symmetric])
  moreover have "sorted (map ?f (ys @ ?rest))"
    using st far by (auto simp: sorted_append strict_sorted_iff less_imp_le)
  ultimately have "ys @ ?rest = sort_key ?f xs" by (rule sorted_unique [OF d])
  then have "take (length ys) (sort_key ?f xs) = ys" by (metis append_eq_conv_conj)
  then show ?thesis using len by (cases "k \<le> length xs") simp_all
qed

end

interpretation xor: nearest Distance rn_ID
  by unfold_locales (use xor_metric_inj in blast)

lemma FindClosest_take:
  "FindClosest rt target cnt = take cnt (sort_key (\<lambda>n. Distance (rn_ID n) target) (GetAllNodes rt))"
  by (simp add: FindClosest_def GetAllNodes_def Let_def)

lemma set_FindClosest: "n \<in> set (FindClosest rt target cnt) \<Longrightarrow> n \<in> set (GetAllNodes rt)"
  by (auto simp: FindClosest_take dest: in_set_takeD)

lemma length_FindClosest: "length (FindClosest rt target cnt) = min cnt (Size rt)"
  by (simp add: FindClosest_take Size_GetAllNodes)

section \<open>The interface the DHT node relies on\<close>

locale node_store =
  fixes inv :: "'t \<Rightarrow> bool"
    and ins :: "'t \<Rightarrow> node_id \<Rightarrow> bytes \<Rightarrow> int \<Rightarrow> int \<Rightarrow> bool \<times> 't"
    and look :: "'t \<Rightarrow> node_id \<Rightarrow> 'n option"
    and closest :: "'t \<Rightarrow> node_id \<Rightarrow> nat \<Rightarrow> 'n list"
    and ident :: "'n \<Rightarrow> node_id"
  assumes inv_ins: "inv t \<Longrightarrow> inv (snd (ins t i ip port now))"
    and look_ins: "inv t \<Longrightarrow> fst (ins t i ip port now) \<Longrightarrow> look (snd (ins t i ip port now)) i \<noteq> None"
    and closest_length: "length (closest t x k) \<le> k"
    and closest_known: "inv t \<Longrightarrow> n \<in> set (closest t x k) \<Longrightarrow> look t (ident n) = Some n"
begin

lemma inv_ins_all:
  "inv t \<Longrightarrow> inv (foldl (\<lambda>t m. snd (ins t (f m) (g m) (h m) now)) t ms)"
  by (induction ms arbitrary: t) (simp_all add: inv_ins)

lemma inv_ins_opt:
  "inv t \<Longrightarrow> inv (case x of None \<Rightarrow> t | Some i \<Rightarrow> snd (ins t i ip port now))"
  by (simp add: inv_ins split: option.split)

end

lemma Insert_lookup:
  assumes "wf_table rt" and "fst (Insert rt i ip port now)"
  shows "GetNode (snd (Insert rt i ip port now)) i = Some (new_node i ip port now)"
proof -
  obtain rt' where r: "Insert rt i ip port now = (True, rt')"
    using assms(2) by (cases "Insert rt i ip port now") auto
  from Insert_True [OF assms(1) r] obtain gone where
    "inserted rt i now (new_node i ip port now) gone rt'" by blast
  from GetNode_inserted [OF assms(1) this] r show ?thesis by simp
qed

interpretation routing: node_store wf_table Insert GetNode FindClosest rn_ID
proof unfold_locales
  fix rt x k n
  assume "wf_table rt" "n \<in> set (FindClosest rt x k)"
  then show "GetNode rt (rn_ID n) = Some n"
    by (simp add: GetNode_GetAllNodes set_FindClosest)
qed (auto simp: length_FindClosest wf_Insert Insert_lookup)

section \<open>Reachable tables\<close>

text \<open>Every sequence of calls to the mutating methods, in any order and at any times.\<close>

inductive reachable_table :: "node_id \<Rightarrow> routing_table \<Rightarrow> bool" for lid where
  new: "reachable_table lid (NewRoutingTable lid)"
| insert: "reachable_table lid rt \<Longrightarrow> reachable_table lid (snd (Insert rt i ip port now))"
| remove: "reachable_table lid rt \<Longrightarrow> reachable_table lid (Remove rt i)"
| touch: "reachable_table lid rt \<Longrightarrow> reachable_table lid (Touch rt i now)"

lemma localID_Remove [simp]: "localID (Remove rt i) = localID rt"
  by (simp add: Remove_def Let_def split: option.split)

lemma localID_Touch [simp]: "localID (Touch rt i now) = localID rt"
  by (simp add: Touch_def Let_def split: option.split)

lemma localID_NewRoutingTable [simp]: "localID (NewRoutingTable lid) = lid"
  by (simp add: NewRoutingTable_def)

lemma reachable_table_wf: "reachable_table lid rt \<Longrightarrow> wf_table rt \<and> localID rt = lid"
  by (induction rule: reachable_table.induct)
    (simp_all add: wf_table_NewRoutingTable wf_Insert wf_Remove wf_Touch localID_Insert)

section \<open>Properties\<close>

text \<open>C18: The table invariant. In every state the mutating methods can reach, the table has
  160 buckets of at most 8 nodes, each node is in the bucket of its distance to the local
  identifier, no identifier occurs twice in the whole table, and the local one never does.\<close>

theorem routing_table_invariant:
  assumes "reachable_table lid rt"
  shows "length (buckets rt) = NumBuckets \<and> distinct (map rn_ID (GetAllNodes rt))
    \<and> Size rt \<le> K * NumBuckets
    \<and> (\<forall>k < NumBuckets. length (buckets rt ! k) \<le> K
         \<and> (\<forall>n \<in> set (buckets rt ! k). rn_ID n \<noteq> lid \<and> BucketIndex lid (rn_ID n) = k))"
proof -
  have wf: "wf_table rt" and l: "localID rt = lid"
    using reachable_table_wf [OF assms] by simp_all
  show ?thesis
    using wf l distinct_ids [OF wf] Size_bound [OF wf] by (auto simp: wf_table_def wf_bucket_def)
qed

definition sample_table :: routing_table where
  "sample_table = snd (Insert (NewRoutingTable zeroID) (arr20_of [1]) [10, 0, 0, 1] 6881 0)"

lemma sample_table_reachable: "reachable_table zeroID sample_table"
  unfolding sample_table_def by (intro reachable_table.intros)

theorem routing_table_invariant_witness:
  "reachable_table zeroID sample_table \<and> distinct (map rn_ID (GetAllNodes sample_table))
   \<and> Size sample_table \<le> K * NumBuckets"
  using sample_table_reachable routing_table_invariant [OF sample_table_reachable] by blast



text \<open>When an insertion is refused. \<open>Insert\<close> returns false exactly for the local
  identifier and for an unknown node whose bucket holds \<open>K\<close> nodes all seen within
  \<open>NodeTimeout\<close>, and then the table is unchanged.\<close>

lemma insert_refused:
  assumes "wf_table rt"
  shows "Insert rt i ip port now = (False, rt') \<longleftrightarrow>
    rt' = rt \<and> (i = localID rt \<or> GetNode rt i = None \<and> length (bucket_of rt i) = K
      \<and> (\<forall>x \<in> set (bucket_of rt i). now - rn_LastSeen x \<le> NodeTimeout))"
proof -
  have absent: "GetNode rt i = None \<longleftrightarrow> (\<forall>x \<in> set (bucket_of rt i). rn_ID x \<noteq> i)"
    by (simp add: GetNode_def find_None_iff) blast
  have "Insert rt i ip port now = (False, rt') \<longleftrightarrow> rt' = rt \<and> \<not> fst (Insert rt i ip port now)"
    using Insert_False_same [of rt i ip port now] by (cases "Insert rt i ip port now") auto
  then show ?thesis
    unfolding Insert_rejects [OF assms] absent stale_def by (auto simp: not_less)
qed

lemma insert_refused_witness:
  "Insert sample_table zeroID [10, 0, 0, 2] 80 5 = (False, sample_table)"
proof -
  have l: "localID sample_table = zeroID"
    using reachable_table_wf [OF sample_table_reachable] by simp
  have "wf_table sample_table" using reachable_table_wf [OF sample_table_reachable] by simp
  from insert_refused [OF this, of zeroID "[10, 0, 0, 2]" 80 5 sample_table] l show ?thesis by simp
qed

text \<open>C26: The nearest nodes. \<open>FindClosest\<close> returns as many distinct known nodes as asked, or
  all of them, in strictly ascending distance to the target, and every known node it leaves
  out is strictly farther than each one it returns. Any list of known nodes with these
  properties is the one returned, so the result does not depend on the sorting algorithm.\<close>

theorem find_closest_nearest:
  assumes wf: "wf_table rt"
  shows "ns = FindClosest rt target cnt \<longleftrightarrow>
    length ns = min cnt (Size rt) \<and> set ns \<subseteq> set (GetAllNodes rt)
    \<and> sorted_wrt (\<lambda>m n. Less (Distance (rn_ID m) target) (Distance (rn_ID n) target)) ns
    \<and> (\<forall>m \<in> set ns. \<forall>n \<in> set (GetAllNodes rt) - set ns.
         Less (Distance (rn_ID m) target) (Distance (rn_ID n) target))"
  (is "_ \<longleftrightarrow> ?P ns")
proof -
  let ?f = "\<lambda>n. Distance (rn_ID n) target" and ?all = "GetAllNodes rt"
  note d = distinct_ids [OF wf]
  have P: "?P (FindClosest rt target cnt)"
  proof (intro conjI ballI)
    show "sorted_wrt (\<lambda>m n. Less (?f m) (?f n)) (FindClosest rt target cnt)"
      using xor.front_strict [OF d, of target cnt] by (simp add: Less_iff_less FindClosest_take)
    fix m n assume "m \<in> set (FindClosest rt target cnt)"
      and "n \<in> set ?all - set (FindClosest rt target cnt)"
    then show "Less (?f m) (?f n)"
      using xor.front_nearest [OF d FindClosest_take, of m target cnt n] by (simp add: Less_iff_less)
  qed (auto simp: length_FindClosest set_FindClosest)
  have "ns = FindClosest rt target cnt" if "?P ns"
    unfolding FindClosest_take
  proof (rule xor.front_unique [OF d])
    show "length ns = min cnt (length ?all)" using that by (simp add: Size_GetAllNodes)
    show "sorted_wrt (\<lambda>m n. ?f m < ?f n) ns" using that by (simp add: Less_iff_less)
  qed (use that in \<open>auto simp: Less_iff_less\<close>)
  with P show ?thesis by blast
qed

theorem find_closest_nearest_witness:
  "length (FindClosest sample_table zeroID 8) = min 8 (Size sample_table)"
  using find_closest_nearest [of sample_table "FindClosest sample_table zeroID 8" zeroID 8]
    reachable_table_wf [OF sample_table_reachable] by blast

text \<open>Removing and touching. After \<open>Remove\<close> the node is not in the table and every other
  node is as it was; \<open>Touch\<close> changes the time of the node, when it is known, and nothing else;
  both keep the invariant.\<close>

lemma remove_touch_effect:
  assumes "wf_table rt"
  shows "GetNode (Remove rt i) k = (if k = i then None else GetNode rt k)
    \<and> GetNode (Touch rt i now) k =
        (if k = i then map_option (\<lambda>n. n\<lparr>rn_LastSeen := now\<rparr>) (GetNode rt k) else GetNode rt k)
    \<and> wf_table (Remove rt i) \<and> wf_table (Touch rt i now)"
  using assms by (simp add: GetNode_Remove GetNode_Touch wf_Remove wf_Touch)

end
