(* ===== verification/KRPC.thy ===== *)
theory KRPC
  imports Bencode Node_ID
begin

text \<open>
  \<open>internal/dht/krpc.go\<close>: the KRPC messages of the DHT. Every \<open>Encode*\<close> function builds a
  dictionary and hands it to \<open>bt.Encode\<close>; \<open>DecodeMessage\<close> reads any dictionary, and the
  extractors pick the arguments out of it. Compact nodes and peers are the fixed-width
  records inside the messages. \<open>query\<close> and \<open>reply\<close> are the abstract messages the wire format
  stands for.
\<close>

section \<open>Data\<close>

definition MsgTypeQuery :: bytes where
  "MsgTypeQuery = bs ''q''"

definition MsgTypeResponse :: bytes where
  "MsgTypeResponse = bs ''r''"

definition MsgTypeError :: bytes where
  "MsgTypeError = bs ''e''"

definition QueryPing :: bytes where
  "QueryPing = bs ''ping''"

definition QueryFindNode :: bytes where
  "QueryFindNode = bs ''find_node''"

definition QueryGetPeers :: bytes where
  "QueryGetPeers = bs ''get_peers''"

definition QueryAnnouncePeer :: bytes where
  "QueryAnnouncePeer = bs ''announce_peer''"

lemmas msg_names = MsgTypeQuery_def MsgTypeResponse_def MsgTypeError_def
  QueryPing_def QueryFindNode_def QueryGetPeers_def QueryAnnouncePeer_def

record message =
  TransactionID :: bytes
  Type :: bytes
  Query :: bytes
  Args :: "gdict option"
  Response :: "gdict option"
  Error :: "gval list option"

record compact_node =
  cn_ID :: node_id
  cn_IP :: bytes
  cn_Port :: int

record compact_peer =
  cp_IP :: bytes
  cp_Port :: int

section \<open>Compact records\<close>

text \<open>
  \<open>net.IP.To4\<close>: a 4-byte slice as it is, the last four bytes of an IPv4-mapped 16-byte one,
  and nil for anything else; copying nil leaves the zeros of the fresh buffer.
\<close>

definition To4 :: "bytes \<Rightarrow> bytes" where
  "To4 ip =
     (if length ip = 4 then ip
      else if length ip = 16 \<and> take 12 ip = replicate 10 0 @ [255, 255] then drop 12 ip
      else [])"

definition ip4_field :: "bytes \<Rightarrow> bytes" where
  "ip4_field ip = take 4 (To4 ip @ replicate 4 0)"

definition port_field :: "int \<Rightarrow> bytes" where
  "port_field port = put_uint16 (word_of_int port)"

definition port_at :: "bytes \<Rightarrow> nat \<Rightarrow> int" where
  "port_at data off = uint (get_uint16 (data ! off) (data ! Suc off))"

definition compact_node_bytes :: "compact_node \<Rightarrow> bytes" where
  "compact_node_bytes node = arr_bytes (cn_ID node) @ ip4_field (cn_IP node) @ port_field (cn_Port node)"

definition EncodeCompactNodes :: "compact_node list \<Rightarrow> bytes" where
  "EncodeCompactNodes nodes = concat (map compact_node_bytes nodes)"

definition DecodeCompactNodes :: "bytes \<Rightarrow> compact_node list" where
  "DecodeCompactNodes data =
     (if length data mod 26 \<noteq> 0 then []
      else map (\<lambda>i. let offset = i * 26 in
             \<lparr>cn_ID = arr20_of (take 20 (drop offset data)),
              cn_IP = take 4 (drop (offset + 20) data),
              cn_Port = port_at data (offset + 24)\<rparr>)
           [0..<length data div 26])"

definition EncodeCompactPeer :: "compact_peer \<Rightarrow> bytes" where
  "EncodeCompactPeer peer = ip4_field (cp_IP peer) @ port_field (cp_Port peer)"

definition DecodeCompactPeer :: "bytes \<Rightarrow> compact_peer option" where
  "DecodeCompactPeer data =
     (if length data \<noteq> 6 then None
      else Some \<lparr>cp_IP = take 4 data, cp_Port = port_at data 4\<rparr>)"

section \<open>Encoding messages\<close>

definition EncodePing :: "bytes \<Rightarrow> node_id \<Rightarrow> bytes res" where
  "EncodePing tid nodeID = Encode (GDict
     [(bs ''t'', GBytes tid), (bs ''y'', GString MsgTypeQuery), (bs ''q'', GString QueryPing),
      (bs ''a'', GDict [(bs ''id'', GBytes (arr_bytes nodeID))])])"

definition EncodePingResponse :: "bytes \<Rightarrow> node_id \<Rightarrow> bytes res" where
  "EncodePingResponse tid nodeID = Encode (GDict
     [(bs ''t'', GBytes tid), (bs ''y'', GString MsgTypeResponse),
      (bs ''r'', GDict [(bs ''id'', GBytes (arr_bytes nodeID))])])"

definition EncodeFindNode :: "bytes \<Rightarrow> node_id \<Rightarrow> node_id \<Rightarrow> bytes res" where
  "EncodeFindNode tid nodeID target = Encode (GDict
     [(bs ''t'', GBytes tid), (bs ''y'', GString MsgTypeQuery), (bs ''q'', GString QueryFindNode),
      (bs ''a'', GDict [(bs ''id'', GBytes (arr_bytes nodeID)), (bs ''target'', GBytes (arr_bytes target))])])"

definition EncodeFindNodeResponse :: "bytes \<Rightarrow> node_id \<Rightarrow> compact_node list \<Rightarrow> bytes res" where
  "EncodeFindNodeResponse tid nodeID nodes = Encode (GDict
     [(bs ''t'', GBytes tid), (bs ''y'', GString MsgTypeResponse),
      (bs ''r'', GDict [(bs ''id'', GBytes (arr_bytes nodeID)),
                        (bs ''nodes'', GBytes (EncodeCompactNodes nodes))])])"

definition EncodeGetPeers :: "bytes \<Rightarrow> node_id \<Rightarrow> info_hash \<Rightarrow> bytes res" where
  "EncodeGetPeers tid nodeID infoHash = Encode (GDict
     [(bs ''t'', GBytes tid), (bs ''y'', GString MsgTypeQuery), (bs ''q'', GString QueryGetPeers),
      (bs ''a'', GDict [(bs ''id'', GBytes (arr_bytes nodeID)),
                        (bs ''info_hash'', GBytes (arr_bytes infoHash))])])"

definition EncodeGetPeersResponseNodes ::
  "bytes \<Rightarrow> node_id \<Rightarrow> bytes \<Rightarrow> compact_node list \<Rightarrow> bytes res" where
  "EncodeGetPeersResponseNodes tid nodeID token nodes = Encode (GDict
     [(bs ''t'', GBytes tid), (bs ''y'', GString MsgTypeResponse),
      (bs ''r'', GDict [(bs ''id'', GBytes (arr_bytes nodeID)), (bs ''token'', GBytes token),
                        (bs ''nodes'', GBytes (EncodeCompactNodes nodes))])])"

definition EncodeGetPeersResponsePeers ::
  "bytes \<Rightarrow> node_id \<Rightarrow> bytes \<Rightarrow> compact_peer list \<Rightarrow> bytes res" where
  "EncodeGetPeersResponsePeers tid nodeID token peers = Encode (GDict
     [(bs ''t'', GBytes tid), (bs ''y'', GString MsgTypeResponse),
      (bs ''r'', GDict [(bs ''id'', GBytes (arr_bytes nodeID)), (bs ''token'', GBytes token),
                        (bs ''values'', GList (map (\<lambda>p. GBytes (EncodeCompactPeer p)) peers))])])"

definition EncodeAnnouncePeer ::
  "bytes \<Rightarrow> node_id \<Rightarrow> info_hash \<Rightarrow> int \<Rightarrow> bytes \<Rightarrow> bool \<Rightarrow> bytes res" where
  "EncodeAnnouncePeer tid nodeID infoHash port token impliedPort =
     (let implied = (if impliedPort then 1 else 0) in
      Encode (GDict
        [(bs ''t'', GBytes tid), (bs ''y'', GString MsgTypeQuery),
         (bs ''q'', GString QueryAnnouncePeer),
         (bs ''a'', GDict [(bs ''id'', GBytes (arr_bytes nodeID)),
                           (bs ''info_hash'', GBytes (arr_bytes infoHash)),
                           (bs ''port'', GInt (word_of_int port)), (bs ''token'', GBytes token),
                           (bs ''implied_port'', GInt implied)])]))"

definition EncodeAnnouncePeerResponse :: "bytes \<Rightarrow> node_id \<Rightarrow> bytes res" where
  "EncodeAnnouncePeerResponse tid nodeID = Encode (GDict
     [(bs ''t'', GBytes tid), (bs ''y'', GString MsgTypeResponse),
      (bs ''r'', GDict [(bs ''id'', GBytes (arr_bytes nodeID))])])"

definition EncodeError :: "bytes \<Rightarrow> int \<Rightarrow> bytes \<Rightarrow> bytes res" where
  "EncodeError tid code msg = Encode (GDict
     [(bs ''t'', GBytes tid), (bs ''y'', GString MsgTypeError),
      (bs ''e'', GList [GInt64 (word_of_int code), GString msg])])"

lemmas encoders = EncodePing_def EncodePingResponse_def EncodeFindNode_def
  EncodeFindNodeResponse_def EncodeGetPeers_def EncodeGetPeersResponseNodes_def
  EncodeGetPeersResponsePeers_def EncodeAnnouncePeer_def EncodeAnnouncePeerResponse_def
  EncodeError_def

section \<open>Decoding messages\<close>

definition empty_message :: message where
  "empty_message =
     \<lparr>TransactionID = [], Type = [], Query = [], Args = None, Response = None, Error = None\<rparr>"

definition DecodeMessage :: "bytes \<Rightarrow> message res" where
  "DecodeMessage data =
     (case DecodeDict data of
        Inl e \<Rightarrow> Inl e
      | Inr dict \<Rightarrow>
          let msg = empty_message;
              msg = (case GetBytes dict (bs ''t'') of Some tid \<Rightarrow> msg\<lparr>TransactionID := tid\<rparr> | None \<Rightarrow> msg);
              msg = (case GetString dict (bs ''y'') of Some y \<Rightarrow> msg\<lparr>Type := y\<rparr> | None \<Rightarrow> msg) in
          Inr (if Type msg = MsgTypeQuery then
                 (let msg = (case GetString dict (bs ''q'') of Some q \<Rightarrow> msg\<lparr>Query := q\<rparr> | None \<Rightarrow> msg) in
                  case GetDict dict (bs ''a'') of Some a \<Rightarrow> msg\<lparr>Args := Some a\<rparr> | None \<Rightarrow> msg)
               else if Type msg = MsgTypeResponse then
                 (case GetDict dict (bs ''r'') of Some r \<Rightarrow> msg\<lparr>Response := Some r\<rparr> | None \<Rightarrow> msg)
               else if Type msg = MsgTypeError then
                 (case GetList dict (bs ''e'') of Some e \<Rightarrow> msg\<lparr>Error := Some e\<rparr> | None \<Rightarrow> msg)
               else msg))"

definition GetQueryNodeID :: "message \<Rightarrow> node_id option" where
  "GetQueryNodeID m =
     (case Args m of
        None \<Rightarrow> None
      | Some args \<Rightarrow>
          (case GetBytes args (bs ''id'') of
             None \<Rightarrow> None
           | Some idBytes \<Rightarrow> (case FromBytes idBytes of Inl _ \<Rightarrow> None | Inr i \<Rightarrow> Some i)))"

definition GetInfoHash :: "message \<Rightarrow> info_hash option" where
  "GetInfoHash m =
     (case Args m of
        None \<Rightarrow> None
      | Some args \<Rightarrow>
          (case GetBytes args (bs ''info_hash'') of
             None \<Rightarrow> None
           | Some hashBytes \<Rightarrow> if length hashBytes = 20 then Some (arr20_of hashBytes) else None))"

definition GetTarget :: "message \<Rightarrow> node_id option" where
  "GetTarget m =
     (case Args m of
        None \<Rightarrow> None
      | Some args \<Rightarrow>
          (case GetBytes args (bs ''target'') of
             None \<Rightarrow> None
           | Some targetBytes \<Rightarrow> (case FromBytes targetBytes of Inl _ \<Rightarrow> None | Inr i \<Rightarrow> Some i)))"

definition GetPort :: "message \<Rightarrow> int option" where
  "GetPort m =
     (case Args m of
        None \<Rightarrow> None
      | Some args \<Rightarrow>
          if GetInt args (bs ''implied_port'') = Some 1 then None
          else map_option sint (GetInt args (bs ''port'')))"

definition GetToken :: "message \<Rightarrow> bytes option" where
  "GetToken m = (case Args m of None \<Rightarrow> None | Some args \<Rightarrow> GetBytes args (bs ''token''))"

definition GetResponseNodes :: "message \<Rightarrow> compact_node list" where
  "GetResponseNodes m =
     (case Response m of
        None \<Rightarrow> []
      | Some r \<Rightarrow>
          (case GetBytes r (bs ''nodes'') of
             None \<Rightarrow> []
           | Some nodesBytes \<Rightarrow> DecodeCompactNodes nodesBytes))"

fun peers_of_values :: "gval list \<Rightarrow> compact_peer list" where
  "peers_of_values [] = []"
| "peers_of_values (v # vs) =
     (case v of
        GBytes peerBytes \<Rightarrow>
          (case DecodeCompactPeer peerBytes of
             Some peer \<Rightarrow> peer # peers_of_values vs
           | None \<Rightarrow> peers_of_values vs)
      | _ \<Rightarrow> peers_of_values vs)"

definition GetResponsePeers :: "message \<Rightarrow> compact_peer list" where
  "GetResponsePeers m =
     (case Response m of
        None \<Rightarrow> []
      | Some r \<Rightarrow>
          (case GetList r (bs ''values'') of None \<Rightarrow> [] | Some vals \<Rightarrow> peers_of_values vals))"

definition GetResponseToken :: "message \<Rightarrow> bytes option" where
  "GetResponseToken m =
     (case Response m of None \<Rightarrow> None | Some r \<Rightarrow> GetBytes r (bs ''token''))"

lemmas extractors = GetQueryNodeID_def GetInfoHash_def GetTarget_def GetPort_def GetToken_def
  GetResponseNodes_def GetResponsePeers_def GetResponseToken_def

section \<open>Compact records round trip\<close>

lemma length_ip4_field [simp]: "length (ip4_field ip) = 4"
  by (simp add: ip4_field_def)

lemma length_port_field [simp]: "length (port_field p) = 2"
  by (simp add: port_field_def)

lemma length_compact_node_bytes [simp]: "length (compact_node_bytes n) = 26"
  by (simp add: compact_node_bytes_def)

lemma length_EncodeCompactPeer [simp]: "length (EncodeCompactPeer p) = 6"
  by (simp add: EncodeCompactPeer_def)

lemma length_EncodeCompactNodes [simp]: "length (EncodeCompactNodes ns) = 26 * length ns"
  by (induction ns) (simp_all add: EncodeCompactNodes_def)

text \<open>
  What a receiver gets: the address as four bytes (zeros when it is not an IPv4 address)
  and the port modulo \<open>2^16\<close>.
\<close>

definition wire_node :: "compact_node \<Rightarrow> compact_node" where
  "wire_node n = \<lparr>cn_ID = cn_ID n, cn_IP = ip4_field (cn_IP n), cn_Port = cn_Port n mod 2 ^ 16\<rparr>"

definition wire_peer :: "compact_peer \<Rightarrow> compact_peer" where
  "wire_peer p = \<lparr>cp_IP = ip4_field (cp_IP p), cp_Port = cp_Port p mod 2 ^ 16\<rparr>"

lemma port_at_field:
  assumes "length xs = off"
  shows "port_at (xs @ port_field p @ ys) off = p mod 2 ^ 16"
proof -
  have "(xs @ port_field p @ ys) ! off = ucast (drop_bit 8 (word_of_int p :: uint16))"
    and "(xs @ port_field p @ ys) ! Suc off = ucast (word_of_int p :: uint16)"
    using assms by (simp_all add: nth_append port_field_def put_uint16_def)
  then have "port_at (xs @ port_field p @ ys) off = uint (word_of_int p :: uint16)"
    by (simp add: port_at_def)
  then show ?thesis by (simp add: uint_word_of_int)
qed

lemma DecodeCompactPeer_Encode: "DecodeCompactPeer (EncodeCompactPeer p) = Some (wire_peer p)"
  using port_at_field [of "ip4_field (cp_IP p)" 4 "cp_Port p" "[]"]
  by (simp add: DecodeCompactPeer_def wire_peer_def) (simp add: EncodeCompactPeer_def)

lemma DecodeCompactNodes_step:
  assumes "26 dvd length rest"
  shows "DecodeCompactNodes (compact_node_bytes n @ rest) = wire_node n # DecodeCompactNodes rest"
proof -
  let ?b = "compact_node_bytes n"
  obtain k where k: "length rest = 26 * k" using assms by (auto simp: dvd_def)
  have up: "[0..<Suc k] = 0 # map Suc [0..<k]" by (simp add: upt_conv_Cons map_Suc_upt del: upt_Suc)
  have p: "port_at (?b @ rest) 24 = cn_Port n mod 2 ^ 16"
    using port_at_field [of "arr_bytes (cn_ID n) @ ip4_field (cn_IP n)" 24 "cn_Port n" rest]
    by (simp add: compact_node_bytes_def)
  have h: "take 20 (?b @ rest) = arr_bytes (cn_ID n)" "take 4 (drop 20 (?b @ rest)) = ip4_field (cn_IP n)"
    by (simp_all add: compact_node_bytes_def)
  have sh: "port_at (?b @ rest) (Suc i * 26 + 24) = port_at rest (i * 26 + 24)" for i
    by (simp add: port_at_def nth_append ac_simps)
  have dr: "drop (Suc i * 26 + m) (?b @ rest) = drop (i * 26 + m) rest" for i m
    by (simp add: add.commute)
  show ?thesis
    using dr [of _ 0] dr [of _ 20] sh p h
    by (simp add: DecodeCompactNodes_def k up Let_def wire_node_def comp_def
        del: upt_Suc mult_Suc)
qed

interpretation compact_nodes: record_codec 26 compact_node_bytes
  "\<lambda>b. Inr (DecodeCompactNodes b)" "\<lambda>_. True" wire_node
  by unfold_locales (auto simp: DecodeCompactNodes_step, simp add: DecodeCompactNodes_def)

lemma DecodeCompactNodes_Encode: "DecodeCompactNodes (EncodeCompactNodes ns) = map wire_node ns"
  using compact_nodes.decs_concat_enc [of ns] by (simp add: EncodeCompactNodes_def list_all_iff)

lemma peers_of_values_Encode:
  "peers_of_values (map (\<lambda>p. GBytes (EncodeCompactPeer p)) ps) = map wire_peer ps"
  by (induction ps) (simp_all add: DecodeCompactPeer_Encode)

section \<open>Messages on the wire\<close>

lemma gval_ok_GDict:
  "gval_ok (GDict d) \<longleftrightarrow> distinct (map fst d)
     \<and> list_all (\<lambda>(k, v). int (length k) \<le> maxAlloc \<and> gval_ok v) d"
  by (simp add: list_all_iff)

lemma Encode_decodes:
  "gval_ok (GDict d) \<Longrightarrow> \<exists>b. Encode (GDict d) = Inr b \<and> DecodeDict b = Inr (norm_dict d)"
  using DecodeDict_encode [of d] by (auto simp: Encode_def)

lemma norm_dict_Nil [simp]: "norm_dict [] = []"
  by (simp add: norm_dict_def)

lemma accessor_norm_dict_values:
  assumes "distinct (map fst d)"
  shows "map_of d k = Some (GBytes b) \<Longrightarrow> GetBytes (norm_dict d) k = Some b"
    and "map_of d k = None \<Longrightarrow> GetBytes (norm_dict d) k = None"
    and "map_of d k = Some (GInt i) \<Longrightarrow> GetInt (norm_dict d) k = Some i"
    and "map_of d k = None \<Longrightarrow> GetInt (norm_dict d) k = None"
    and "map_of d k = Some (GList l) \<Longrightarrow> GetList (norm_dict d) k = Some (map norm l)"
    and "map_of d k = None \<Longrightarrow> GetList (norm_dict d) k = None"
  using assms by (simp_all add: accessor_defs)

lemma Encode_query:
  assumes "int (length tid) \<le> maxAlloc" and "int (length name) \<le> maxAlloc" and "gval_ok (GDict a)"
  shows "\<exists>b. Encode (GDict [(bs ''t'', GBytes tid), (bs ''y'', GString MsgTypeQuery),
        (bs ''q'', GString name), (bs ''a'', GDict a)]) = Inr b
      \<and> DecodeMessage b = Inr \<lparr>TransactionID = tid, Type = MsgTypeQuery, Query = name,
           Args = Some (norm_dict a), Response = None, Error = None\<rparr>"
proof -
  let ?d = "[(bs ''t'', GBytes tid), (bs ''y'', GString MsgTypeQuery),
        (bs ''q'', GString name), (bs ''a'', GDict a)]"
  have ok: "gval_ok (GDict ?d)"
    using assms unfolding gval_ok_GDict [of ?d] by (simp add: maxAlloc_def msg_names)
  then have d: "distinct (map fst ?d)" by simp
  from Encode_decodes [OF ok] obtain b where b: "Encode (GDict ?d) = Inr b" "DecodeDict b = Inr (norm_dict ?d)"
    by blast
  have "DecodeMessage b = Inr \<lparr>TransactionID = tid, Type = MsgTypeQuery, Query = name,
           Args = Some (norm_dict a), Response = None, Error = None\<rparr>"
    unfolding DecodeMessage_def b(2) sum.case accessors_norm_dict [OF d]
    by (simp add: accessor_defs empty_message_def)
  with b(1) show ?thesis by blast
qed

lemma Encode_reply:
  assumes "int (length tid) \<le> maxAlloc" and "gval_ok (GDict r)"
  shows "\<exists>b. Encode (GDict [(bs ''t'', GBytes tid), (bs ''y'', GString MsgTypeResponse),
        (bs ''r'', GDict r)]) = Inr b
      \<and> DecodeMessage b = Inr \<lparr>TransactionID = tid, Type = MsgTypeResponse, Query = [],
           Args = None, Response = Some (norm_dict r), Error = None\<rparr>"
proof -
  let ?d = "[(bs ''t'', GBytes tid), (bs ''y'', GString MsgTypeResponse), (bs ''r'', GDict r)]"
  have ok: "gval_ok (GDict ?d)"
    using assms unfolding gval_ok_GDict [of ?d] by (simp add: maxAlloc_def msg_names)
  then have d: "distinct (map fst ?d)" by simp
  from Encode_decodes [OF ok] obtain b where b: "Encode (GDict ?d) = Inr b" "DecodeDict b = Inr (norm_dict ?d)"
    by blast
  have "DecodeMessage b = Inr \<lparr>TransactionID = tid, Type = MsgTypeResponse, Query = [],
           Args = None, Response = Some (norm_dict r), Error = None\<rparr>"
    unfolding DecodeMessage_def b(2) sum.case accessors_norm_dict [OF d]
    by (simp add: accessor_defs empty_message_def msg_names)
  with b(1) show ?thesis by blast
qed

section \<open>Abstract messages\<close>

text \<open>
  The queries and replies of the protocol, free of bencode. \<open>None\<close> as the port of an
  announcement is \<open>implied_port\<close>: the receiver uses the sender's source port.
\<close>

datatype query =
    PingQ
  | FindNodeQ node_id
  | GetPeersQ info_hash
  | AnnouncePeerQ info_hash "int option" bytes

datatype reply =
    IdReply
  | FindNodeReply "compact_node list"
  | NodesReply bytes "compact_node list"
  | PeersReply bytes "compact_peer list"

fun encode_query :: "bytes \<Rightarrow> node_id \<Rightarrow> query \<Rightarrow> bytes res" where
  "encode_query tid nodeID PingQ = EncodePing tid nodeID"
| "encode_query tid nodeID (FindNodeQ target) = EncodeFindNode tid nodeID target"
| "encode_query tid nodeID (GetPeersQ h) = EncodeGetPeers tid nodeID h"
| "encode_query tid nodeID (AnnouncePeerQ h port token) =
     EncodeAnnouncePeer tid nodeID h (case port of None \<Rightarrow> 0 | Some p \<Rightarrow> p) token (port = None)"

fun encode_reply :: "bytes \<Rightarrow> node_id \<Rightarrow> reply \<Rightarrow> bytes res" where
  "encode_reply tid nodeID IdReply = EncodePingResponse tid nodeID"
| "encode_reply tid nodeID (FindNodeReply nodes) = EncodeFindNodeResponse tid nodeID nodes"
| "encode_reply tid nodeID (NodesReply token nodes) = EncodeGetPeersResponseNodes tid nodeID token nodes"
| "encode_reply tid nodeID (PeersReply token peers) = EncodeGetPeersResponsePeers tid nodeID token peers"

fun query_ok :: "query \<Rightarrow> bool" where
  "query_ok (AnnouncePeerQ h port token) =
     (int (length token) \<le> maxAlloc \<and> (case port of None \<Rightarrow> True | Some p \<Rightarrow> 0 \<le> p \<and> p < 2 ^ 16))"
| "query_ok _ = True"

fun reply_ok :: "reply \<Rightarrow> bool" where
  "reply_ok IdReply = True"
| "reply_ok (FindNodeReply nodes) = (26 * int (length nodes) \<le> maxAlloc)"
| "reply_ok (NodesReply token nodes) = (int (length token) \<le> maxAlloc \<and> 26 * int (length nodes) \<le> maxAlloc)"
| "reply_ok (PeersReply token peers) = (int (length token) \<le> maxAlloc)"

text \<open>What the receiver reads: the extractors applied to a decoded message.\<close>

definition query_of :: "message \<Rightarrow> (node_id \<times> query) option" where
  "query_of m =
     (case GetQueryNodeID m of
        None \<Rightarrow> None
      | Some i \<Rightarrow>
          map_option (Pair i)
            (if Type m \<noteq> MsgTypeQuery then None
             else if Query m = QueryPing then Some PingQ
             else if Query m = QueryFindNode then map_option FindNodeQ (GetTarget m)
             else if Query m = QueryGetPeers then map_option GetPeersQ (GetInfoHash m)
             else if Query m = QueryAnnouncePeer then
               (case (GetInfoHash m, GetToken m) of
                  (Some h, Some token) \<Rightarrow> Some (AnnouncePeerQ h (GetPort m) token)
                | _ \<Rightarrow> None)
             else None))"

fun reply_read :: "reply \<Rightarrow> message \<Rightarrow> bool" where
  "reply_read IdReply m = (GetResponseNodes m = [] \<and> GetResponsePeers m = [] \<and> GetResponseToken m = None)"
| "reply_read (FindNodeReply nodes) m =
     (GetResponseNodes m = map wire_node nodes \<and> GetResponsePeers m = [] \<and> GetResponseToken m = None)"
| "reply_read (NodesReply token nodes) m =
     (GetResponseNodes m = map wire_node nodes \<and> GetResponsePeers m = [] \<and> GetResponseToken m = Some token)"
| "reply_read (PeersReply token peers) m =
     (GetResponsePeers m = map wire_peer peers \<and> GetResponseNodes m = [] \<and> GetResponseToken m = Some token)"

lemma FromBytes_arr_bytes: "FromBytes (arr_bytes i) = Inr i"
  by (simp add: FromBytes_def IDLength_def)

lemmas message_read = extractors accessor_norm_dict_values FromBytes_arr_bytes

lemma query_roundtripI:
  assumes "int (length tid) \<le> maxAlloc" and "int (length name) \<le> maxAlloc" and "gval_ok (GDict a)"
    and "encode_query tid nodeID q = Encode (GDict [(bs ''t'', GBytes tid),
      (bs ''y'', GString MsgTypeQuery), (bs ''q'', GString name), (bs ''a'', GDict a)])"
    and "\<And>m. Type m = MsgTypeQuery \<Longrightarrow> Query m = name \<Longrightarrow> Args m = Some (norm_dict a)
      \<Longrightarrow> query_of m = Some (nodeID, q)"
  shows "\<exists>b m. encode_query tid nodeID q = Inr b \<and> DecodeMessage b = Inr m
    \<and> TransactionID m = tid \<and> query_of m = Some (nodeID, q)"
proof -
  let ?m = "\<lparr>TransactionID = tid, Type = MsgTypeQuery, Query = name,
    Args = Some (norm_dict a), Response = None, Error = None\<rparr>"
  have "query_of ?m = Some (nodeID, q)" by (rule assms(5)) simp_all
  moreover have "TransactionID ?m = tid" by simp
  ultimately show ?thesis using Encode_query [OF assms(1-3)] assms(4) by metis
qed

lemma reply_roundtripI:
  assumes "int (length tid) \<le> maxAlloc" and "gval_ok (GDict r)"
    and "encode_reply tid nodeID q = Encode (GDict [(bs ''t'', GBytes tid),
      (bs ''y'', GString MsgTypeResponse), (bs ''r'', GDict r)])"
    and "map_of r (bs ''id'') = Some (GBytes (arr_bytes nodeID))"
    and "\<And>m. Response m = Some (norm_dict r) \<Longrightarrow> reply_read q m"
  shows "\<exists>b m. encode_reply tid nodeID q = Inr b \<and> DecodeMessage b = Inr m
    \<and> TransactionID m = tid \<and> Type m = MsgTypeResponse
    \<and> (\<exists>d. Response m = Some d \<and> GetBytes d (bs ''id'') = Some (arr_bytes nodeID))
    \<and> reply_read q m"
proof -
  let ?m = "\<lparr>TransactionID = tid, Type = MsgTypeResponse, Query = [],
    Args = None, Response = Some (norm_dict r), Error = None\<rparr>"
  have "reply_read q ?m" by (rule assms(5)) simp
  moreover have "GetBytes (norm_dict r) (bs ''id'') = Some (arr_bytes nodeID)"
    using assms(2,4) by (intro accessor_norm_dict_values(1)) simp_all
  moreover have "TransactionID ?m = tid" "Type ?m = MsgTypeResponse" "Response ?m = Some (norm_dict r)"
    by simp_all
  ultimately show ?thesis using Encode_reply [OF assms(1-2)] assms(3) by metis
qed

lemma query_roundtrip:
  assumes "int (length tid) \<le> maxAlloc" and "query_ok q"
  shows "\<exists>b m. encode_query tid nodeID q = Inr b \<and> DecodeMessage b = Inr m
    \<and> TransactionID m = tid \<and> query_of m = Some (nodeID, q)"
proof (cases q)
  case PingQ
  show ?thesis unfolding PingQ
    by (rule query_roundtripI [OF assms(1), of QueryPing "[(bs ''id'', GBytes (arr_bytes nodeID))]"])
      (simp_all add: EncodePing_def query_of_def msg_names maxAlloc_def message_read)
next
  case (FindNodeQ target)
  show ?thesis unfolding FindNodeQ
    by (rule query_roundtripI [OF assms(1), of QueryFindNode
        "[(bs ''id'', GBytes (arr_bytes nodeID)), (bs ''target'', GBytes (arr_bytes target))]"])
      (simp_all add: EncodeFindNode_def query_of_def msg_names maxAlloc_def message_read)
next
  case (GetPeersQ h)
  show ?thesis unfolding GetPeersQ
    by (rule query_roundtripI [OF assms(1), of QueryGetPeers
        "[(bs ''id'', GBytes (arr_bytes nodeID)), (bs ''info_hash'', GBytes (arr_bytes h))]"])
      (simp_all add: EncodeGetPeers_def query_of_def msg_names maxAlloc_def message_read)
next
  case (AnnouncePeerQ h port token)
  have port: "\<And>p. port = Some p \<Longrightarrow> sint (word_of_int p :: int64) = p"
    using assms(2) AnnouncePeerQ by (intro sint_int64_of_int) auto
  show ?thesis unfolding AnnouncePeerQ
    by (rule query_roundtripI [OF assms(1), of QueryAnnouncePeer
        "[(bs ''id'', GBytes (arr_bytes nodeID)), (bs ''info_hash'', GBytes (arr_bytes h)),
          (bs ''port'', GInt (word_of_int (case port of None \<Rightarrow> 0 | Some p \<Rightarrow> p))),
          (bs ''token'', GBytes token), (bs ''implied_port'', GInt (if port = None then 1 else 0))]"])
      (use assms(2) AnnouncePeerQ port in \<open>auto simp: EncodeAnnouncePeer_def query_of_def msg_names
        maxAlloc_def message_read split: option.splits\<close>)
qed

lemma reply_roundtrip:
  assumes "int (length tid) \<le> maxAlloc" and "reply_ok q"
  shows "\<exists>b m. encode_reply tid nodeID q = Inr b \<and> DecodeMessage b = Inr m
    \<and> TransactionID m = tid \<and> Type m = MsgTypeResponse
    \<and> (\<exists>d. Response m = Some d \<and> GetBytes d (bs ''id'') = Some (arr_bytes nodeID))
    \<and> reply_read q m"
proof (cases q)
  case IdReply
  show ?thesis unfolding IdReply
    by (rule reply_roundtripI [OF assms(1), of "[(bs ''id'', GBytes (arr_bytes nodeID))]"])
      (simp_all add: EncodePingResponse_def maxAlloc_def message_read)
next
  case (FindNodeReply nodes)
  show ?thesis unfolding FindNodeReply
    by (rule reply_roundtripI [OF assms(1), of "[(bs ''id'', GBytes (arr_bytes nodeID)),
        (bs ''nodes'', GBytes (EncodeCompactNodes nodes))]"])
      (use assms(2) FindNodeReply in \<open>simp_all add: EncodeFindNodeResponse_def maxAlloc_def message_read
        DecodeCompactNodes_Encode\<close>)
next
  case (NodesReply token nodes)
  show ?thesis unfolding NodesReply
    by (rule reply_roundtripI [OF assms(1), of "[(bs ''id'', GBytes (arr_bytes nodeID)),
        (bs ''token'', GBytes token), (bs ''nodes'', GBytes (EncodeCompactNodes nodes))]"])
      (use assms(2) NodesReply in \<open>simp_all add: EncodeGetPeersResponseNodes_def maxAlloc_def message_read
        DecodeCompactNodes_Encode\<close>)
next
  case (PeersReply token peers)
  show ?thesis unfolding PeersReply
    by (rule reply_roundtripI [OF assms(1), of "[(bs ''id'', GBytes (arr_bytes nodeID)),
        (bs ''token'', GBytes token), (bs ''values'', GList (map (\<lambda>p. GBytes (EncodeCompactPeer p)) peers))]"])
      (use assms(2) PeersReply in \<open>simp_all add: EncodeGetPeersResponsePeers_def maxAlloc_def message_read
        comp_def peers_of_values_Encode\<close>)
qed

lemma put_get_uint16: "put_uint16 (get_uint16 a b) = [a, b]"
proof -
  have "ucast (drop_bit 8 (get_uint16 a b)) = a"
    by (rule bit_word_eqI) (auto simp: get_uint16_def bit_simps dest: bit_imp_le_length)
  moreover have "ucast (get_uint16 a b) = b"
    by (rule bit_word_eqI) (auto simp: get_uint16_def bit_simps dest: bit_imp_le_length)
  ultimately show ?thesis by (simp add: put_uint16_def)
qed

lemma ip4_field_4: "length ip = 4 \<Longrightarrow> ip4_field ip = ip"
  by (simp add: ip4_field_def To4_def)

lemma compact_node_bytes_wire: "compact_node_bytes (wire_node n) = compact_node_bytes n"
proof -
  have "port_field (cn_Port n mod 2 ^ 16) = port_field (cn_Port n)"
    using word_of_int_uint [of "word_of_int (cn_Port n) :: uint16"]
    by (simp add: port_field_def uint_word_of_int)
  then show ?thesis by (simp add: compact_node_bytes_def wire_node_def ip4_field_4)
qed

lemma compact_node_bytes_surj:
  assumes "length d = 26"
  obtains n where "d = compact_node_bytes n"
proof
  have "drop 24 d = d ! 24 # drop 25 d" "drop 25 d = d ! 25 # drop 26 d" "drop 26 d = []"
    using assms Cons_nth_drop_Suc [of 24 d] Cons_nth_drop_Suc [of 25 d] by simp_all
  then have "drop 4 (drop 20 d) = [d ! 24, d ! 25]" by simp
  then have "d = take 20 d @ take 4 (drop 20 d) @ [d ! 24, d ! 25]"
    using append_take_drop_id [of 20 d] append_take_drop_id [of 4 "drop 20 d"] by simp
  then show "d = compact_node_bytes \<lparr>cn_ID = arr20_of (take 20 d), cn_IP = take 4 (drop 20 d),
      cn_Port = uint (get_uint16 (d ! 24) (d ! 25))\<rparr>"
    using assms by (simp add: compact_node_bytes_def port_field_def put_get_uint16 ip4_field_4)
qed

lemma EncodeCompactNodes_Decode:
  "length data = 26 * k \<Longrightarrow> EncodeCompactNodes (DecodeCompactNodes data) = data"
proof (induction k arbitrary: data)
  case 0
  then show ?case by (simp add: DecodeCompactNodes_def EncodeCompactNodes_def)
next
  case (Suc k)
  let ?r = "drop 26 data"
  have r: "length ?r = 26 * k" using Suc.prems by simp
  have "length (take 26 data) = 26" using Suc.prems by simp
  then obtain n where n: "take 26 data = compact_node_bytes n" by (rule compact_node_bytes_surj)
  have data: "data = compact_node_bytes n @ ?r" by (metis n append_take_drop_id)
  have "DecodeCompactNodes data = wire_node n # DecodeCompactNodes ?r"
    using DecodeCompactNodes_step [of ?r n] r data by simp
  then have "EncodeCompactNodes (DecodeCompactNodes data) = compact_node_bytes n @ ?r"
    using Suc.IH [OF r] by (simp add: EncodeCompactNodes_def compact_node_bytes_wire)
  with data show ?case by simp
qed

section \<open>Properties\<close>

text \<open>C27: Every query survives the wire. What the four query encoders write, for any
  transaction id and arguments of the protocol's ranges, \<open>DecodeMessage\<close> and the extractors
  read back: same transaction, sender, method and arguments; an announcement with
  \<open>implied_port\<close> reads as one without a port.\<close>

theorem krpc_query_roundtrip:
  assumes "int (length tid) \<le> maxAlloc" and "query_ok q"
  shows "\<exists>b m. encode_query tid nodeID q = Inr b \<and> DecodeMessage b = Inr m
    \<and> TransactionID m = tid \<and> query_of m = Some (nodeID, q)"
  using assms by (rule query_roundtrip)

theorem krpc_query_roundtrip_witness:
  "\<exists>b m. encode_query [0, 7] zeroID (AnnouncePeerQ zeroID (Some 6881) [1, 2, 3, 4]) = Inr b
     \<and> DecodeMessage b = Inr m \<and> TransactionID m = [0, 7]
     \<and> query_of m = Some (zeroID, AnnouncePeerQ zeroID (Some 6881) [1, 2, 3, 4])"
  by (rule krpc_query_roundtrip) (simp_all add: maxAlloc_def)

text \<open>C28: Every reply survives the wire. The receiver of a reply reads the transaction id,
  the sender's identifier, the token and the nodes or peers that were encoded, addresses as
  four bytes and ports modulo \<open>2^16\<close>, and nothing that was not sent.\<close>

theorem krpc_reply_roundtrip:
  assumes "int (length tid) \<le> maxAlloc" and "reply_ok q"
  shows "\<exists>b m. encode_reply tid nodeID q = Inr b \<and> DecodeMessage b = Inr m
    \<and> TransactionID m = tid \<and> Type m = MsgTypeResponse
    \<and> (\<exists>d. Response m = Some d \<and> GetBytes d (bs ''id'') = Some (arr_bytes nodeID))
    \<and> reply_read q m"
  using assms by (rule reply_roundtrip)

theorem krpc_reply_roundtrip_witness:
  "\<exists>b m. encode_reply [9] zeroID (PeersReply [1] [\<lparr>cp_IP = [10, 0, 0, 1], cp_Port = 80\<rparr>]) = Inr b
     \<and> DecodeMessage b = Inr m
     \<and> reply_read (PeersReply [1] [\<lparr>cp_IP = [10, 0, 0, 1], cp_Port = 80\<rparr>]) m"
  using krpc_reply_roundtrip [of "[9]" "PeersReply [1] [\<lparr>cp_IP = [10, 0, 0, 1], cp_Port = 80\<rparr>]" zeroID]
  by (auto simp: maxAlloc_def)

text \<open>Compact node lists. Decoding an encoded list gives its nodes, in order, in wire
  form; encoding a decoded byte string gives it back; and a string whose length is no
  multiple of 26 decodes to no node.\<close>

lemma compact_nodes_roundtrip:
  "DecodeCompactNodes (EncodeCompactNodes ns) = map wire_node ns
   \<and> EncodeCompactNodes (DecodeCompactNodes data) = (if length data mod 26 = 0 then data else [])"
proof (cases "length data mod 26 = 0")
  case True
  then obtain k where "length data = 26 * k" by (auto simp: mod_eq_0_iff_dvd dvd_def)
  with True show ?thesis by (simp add: DecodeCompactNodes_Encode EncodeCompactNodes_Decode)
next
  case False
  then show ?thesis
    by (simp add: DecodeCompactNodes_Encode) (simp add: DecodeCompactNodes_def EncodeCompactNodes_def)
qed

end
