(* ===== verification/Go_Chan.thy ===== *)
theory Go_Chan
  imports Crawl_Prelude
begin

text \<open>
  Go's buffered channels as far as the program uses them: a bounded queue with a closed
  flag. The senders of the program use a \<open>select\<close> with a \<open>default\<close> branch, which drops the
  value when the buffer is full; a send on a closed channel panics even there.
\<close>

record 'a chan =
  ch_buf :: "'a list"
  ch_cap :: nat
  ch_closed :: bool

definition make_chan :: "nat \<Rightarrow> 'a chan" where
  "make_chan n = \<lparr>ch_buf = [], ch_cap = n, ch_closed = False\<rparr>"

definition try_send :: "'a \<Rightarrow> 'a chan \<Rightarrow> (bool \<times> 'a chan) res" where
  "try_send x c =
     (if ch_closed c then Inl (Panic SendOnClosed)
      else if length (ch_buf c) < ch_cap c then Inr (True, c\<lparr>ch_buf := ch_buf c @ [x]\<rparr>)
      else Inr (False, c))"

definition recv :: "'a chan \<Rightarrow> 'a option \<times> 'a chan" where
  "recv c = (case ch_buf c of [] \<Rightarrow> (None, c) | x # xs \<Rightarrow> (Some x, c\<lparr>ch_buf := xs\<rparr>))"

definition close_chan :: "'a chan \<Rightarrow> 'a chan res" where
  "close_chan c = (if ch_closed c then Inl (Panic CloseOfClosed) else Inr (c\<lparr>ch_closed := True\<rparr>))"

definition chan_ok :: "'a chan \<Rightarrow> bool" where
  "chan_ok c \<longleftrightarrow> length (ch_buf c) \<le> ch_cap c"

lemma chan_ok_make [simp]: "chan_ok (make_chan n)"
  by (simp add: chan_ok_def make_chan_def)

lemma make_chan_fields [simp]:
  "ch_buf (make_chan n) = []" "ch_cap (make_chan n) = n" "\<not> ch_closed (make_chan n)"
  by (simp_all add: make_chan_def)

lemma try_send_open:
  "\<not> ch_closed c \<Longrightarrow> try_send x c =
     Inr (length (ch_buf c) < ch_cap c,
       c\<lparr>ch_buf := ch_buf c @ (if length (ch_buf c) < ch_cap c then [x] else [])\<rparr>)"
  by (cases c) (simp add: try_send_def)

lemma try_send_closed: "ch_closed c \<Longrightarrow> try_send x c = Inl (Panic SendOnClosed)"
  by (simp add: try_send_def)

lemma try_send_Inl [simp]: "try_send x c = Inl f \<longleftrightarrow> ch_closed c \<and> f = Panic SendOnClosed"
  by (auto simp: try_send_def)

lemma try_send_Inr:
  "try_send x c = Inr (b, c') \<longleftrightarrow> \<not> ch_closed c \<and> b = (length (ch_buf c) < ch_cap c)
     \<and> c' = c\<lparr>ch_buf := ch_buf c @ (if b then [x] else [])\<rparr>"
  by (cases c) (auto simp: try_send_def)

lemma chan_ok_try_send [wf_intros]:
  "chan_ok c \<Longrightarrow> try_send x c = Inr (b, c') \<Longrightarrow> chan_ok c'"
  by (auto simp: try_send_Inr chan_ok_def)

lemma chan_ok_recv [wf_intros]: "chan_ok c \<Longrightarrow> chan_ok (snd (recv c))"
  by (auto simp: recv_def chan_ok_def split: list.split)

lemma recv_cap [simp]: "ch_cap (snd (recv c)) = ch_cap c" "ch_closed (snd (recv c)) = ch_closed c"
  by (simp_all add: recv_def split: list.split)

end
