(* ===== verification/Machine.thy ===== *)
theory Machine
  imports Crawl_Prelude
begin

text \<open>
  Machines: the goroutines of a component as operations on one state, a run of them in any order,
  and the one induction that carries an invariant from a single operation to a run. A fault (a panic)
  ends the run, as it ends the process. A second interface, \<open>progressing\<close>, adds a rank and final states.
\<close>

fun run_ops :: "('op \<Rightarrow> 's \<Rightarrow> 's res) \<Rightarrow> 'op list \<Rightarrow> 's \<Rightarrow> 's res" where
  "run_ops step [] s = Inr s"
| "run_ops step (op # ops) s = (case step op s of Inl f \<Rightarrow> Inl f | Inr s' \<Rightarrow> run_ops step ops s')"

lemma run_ops_Cons:
  "run_ops step (op # ops) s = Inr s2 \<longleftrightarrow> (\<exists>s1. step op s = Inr s1 \<and> run_ops step ops s1 = Inr s2)"
  by (simp split: sum.split)

lemma run_ops_append:
  "run_ops step (xs @ ys) s = (case run_ops step xs s of Inl f \<Rightarrow> Inl f | Inr s' \<Rightarrow> run_ops step ys s')"
  by (induction xs arbitrary: s) (simp_all split: sum.split)

text \<open>An invariant of the operations a run may contain.\<close>

locale machine =
  fixes step :: "'op \<Rightarrow> 's \<Rightarrow> 's res"
    and inv :: "'s \<Rightarrow> bool"
    and ok :: "'op \<Rightarrow> bool"
  assumes keeps: "inv s \<Longrightarrow> ok op \<Longrightarrow> step op s = Inr s' \<Longrightarrow> inv s'"
begin

lemma run_keeps: "run_ops step ops s = Inr s' \<Longrightarrow> inv s \<Longrightarrow> list_all ok ops \<Longrightarrow> inv s'"
proof (induction ops arbitrary: s)
  case (Cons op ops)
  then obtain s1 where "step op s = Inr s1" "run_ops step ops s1 = Inr s'" by (auto split: sum.splits)
  with Cons.IH Cons.prems(2,3) show ?case using keeps [of s op s1] by simp
qed simp

text \<open>A run that faults does so at an operation that starts in the invariant.\<close>

lemma run_faults:
  assumes "run_ops step ops s = Inl f" and "inv s" and "list_all ok ops"
  shows "\<exists>before op after s1. ops = before @ op # after \<and> run_ops step before s = Inr s1 \<and> inv s1
    \<and> step op s1 = Inl f"
  using assms
proof (induction ops arbitrary: s)
  case (Cons op ops)
  show ?case
  proof (cases "step op s")
    case (Inl e)
    then have "op # ops = [] @ op # ops \<and> run_ops step [] s = Inr s \<and> inv s \<and> step op s = Inl f"
      using Cons.prems by simp
    then show ?thesis by blast
  next
    case (Inr s1)
    then have "run_ops step ops s1 = Inl f" "inv s1" "list_all ok ops"
      using Cons.prems keeps by auto
    from Cons.IH [OF this] obtain before x after s2 where
      "ops = before @ x # after \<and> run_ops step before s1 = Inr s2 \<and> inv s2 \<and> step x s2 = Inl f"
      by blast
    then have "op # ops = (op # before) @ x # after \<and> run_ops step (op # before) s = Inr s2 \<and> inv s2
        \<and> step x s2 = Inl f"
      using Inr by simp
    then show ?thesis by blast
  qed
qed simp

end

text \<open>How many operations of a run change the state.\<close>

fun changes :: "('op \<Rightarrow> 's \<Rightarrow> 's res) \<Rightarrow> 'op list \<Rightarrow> 's \<Rightarrow> nat" where
  "changes step [] s = 0"
| "changes step (op # ops) s =
     (case step op s of Inl f \<Rightarrow> 0 | Inr s' \<Rightarrow> (if s' = s then 0 else 1) + changes step ops s')"

text \<open>
  Progress: a rank that every operation that changes the state lowers, and in every state that is
  not final an operation that does. A run then changes the state at most as often as the rank says,
  and a run that can no longer change the state has ended in a final one.
\<close>

locale progressing = machine +
  fixes rank :: "'b \<Rightarrow> nat" and final :: "'b \<Rightarrow> bool"
  assumes lowers: "inv s \<Longrightarrow> ok op \<Longrightarrow> step op s = Inr s' \<Longrightarrow> s' = s \<or> rank s' < rank s"
    and enabled: "inv s \<Longrightarrow> \<not> final s \<Longrightarrow> \<exists>op s'. ok op \<and> step op s = Inr s' \<and> s' \<noteq> s"
begin

lemma run_changes:
  "run_ops step ops s = Inr s' \<Longrightarrow> inv s \<Longrightarrow> list_all ok ops \<Longrightarrow> changes step ops s + rank s' \<le> rank s"
proof (induction ops arbitrary: s)
  case (Cons op ops)
  then obtain s1 where s1: "step op s = Inr s1" "run_ops step ops s1 = Inr s'" by (auto split: sum.splits)
  have "inv s1" "s1 = s \<or> rank s1 < rank s" using keeps [OF _ _ s1(1)] lowers [OF _ _ s1(1)] Cons.prems by simp_all
  with Cons.IH [OF s1(2)] Cons.prems(3) s1(1) show ?case by auto
qed simp

lemma reaches_final:
  assumes "inv s"
  shows "\<exists>ops s'. list_all ok ops \<and> run_ops step ops s = Inr s' \<and> final s' \<and> inv s' \<and> length ops \<le> rank s"
  using assms
proof (induction "rank s" arbitrary: s rule: less_induct)
  case less
  show ?case
  proof (cases "final s")
    case True
    then have "list_all ok [] \<and> run_ops step [] s = Inr s \<and> final s \<and> inv s \<and> length [] \<le> rank s"
      using less.prems by simp
    then show ?thesis by blast
  next
    case False
    then obtain op s1 where s1: "ok op" "step op s = Inr s1" "s1 \<noteq> s" using enabled less.prems by blast
    then have r: "rank s1 < rank s" "inv s1" using lowers keeps less.prems by blast+
    from less.hyps [OF this] obtain ops s' where
      "list_all ok ops" "run_ops step ops s1 = Inr s'" "final s'" "inv s'" "length ops \<le> rank s1" by blast
    with s1 r(1) have "list_all ok (op # ops) \<and> run_ops step (op # ops) s = Inr s' \<and> final s' \<and> inv s'
        \<and> length (op # ops) \<le> rank s" by simp
    then show ?thesis by blast
  qed
qed

lemma stuck_final: "inv s \<Longrightarrow> (\<And>op s'. ok op \<Longrightarrow> step op s = Inr s' \<Longrightarrow> s' = s) \<Longrightarrow> final s"
  using enabled by blast

end

text \<open>
  The trace of a run: what each operation shows, given the states before and after it. Two observations
  are in account when the one owes, for everything the other shows, what \<open>spec\<close> makes of it, in that order,
  and the state knows what is still owed.
\<close>

fun observed :: "('op \<Rightarrow> 's \<Rightarrow> 's \<Rightarrow> 'e list) \<Rightarrow> ('op \<Rightarrow> 's \<Rightarrow> 's res) \<Rightarrow> 'op list \<Rightarrow> 's \<Rightarrow> 'e list" where
  "observed obs step [] s = []"
| "observed obs step (op # ops) s =
     (case step op s of Inl f \<Rightarrow> [] | Inr s' \<Rightarrow> obs op s s' @ observed obs step ops s')"

locale account = machine +
  fixes taken :: "'a \<Rightarrow> 'b \<Rightarrow> 'b \<Rightarrow> 'c list" and produced :: "'a \<Rightarrow> 'b \<Rightarrow> 'b \<Rightarrow> 'd list"
    and spec :: "'c \<Rightarrow> 'd list" and owed :: "'b \<Rightarrow> 'd list"
  assumes balance: "inv s \<Longrightarrow> ok op \<Longrightarrow> step op s = Inr s' \<Longrightarrow>
    produced op s s' @ owed s' = owed s @ concat (map spec (taken op s s'))"
begin

lemma run_balance:
  "run_ops step ops s = Inr s' \<Longrightarrow> inv s \<Longrightarrow> list_all ok ops \<Longrightarrow>
    observed produced step ops s @ owed s' = owed s @ concat (map spec (observed taken step ops s))"
proof (induction ops arbitrary: s)
  case (Cons op ops)
  then obtain s1 where s1: "step op s = Inr s1" "run_ops step ops s1 = Inr s'" by (auto split: sum.splits)
  have "inv s1" using keeps [OF _ _ s1(1)] Cons.prems by simp
  with Cons.IH [OF s1(2)] Cons.prems(3) have
    "observed produced step ops s1 @ owed s' = owed s1 @ concat (map spec (observed taken step ops s1))" by simp
  moreover have "produced op s s1 @ owed s1 = owed s @ concat (map spec (taken op s s1))"
    using balance [OF _ _ s1(1)] Cons.prems by simp
  ultimately show ?case using s1(1) by simp
qed simp

end

end
