(* ===== verification/Dht_Node.thy ===== *)
theory Dht_Node
  imports Go_Chan KRPC Routing Machine "HOL-Library.Sublist"
begin

text \<open>
  \<open>internal/dht/node.go\<close>: one DHT node. Its state is the record \<open>dht_node\<close>; a datagram is
  handled by \<open>handleMessage\<close>, the periodic work by \<open>activeQuery\<close>, \<open>refresh\<close>, the bootstrap
  functions and \<open>rotateSecrets\<close>. Datagrams written to the socket are appended to \<open>sent\<close>
  (write errors are ignored by the code). Time, datagrams and random bytes are arguments.

  Each operation runs as one step. The code holds no lock for the length of a handler: \<open>readLoop\<close> starts a
  goroutine per datagram, which locks the table, the secrets and the transactions one after the other, so the
  handlers of two datagrams of one node can overlap there, and a rotation can come between the
  insertion of a sender and the token it gets. The model runs them one after the other. Of the state
  of a node each of these locks, each atomic counter, the channel and the socket is used by a handler at
  most once, apart from the table, which an
  insertion changes first and a search reads later; and the search's result holds pointers, whose addresses
  the handler reads after the table's lock is released. The routing table is nil until \<open>Start\<close> assigns
  \<open>NewRoutingTable(n.ID)\<close>, before any goroutine of the node runs: the model's node has that
  table from its creation, and \<open>Start_node\<close> (theory \<open>Startup\<close>) assigns it again.
\<close>

section \<open>State\<close>

datatype event_type = EventGetPeers | EventAnnounce

record event =
  ev_Type :: event_type
  ev_InfoHash :: info_hash
  ev_PeerIP :: bytes
  ev_PeerPort :: int

text \<open>
  \<open>pendingTxns\<close> maps a transaction id to the reply channel of the lookup that waits for it,
  an index into \<open>replyChans\<close>, the channels made so far.
\<close>

record dht_node =
  ID :: node_id
  Port :: int
  routingTable :: routing_table
  eventChan :: "event chan"
  bootstraps :: "bytes list"
  tokenSecret :: bytes
  lastSecret :: bytes
  queriesReceived :: uint64
  queriesSent :: uint64
  getPeersCount :: uint64
  announceCount :: uint64
  pendingTxns :: "bytes \<Rightarrow> nat option"
  replyChans :: "message chan list"
  txnIDCounter :: uint16
  sent :: "(udp_addr \<times> bytes) list"

definition NewNode :: "bytes \<Rightarrow> node_id \<Rightarrow> int \<Rightarrow> event chan \<Rightarrow> bytes list \<Rightarrow> dht_node" where
  "NewNode secret i port ec boots =
     \<lparr>ID = i, Port = port, routingTable = NewRoutingTable i, eventChan = ec, bootstraps = boots,
      tokenSecret = secret, lastSecret = secret,
      queriesReceived = 0, queriesSent = 0, getPeersCount = 0, announceCount = 0,
      pendingTxns = Map.empty, replyChans = [], txnIDCounter = 0, sent = []\<rparr>"

section \<open>Tokens\<close>

text \<open>
  The loop \<open>for i := 0; i < len(secret) && i < 4; i++\<close> that writes \<open>secret[i] ^ ip[i%len(ip)]\<close>
  into a buffer; the remainder by the length of an empty address panics.
\<close>

definition token_fill :: "bytes \<Rightarrow> bytes \<Rightarrow> bytes \<Rightarrow> bytes res" where
  "token_fill secret ip buf =
     (if secret \<noteq> [] \<and> ip = [] then Inl (Panic DivideByZero)
      else Inr (foldl (\<lambda>b i. b[i := secret ! i XOR ip ! (i mod length ip)]) buf
                 [0..<min (length secret) 4]))"

definition generateToken :: "dht_node \<Rightarrow> bytes \<Rightarrow> bytes res" where
  "generateToken n ip = token_fill (tokenSecret n) ip (replicate 8 0)"

definition validateToken :: "dht_node \<Rightarrow> bytes \<Rightarrow> bytes \<Rightarrow> bool res" where
  "validateToken n token ip =
     (case token_fill (tokenSecret n) ip (replicate 8 0) of
        Inl e \<Rightarrow> Inl e
      | Inr expected \<Rightarrow>
          if length token > 8 then Inl (Panic SliceBounds)
          else if token = take (length token) expected then Inr True
          else
            (case token_fill (lastSecret n) ip expected of
               Inl e \<Rightarrow> Inl e
             | Inr expected' \<Rightarrow> Inr (token = take (length token) expected')))"

definition rotateSecrets :: "bytes \<Rightarrow> dht_node \<Rightarrow> dht_node" where
  "rotateSecrets fresh n = n\<lparr>lastSecret := tokenSecret n, tokenSecret := fresh\<rparr>"

section \<open>Sending\<close>

definition nextTxnID :: "dht_node \<Rightarrow> bytes \<times> dht_node" where
  "nextTxnID n = (let i = txnIDCounter n + 1 in (put_uint16 i, n\<lparr>txnIDCounter := i\<rparr>))"

text \<open>The message a caller writes when it ignores the encoder's error: nil for an error.\<close>

definition msg_bytes :: "bytes res \<Rightarrow> bytes" where
  "msg_bytes r = (case r of Inl _ \<Rightarrow> [] | Inr b \<Rightarrow> b)"

definition WriteToUDP :: "bytes res \<Rightarrow> udp_addr \<Rightarrow> dht_node \<Rightarrow> dht_node" where
  "WriteToUDP r addr n = n\<lparr>sent := sent n @ [(addr, msg_bytes r)]\<rparr>"

definition send_query :: "(bytes \<Rightarrow> bytes res) \<Rightarrow> udp_addr \<Rightarrow> dht_node \<Rightarrow> dht_node" where
  "send_query enc addr n =
     (let (tid, n1) = nextTxnID n; n2 = WriteToUDP (enc tid) addr n1 in
      n2\<lparr>queriesSent := queriesSent n2 + 1\<rparr>)"

definition send_find_node :: "node_id \<Rightarrow> udp_addr \<Rightarrow> dht_node \<Rightarrow> dht_node" where
  "send_find_node target addr n = send_query (\<lambda>tid. EncodeFindNode tid (ID n) target) addr n"

definition activeQuery :: "info_hash \<Rightarrow> dht_node \<Rightarrow> dht_node" where
  "activeQuery randomHash n =
     (let target = (case FromBytes (arr_bytes randomHash) of Inl _ \<Rightarrow> zeroID | Inr t \<Rightarrow> t);
          closest = FindClosest (routingTable n) target 3 in
      foldl (\<lambda>n node. send_query (\<lambda>tid. EncodeGetPeers tid (ID n) randomHash) (UDPAddr node) n)
        n closest)"

definition refresh_one :: "dht_node \<Rightarrow> node_id \<Rightarrow> dht_node" where
  "refresh_one n target =
     foldl (\<lambda>n node. send_find_node target (UDPAddr node) n) n
       (FindClosest (routingTable n) target 3)"

definition refresh :: "(nat \<Rightarrow> node_id) \<Rightarrow> dht_node \<Rightarrow> dht_node" where
  "refresh rnd n = foldl refresh_one n (map rnd [0..<10])"

text \<open>
  \<open>Bootstrap\<close>: first the bootstrap addresses that resolve are asked for the node's own
  identifier and three random ones, then, three times, the nearest \<open>2 K\<close> known nodes. The
  code sleeps in between, so other steps interleave and the two parts are two operations.
\<close>

definition bootstrap_contact ::
  "(bytes \<Rightarrow> udp_addr option) \<Rightarrow> (nat \<Rightarrow> nat \<Rightarrow> node_id) \<Rightarrow> dht_node \<Rightarrow> dht_node" where
  "bootstrap_contact resolve rnd n =
     foldl (\<lambda>n (k, a).
        case resolve a of
          None \<Rightarrow> n
        | Some udpAddr \<Rightarrow>
            foldl (\<lambda>n i. send_find_node (rnd k i) udpAddr n)
              (send_find_node (ID n) udpAddr n) [0..<3])
       n (enumerate 0 (bootstraps n))"

definition bootstrap_round :: "(nat \<Rightarrow> node_id) \<Rightarrow> dht_node \<Rightarrow> dht_node" where
  "bootstrap_round rnd n =
     foldl (\<lambda>n (k, node). send_find_node (rnd k) (UDPAddr node) (send_find_node (ID n) (UDPAddr node) n))
       n (enumerate 0 (FindClosest (routingTable n) (ID n) (K * 2)))"

text \<open>
  The first half of a lookup's goroutine in \<open>FindPeers\<close>: it registers a reply channel of
  capacity one under a new transaction id and sends the query.
\<close>

definition query_peers :: "info_hash \<Rightarrow> routing_node \<Rightarrow> dht_node \<Rightarrow> dht_node" where
  "query_peers infoHash node n =
     (let (tid, n1) = nextTxnID n;
          n2 = n1\<lparr>replyChans := replyChans n1 @ [make_chan 1],
                  pendingTxns := (pendingTxns n1)(tid \<mapsto> length (replyChans n1))\<rparr>;
          n3 = WriteToUDP (EncodeGetPeers tid (ID n2) infoHash) (UDPAddr node) n2 in
      n3\<lparr>queriesSent := queriesSent n3 + 1\<rparr>)"

section \<open>Handlers\<close>

definition insert_node :: "int \<Rightarrow> node_id \<Rightarrow> bytes \<Rightarrow> int \<Rightarrow> dht_node \<Rightarrow> dht_node" where
  "insert_node now i ip port n = n\<lparr>routingTable := snd (Insert (routingTable n) i ip port now)\<rparr>"

definition compact_of :: "routing_node \<Rightarrow> compact_node" where
  "compact_of node = \<lparr>cn_ID = rn_ID node, cn_IP = rn_IP node, cn_Port = rn_Port node\<rparr>"

definition handlePing :: "message \<Rightarrow> udp_addr \<Rightarrow> dht_node \<Rightarrow> dht_node" where
  "handlePing msg addr n = WriteToUDP (EncodePingResponse (TransactionID msg) (ID n)) addr n"

definition handleFindNode :: "message \<Rightarrow> udp_addr \<Rightarrow> dht_node \<Rightarrow> dht_node" where
  "handleFindNode msg addr n =
     (case GetTarget msg of
        None \<Rightarrow> n
      | Some target \<Rightarrow>
          let nodes = map compact_of (FindClosest (routingTable n) target K) in
          WriteToUDP (EncodeFindNodeResponse (TransactionID msg) (ID n) nodes) addr n)"

definition handleGetPeers :: "message \<Rightarrow> udp_addr \<Rightarrow> dht_node \<Rightarrow> dht_node res" where
  "handleGetPeers msg addr n =
     (case GetInfoHash msg of
        None \<Rightarrow> Inr n
      | Some infoHash \<Rightarrow>
          let n1 = n\<lparr>getPeersCount := getPeersCount n + 1\<rparr> in
          (case try_send \<lparr>ev_Type = EventGetPeers, ev_InfoHash = infoHash,
                          ev_PeerIP = ua_IP addr, ev_PeerPort = ua_Port addr\<rparr> (eventChan n1) of
             Inl e \<Rightarrow> Inl e
           | Inr (_, c) \<Rightarrow>
               let n2 = n1\<lparr>eventChan := c\<rparr>;
                   target = (case FromBytes (arr_bytes infoHash) of Inl _ \<Rightarrow> zeroID | Inr t \<Rightarrow> t);
                   nodes = map compact_of (FindClosest (routingTable n2) target K) in
               (case generateToken n2 (ua_IP addr) of
                  Inl e \<Rightarrow> Inl e
                | Inr token \<Rightarrow>
                    Inr (WriteToUDP
                      (EncodeGetPeersResponseNodes (TransactionID msg) (ID n2) token nodes) addr n2))))"

definition handleAnnouncePeer :: "message \<Rightarrow> udp_addr \<Rightarrow> dht_node \<Rightarrow> dht_node res" where
  "handleAnnouncePeer msg addr n =
     (case GetInfoHash msg of
        None \<Rightarrow> Inr n
      | Some infoHash \<Rightarrow>
          (case GetToken msg of
             None \<Rightarrow> Inr n
           | Some token \<Rightarrow>
               (case validateToken n token (ua_IP addr) of
                  Inl e \<Rightarrow> Inl e
                | Inr False \<Rightarrow> Inr n
                | Inr True \<Rightarrow>
                    let n1 = n\<lparr>announceCount := announceCount n + 1\<rparr>;
                        btPort = (case GetPort msg of None \<Rightarrow> ua_Port addr | Some p \<Rightarrow> p) in
                    (case try_send \<lparr>ev_Type = EventAnnounce, ev_InfoHash = infoHash,
                                    ev_PeerIP = ua_IP addr, ev_PeerPort = btPort\<rparr> (eventChan n1) of
                       Inl e \<Rightarrow> Inl e
                     | Inr (_, c) \<Rightarrow>
                         let n2 = n1\<lparr>eventChan := c\<rparr> in
                         Inr (WriteToUDP
                           (EncodeAnnouncePeerResponse (TransactionID msg) (ID n2)) addr n2)))))"

definition handleQuery :: "int \<Rightarrow> message \<Rightarrow> udp_addr \<Rightarrow> dht_node \<Rightarrow> dht_node res" where
  "handleQuery now msg addr n =
     (let n = (case GetQueryNodeID msg of
                 None \<Rightarrow> n | Some i \<Rightarrow> insert_node now i (ua_IP addr) (ua_Port addr) n) in
      if Query msg = QueryPing then Inr (handlePing msg addr n)
      else if Query msg = QueryFindNode then Inr (handleFindNode msg addr n)
      else if Query msg = QueryGetPeers then handleGetPeers msg addr n
      else if Query msg = QueryAnnouncePeer then handleAnnouncePeer msg addr n
      else Inr n)"

definition deliver :: "message \<Rightarrow> dht_node \<Rightarrow> dht_node res" where
  "deliver msg n =
     (case pendingTxns n (TransactionID msg) of
        None \<Rightarrow> Inr n
      | Some k \<Rightarrow>
          let n = n\<lparr>pendingTxns := (pendingTxns n)(TransactionID msg := None)\<rparr> in
          (case try_send msg (replyChans n ! k) of
             Inl e \<Rightarrow> Inl e
           | Inr (_, c) \<Rightarrow> Inr (n\<lparr>replyChans := (replyChans n)[k := c]\<rparr>)))"

definition handleResponse :: "int \<Rightarrow> message \<Rightarrow> udp_addr \<Rightarrow> dht_node \<Rightarrow> dht_node res" where
  "handleResponse now msg addr n =
     (let n = (case Response msg of
                 None \<Rightarrow> n
               | Some r \<Rightarrow>
                   (case map_of r (bs ''id'') of
                      Some (GBytes idBytes) \<Rightarrow>
                        (case FromBytes idBytes of
                           Inl _ \<Rightarrow> n
                         | Inr i \<Rightarrow> insert_node now i (ua_IP addr) (ua_Port addr) n)
                    | _ \<Rightarrow> n)) in
      case deliver msg n of
        Inl e \<Rightarrow> Inl e
      | Inr n \<Rightarrow>
          Inr (foldl (\<lambda>n node. insert_node now (cn_ID node) (cn_IP node) (cn_Port node) n)
                 n (GetResponseNodes msg)))"

definition handleMessage :: "int \<Rightarrow> bytes \<Rightarrow> udp_addr \<Rightarrow> dht_node \<Rightarrow> dht_node res" where
  "handleMessage now data addr n =
     (case DecodeMessage data of
        Inl (Panic p) \<Rightarrow> Inl (Panic p)
      | Inl (Err _) \<Rightarrow> Inr n
      | Inr msg \<Rightarrow>
          let n = n\<lparr>queriesReceived := queriesReceived n + 1\<rparr> in
          if Type msg = MsgTypeQuery then handleQuery now msg addr n
          else if Type msg = MsgTypeResponse then handleResponse now msg addr n
          else Inr n)"

definition Stats :: "dht_node \<Rightarrow> uint64 \<times> uint64 \<times> uint64 \<times> uint64 \<times> nat" where
  "Stats n = (queriesReceived n, queriesSent n, getPeersCount n, announceCount n,
     Size (routingTable n))"

section \<open>What the token functions compute\<close>

text \<open>
  A token is the first four bytes of the secret XORed with the address, repeated as often
  as needed, and four zeros.
\<close>

definition token_of :: "bytes \<Rightarrow> bytes \<Rightarrow> bytes" where
  "token_of secret ip = map (\<lambda>i. secret ! i XOR ip ! (i mod length ip)) [0..<4] @ replicate 4 0"

lemma length_token_of [simp]: "length (token_of secret ip) = 8"
  by (simp add: token_of_def)

lemma foldl_update_prefix:
  "m \<le> length buf \<Longrightarrow> foldl (\<lambda>b i. b[i := f i]) buf [0..<m] = map f [0..<m] @ drop m buf"
proof (induction m)
  case (Suc m)
  then have "drop m buf = buf ! m # drop (Suc m) buf" by (simp add: Cons_nth_drop_Suc)
  with Suc show ?case by (simp add: list_update_append)
qed simp

lemma token_fill_value:
  assumes "4 \<le> length secret" and "ip \<noteq> []" and "length buf = 8" and "drop 4 buf = replicate 4 0"
  shows "token_fill secret ip buf = Inr (token_of secret ip)"
  using assms foldl_update_prefix [of 4 buf "\<lambda>i. secret ! i XOR ip ! (i mod length ip)"]
  by (simp add: token_fill_def token_of_def min_def)

lemma take_length_prefix: "xs = take (length xs) ys \<longleftrightarrow> prefix xs ys"
  by (metis append_eq_conv_conj prefix_def)

lemma generateToken_value:
  "4 \<le> length (tokenSecret n) \<Longrightarrow> ip \<noteq> [] \<Longrightarrow> generateToken n ip = Inr (token_of (tokenSecret n) ip)"
  by (simp add: generateToken_def token_fill_value)

lemma validateToken_value:
  assumes "4 \<le> length (tokenSecret n)" and "4 \<le> length (lastSecret n)" and "ip \<noteq> []"
  shows "validateToken n token ip =
    (if length token > 8 then Inl (Panic SliceBounds)
     else Inr (prefix token (token_of (tokenSecret n) ip) \<or> prefix token (token_of (lastSecret n) ip)))"
proof -
  have "token_fill (tokenSecret n) ip (replicate 8 0) = Inr (token_of (tokenSecret n) ip)"
    using assms by (intro token_fill_value) simp_all
  moreover have "token_fill (lastSecret n) ip (token_of (tokenSecret n) ip)
      = Inr (token_of (lastSecret n) ip)"
    using assms by (intro token_fill_value) (simp_all add: token_of_def)
  ultimately show ?thesis by (simp add: validateToken_def take_length_prefix)
qed

text \<open>
  The interface of tokens that stay valid over one change of the secret: a token made with a
  secret is accepted while that secret is the current or the last one.
\<close>

locale token_scheme =
  fixes gen :: "'s \<Rightarrow> 'ip \<Rightarrow> 't"
    and valid :: "'s \<Rightarrow> 's \<Rightarrow> 't \<Rightarrow> 'ip \<Rightarrow> bool"
  assumes valid_current: "valid s l (gen s ip) ip"
    and valid_last: "valid c s (gen s ip) ip"
begin

lemma valid_after_rotation:
  assumes "length ss \<le> 1" and "(c', l') = foldl (\<lambda>(c, l) s. (s, c)) (c, l) ss"
  shows "valid c' l' (gen c ip) ip"
proof (cases ss)
  case Nil
  then show ?thesis using assms(2) valid_current by simp
next
  case (Cons s rest)
  then have "rest = []" using assms(1) by simp
  then show ?thesis using assms(2) valid_last Cons by simp
qed

end

definition token_valid :: "bytes \<Rightarrow> bytes \<Rightarrow> bytes \<Rightarrow> bytes \<Rightarrow> bool" where
  "token_valid c l token ip \<longleftrightarrow>
     length token \<le> 8 \<and> (prefix token (token_of c ip) \<or> prefix token (token_of l ip))"

interpretation tokens: token_scheme token_of token_valid
  by unfold_locales (simp_all add: token_valid_def)

lemma validateToken_iff:
  assumes "4 \<le> length (tokenSecret n)" and "4 \<le> length (lastSecret n)" and "ip \<noteq> []"
  shows "validateToken n token ip = Inr True \<longleftrightarrow> token_valid (tokenSecret n) (lastSecret n) token ip"
  using assms by (auto simp: validateToken_value token_valid_def)

section \<open>What the sending operations change\<close>

text \<open>
  \<open>sends k n n'\<close>: exactly \<open>k\<close> queries were sent and counted, each a well-formed query in the
  node's name under the next transaction id, and nothing else changed.
\<close>

definition tagged :: "node_id \<Rightarrow> uint16 \<Rightarrow> udp_addr \<times> bytes \<Rightarrow> bool" where
  "tagged i t d \<longleftrightarrow> (\<exists>m q. DecodeMessage (snd d) = Inr m \<and> TransactionID m = put_uint16 t
     \<and> query_of m = Some (i, q))"

definition sends :: "nat \<Rightarrow> dht_node \<Rightarrow> dht_node \<Rightarrow> bool" where
  "sends k n n' \<longleftrightarrow> (\<exists>qs. length qs = k
     \<and> (\<forall>i < k. tagged (ID n) (txnIDCounter n + of_nat (Suc i)) (qs ! i))
     \<and> n' = n\<lparr>sent := sent n @ qs, queriesSent := queriesSent n + of_nat k,
              txnIDCounter := txnIDCounter n + of_nat k\<rparr>)"

lemma sends_refl: "sends 0 n n"
  by (simp add: sends_def)

lemma sends_trans:
  assumes "sends j n n1" and "sends k n1 n2"
  shows "sends (j + k) n n2"
proof -
  from assms obtain q r where q: "length q = j" "length r = k"
    "\<forall>i < j. tagged (ID n) (txnIDCounter n + of_nat (Suc i)) (q ! i)"
    "n1 = n\<lparr>sent := sent n @ q, queriesSent := queriesSent n + of_nat j,
            txnIDCounter := txnIDCounter n + of_nat j\<rparr>"
    and r: "\<forall>i < k. tagged (ID n1) (txnIDCounter n1 + of_nat (Suc i)) (r ! i)"
    "n2 = n1\<lparr>sent := sent n1 @ r, queriesSent := queriesSent n1 + of_nat k,
            txnIDCounter := txnIDCounter n1 + of_nat k\<rparr>"
    by (auto simp: sends_def)
  have "tagged (ID n) (txnIDCounter n + of_nat (Suc i)) ((q @ r) ! i)" if "i < j + k" for i
  proof (cases "i < j")
    case True
    with q show ?thesis by (simp add: nth_append)
  next
    case False
    then have i: "i = j + (i - j)" "i - j < k" using that by simp_all
    have "tagged (ID n1) (txnIDCounter n1 + of_nat (Suc (i - j))) (r ! (i - j))" using r(1) i(2) by blast
    moreover have "txnIDCounter n1 + of_nat (Suc (i - j)) = txnIDCounter n + of_nat (Suc i)"
      using i(1) by (subst i(1)) (simp add: q(4) add_ac del: add_diff_inverse_nat le_add_diff_inverse)
    moreover have "(q @ r) ! i = r ! (i - j)" "ID n1 = ID n" using False q by (simp_all add: nth_append)
    ultimately show ?thesis by metis
  qed
  with q r show ?thesis unfolding sends_def by (intro exI [of _ "q @ r"]) (simp add: add_ac)
qed

lemma sends_query:
  assumes "\<And>tid. enc tid = encode_query tid (ID n) q" and "query_ok q"
  shows "sends 1 n (send_query enc addr n)"
proof -
  let ?t = "txnIDCounter n + 1"
  have "int (length (put_uint16 ?t)) \<le> maxAlloc" by (simp add: maxAlloc_def)
  from query_roundtrip [OF this assms(2), of "ID n"] obtain b m where
    "encode_query (put_uint16 ?t) (ID n) q = Inr b" "DecodeMessage b = Inr m"
    "TransactionID m = put_uint16 ?t" "query_of m = Some (ID n, q)" by blast
  then have "tagged (ID n) ?t (addr, msg_bytes (enc (put_uint16 ?t)))"
    by (auto simp: tagged_def msg_bytes_def assms(1))
  then show ?thesis
    unfolding sends_def send_query_def nextTxnID_def WriteToUDP_def Let_def
    by (cases n) (simp add: exI [of _ "[_]"])
qed

lemma sends_find_node: "sends 1 n (send_find_node target addr n)"
  unfolding send_find_node_def by (rule sends_query [where q = "FindNodeQ target"]) simp_all

lemma sends_get_peers: "sends 1 n (send_query (\<lambda>tid. EncodeGetPeers tid (ID n) h) addr n)"
  by (rule sends_query [where q = "GetPeersQ h"]) simp_all

lemma sends_foldl:
  assumes "\<And>n x. sends k n (f n x)"
  shows "sends (k * length xs) n (foldl f n xs)"
proof (induction xs arbitrary: n)
  case (Cons x xs)
  from sends_trans [OF assms Cons.IH] show ?case by simp
qed (simp add: sends_refl)

lemma sends_queries:
  assumes "\<And>n x. sends 1 n (f n x)"
  shows "sends (length xs) n (foldl f n xs)"
  using sends_foldl [where k = 1, OF assms] by simp

lemma sends_activeQuery: "\<exists>k \<le> 3. sends k n (activeQuery h n)"
  unfolding activeQuery_def Let_def
  by (rule exI, rule conjI [OF _ sends_queries [OF sends_get_peers]]) (simp add: length_FindClosest)

lemma sends_refresh_one: "\<exists>k \<le> 3. sends k n (refresh_one n target)"
  unfolding refresh_one_def
  by (rule exI, rule conjI [OF _ sends_queries [OF sends_find_node]]) (simp add: length_FindClosest)

lemma sends_foldl_le:
  assumes "\<And>n x. \<exists>k \<le> m. sends k n (f n x)"
  shows "\<exists>k \<le> m * length xs. sends k n (foldl f n xs)"
proof (induction xs arbitrary: n)
  case (Cons x xs)
  from assms obtain j where j: "j \<le> m" "sends j n (f n x)" by blast
  from Cons.IH obtain k where "k \<le> m * length xs" "sends k (f n x) (foldl f (f n x) xs)" by blast
  with j sends_trans show ?case by (fastforce intro: exI [of _ "j + k"])
qed (use sends_refl in auto)

lemma sends_refresh: "\<exists>k \<le> 30. sends k n (refresh rnd n)"
  using sends_foldl_le [where f = refresh_one and m = 3 and xs = "map rnd [0..<10]", OF sends_refresh_one]
  by (simp add: refresh_def)

lemma sends_bootstrap_round:
  "sends (2 * min (K * 2) (Size (routingTable n))) n (bootstrap_round rnd n)"
proof -
  let ?f = "\<lambda>n (k, node).
      send_find_node (rnd k) (UDPAddr node) (send_find_node (ID n) (UDPAddr node) n)"
  have "sends 2 n (?f n x)" for n x
    using sends_trans [OF sends_find_node sends_find_node]
    by (simp only: one_add_one split: prod.split) simp
  from sends_foldl [OF this, of "enumerate 0 (FindClosest (routingTable n) (ID n) (K * 2))" n]
  show ?thesis by (simp add: bootstrap_round_def length_FindClosest)
qed

lemma sends_bootstrap_contact:
  "\<exists>k \<le> 4 * length (bootstraps n). sends k n (bootstrap_contact resolve rnd n)"
proof -
  let ?f = "\<lambda>n (k, a). case resolve a of
         None \<Rightarrow> n
       | Some u \<Rightarrow> foldl (\<lambda>n i. send_find_node (rnd k i) u n) (send_find_node (ID n) u n) [0..<3]"
  have four: "sends (1 + length [0..<(3::nat)]) n
      (foldl (\<lambda>n i. send_find_node (rnd k i) a n) (send_find_node (ID n) a n) [0..<3])" for n k a
    by (rule sends_trans [OF sends_find_node sends_queries [OF sends_find_node]])
  have "\<exists>j \<le> 4. sends j n (?f n x)" for n x
  proof (cases x)
    case (Pair k a)
    then show ?thesis using sends_refl [of n] four by (cases "resolve a") auto
  qed
  from sends_foldl_le [OF this, of "enumerate 0 (bootstraps n)" n]
  show ?thesis by (simp add: bootstrap_contact_def)
qed

section \<open>Invariant\<close>

text \<open>
  The table is well-formed and about the node itself, the event buffer is within its
  capacity, the secrets have 16 bytes, and every pending transaction has a reply channel of
  its own that is open and still empty.
\<close>

definition wf_replies :: "dht_node \<Rightarrow> bool" where
  "wf_replies n \<longleftrightarrow> (\<forall>c \<in> set (replyChans n). ch_cap c = 1 \<and> \<not> ch_closed c \<and> chan_ok c)
     \<and> (\<forall>t k. pendingTxns n t = Some k \<longrightarrow> k < length (replyChans n) \<and> ch_buf (replyChans n ! k) = [])
     \<and> inj_on (pendingTxns n) (dom (pendingTxns n))"

definition wf_node :: "dht_node \<Rightarrow> bool" where
  "wf_node n \<longleftrightarrow> wf_table (routingTable n) \<and> localID (routingTable n) = ID n
     \<and> chan_ok (eventChan n) \<and> length (tokenSecret n) = 16 \<and> length (lastSecret n) = 16
     \<and> wf_replies n"

lemma wf_NewNode:
  "length secret = 16 \<Longrightarrow> chan_ok ec \<Longrightarrow> wf_node (NewNode secret i port ec boots)"
  by (simp add: wf_node_def wf_replies_def NewNode_def wf_table_NewRoutingTable)

lemma wf_sends [wf_intros]: "sends k n n' \<Longrightarrow> wf_node n \<Longrightarrow> wf_node n'"
  by (auto simp: sends_def wf_node_def wf_replies_def)

lemma sends_fields:
  assumes "sends k n n'"
  shows "ID n' = ID n" "tokenSecret n' = tokenSecret n" "lastSecret n' = lastSecret n"
    "eventChan n' = eventChan n" "routingTable n' = routingTable n"
  using assms by (auto simp: sends_def)

lemma wf_WriteToUDP [wf_intros]: "wf_node n \<Longrightarrow> wf_node (WriteToUDP r addr n)"
  by (simp add: wf_node_def wf_replies_def WriteToUDP_def)

lemma wf_insert_node [wf_intros]: "wf_node n \<Longrightarrow> wf_node (insert_node now i ip port n)"
  by (simp add: wf_node_def wf_replies_def insert_node_def wf_Insert localID_Insert)

lemma insert_node_fields [simp]:
  "ID (insert_node now i ip port n) = ID n"
  "tokenSecret (insert_node now i ip port n) = tokenSecret n"
  "lastSecret (insert_node now i ip port n) = lastSecret n"
  "eventChan (insert_node now i ip port n) = eventChan n"
  "pendingTxns (insert_node now i ip port n) = pendingTxns n"
  "replyChans (insert_node now i ip port n) = replyChans n"
  "announceCount (insert_node now i ip port n) = announceCount n"
  "getPeersCount (insert_node now i ip port n) = getPeersCount n"
  "sent (insert_node now i ip port n) = sent n"
  "routingTable (insert_node now i ip port n) = snd (Insert (routingTable n) i ip port now)"
  by (simp_all add: insert_node_def)

text \<open>The nodes of a response are inserted one by one.\<close>

definition insert_all :: "int \<Rightarrow> compact_node list \<Rightarrow> dht_node \<Rightarrow> dht_node" where
  "insert_all now ns n =
     foldl (\<lambda>n node. insert_node now (cn_ID node) (cn_IP node) (cn_Port node) n) n ns"

lemma insert_all_fields [simp]:
  "ID (insert_all now ns n) = ID n" "tokenSecret (insert_all now ns n) = tokenSecret n"
  "lastSecret (insert_all now ns n) = lastSecret n" "eventChan (insert_all now ns n) = eventChan n"
  "pendingTxns (insert_all now ns n) = pendingTxns n" "replyChans (insert_all now ns n) = replyChans n"
  "announceCount (insert_all now ns n) = announceCount n" "sent (insert_all now ns n) = sent n"
  "getPeersCount (insert_all now ns n) = getPeersCount n"
  by (induction ns arbitrary: n) (simp_all add: insert_all_def)

lemma routingTable_insert_all:
  "routingTable (insert_all now ns n) =
     foldl (\<lambda>t m. snd (Insert t (cn_ID m) (cn_IP m) (cn_Port m) now)) (routingTable n) ns"
  by (induction ns arbitrary: n) (simp_all add: insert_all_def)

lemma wf_insert_all [wf_intros]: "wf_node n \<Longrightarrow> wf_node (insert_all now ns n)"
  by (induction ns arbitrary: n) (simp_all add: insert_all_def wf_insert_node)

lemma deliver_cases:
  assumes "wf_replies n"
  shows "pendingTxns n (TransactionID msg) = None \<Longrightarrow> deliver msg n = Inr n"
    and "pendingTxns n (TransactionID msg) = Some k \<Longrightarrow>
      deliver msg n = Inr (n\<lparr>pendingTxns := (pendingTxns n)(TransactionID msg := None),
        replyChans := (replyChans n)[k := (replyChans n ! k)\<lparr>ch_buf := [msg]\<rparr>]\<rparr>)"
proof -
  assume k: "pendingTxns n (TransactionID msg) = Some k"
  then have "k < length (replyChans n)" "ch_buf (replyChans n ! k) = []" "replyChans n ! k \<in> set (replyChans n)"
    using assms by (auto simp: wf_replies_def)
  with assms have "ch_buf (replyChans n ! k) = []" "ch_cap (replyChans n ! k) = 1" "\<not> ch_closed (replyChans n ! k)"
    by (auto simp: wf_replies_def)
  with k show "deliver msg n = Inr (n\<lparr>pendingTxns := (pendingTxns n)(TransactionID msg := None),
        replyChans := (replyChans n)[k := (replyChans n ! k)\<lparr>ch_buf := [msg]\<rparr>]\<rparr>)"
    by (simp add: deliver_def try_send_open)
qed (simp add: deliver_def)

lemma deliver_total: "wf_replies n \<Longrightarrow> \<exists>n'. deliver msg n = Inr n'"
  using deliver_cases by (metis not_Some_eq)

lemma deliver_fields:
  assumes "deliver msg n = Inr n'"
  shows "ID n' = ID n" "tokenSecret n' = tokenSecret n" "lastSecret n' = lastSecret n"
    "eventChan n' = eventChan n" "routingTable n' = routingTable n"
    "announceCount n' = announceCount n" "getPeersCount n' = getPeersCount n" "sent n' = sent n"
  using assms by (auto simp: deliver_def Let_def split: option.splits sum.splits prod.splits)

lemma wf_replies_deliver:
  assumes "wf_replies n" and "deliver msg n = Inr n'"
  shows "wf_replies n'"
proof (cases "pendingTxns n (TransactionID msg)")
  case None
  then show ?thesis using assms deliver_cases(1) [OF assms(1) None] by simp
next
  case (Some k)
  let ?t = "TransactionID msg"
  have k: "k < length (replyChans n)" and inj: "inj_on (pendingTxns n) (dom (pendingTxns n))"
    using assms(1) Some by (auto simp: wf_replies_def)
  have other: "j \<noteq> k" if "pendingTxns n u = Some j" "u \<noteq> ?t" for u j
    using that Some inj_onD [OF inj, of u ?t] by auto
  have "inj_on ((pendingTxns n)(?t := None)) (dom ((pendingTxns n)(?t := None)))"
    using inj by (auto simp: inj_on_def split: if_splits)
  moreover have n': "n' = n\<lparr>pendingTxns := (pendingTxns n)(?t := None),
      replyChans := (replyChans n)[k := (replyChans n ! k)\<lparr>ch_buf := [msg]\<rparr>]\<rparr>"
    using assms deliver_cases(2) [OF assms(1) Some] by simp
  moreover have "ch_cap c = 1 \<and> \<not> ch_closed c \<and> chan_ok c"
    if "c \<in> set ((replyChans n)[k := (replyChans n ! k)\<lparr>ch_buf := [msg]\<rparr>])" for c
    using set_update_subset_insert [THEN subsetD, OF that] assms(1) nth_mem [OF k]
    by (auto simp: wf_replies_def chan_ok_def)
  moreover have "pendingTxns n u = Some j \<Longrightarrow> j < length (replyChans n) \<and> ch_buf (replyChans n ! j) = []" for u j
    using assms(1) by (simp add: wf_replies_def)
  moreover have "(replyChans n)[k := c] ! j = replyChans n ! j"
    if "pendingTxns n u = Some j" "u \<noteq> ?t" for u j c
    using other [OF that] by simp
  ultimately show ?thesis unfolding wf_replies_def by auto
qed

lemma wf_deliver [wf_intros]: "wf_node n \<Longrightarrow> deliver msg n = Inr n' \<Longrightarrow> wf_node n'"
  using wf_replies_deliver [of n msg n'] deliver_fields [of msg n n'] by (auto simp: wf_node_def)

lemma wf_query_peers [wf_intros]:
  assumes "wf_node n"
  shows "wf_node (query_peers h node n)"
proof -
  have r: "wf_replies n" using assms by (simp add: wf_node_def)
  let ?t = "put_uint16 (txnIDCounter n + 1)" and ?k = "length (replyChans n)"
  have old: "k < ?k \<and> ch_buf (replyChans n ! k) = []" if "pendingTxns n t = Some k" for t k
    using r that by (auto simp: wf_replies_def)
  then have "?k \<noteq> k" if "pendingTxns n t = Some k" for t k using that by blast
  then have "inj_on ((pendingTxns n)(?t \<mapsto> ?k)) (dom ((pendingTxns n)(?t \<mapsto> ?k)))"
    using r by (auto simp: wf_replies_def inj_on_def split: if_splits)
  with old r assms show ?thesis
    by (auto simp: wf_node_def wf_replies_def query_peers_def nextTxnID_def WriteToUDP_def Let_def
        nth_append less_SucI)
qed

lemma wf_handlePing [wf_intros]: "wf_node n \<Longrightarrow> wf_node (handlePing msg addr n)"
  by (simp add: handlePing_def wf_WriteToUDP)

lemma wf_handleFindNode [wf_intros]: "wf_node n \<Longrightarrow> wf_node (handleFindNode msg addr n)"
  by (simp add: handleFindNode_def Let_def wf_WriteToUDP split: option.split)

text \<open>\<open>get_peers\<close> and \<open>announce_peer\<close>, with the node's checks spelled out.\<close>

definition emit :: "event \<Rightarrow> dht_node \<Rightarrow> dht_node" where
  "emit e n = n\<lparr>eventChan := (eventChan n)\<lparr>ch_buf := ch_buf (eventChan n) @
     (if length (ch_buf (eventChan n)) < ch_cap (eventChan n) then [e] else [])\<rparr>\<rparr>"

lemma wf_emit [wf_intros]: "wf_node n \<Longrightarrow> wf_node (emit e n)"
proof -
  have "wf_replies (emit e n) = wf_replies n" by (simp add: wf_replies_def emit_def)
  then show "wf_node n \<Longrightarrow> wf_node (emit e n)" by (simp add: wf_node_def) (simp add: emit_def chan_ok_def)
qed

lemma wf_counts [wf_intros]:
  "wf_node n \<Longrightarrow> wf_node (n\<lparr>getPeersCount := g\<rparr>)" "wf_node n \<Longrightarrow> wf_node (n\<lparr>announceCount := g\<rparr>)"
  "wf_node n \<Longrightarrow> wf_node (n\<lparr>queriesReceived := g\<rparr>)"
  by (simp_all add: wf_node_def wf_replies_def)

lemma FromBytes_hash [simp]: "(case FromBytes (arr_bytes h) of Inl _ \<Rightarrow> zeroID | Inr t \<Rightarrow> t) = h"
  by (simp add: FromBytes_arr_bytes)

definition get_peers_event :: "info_hash \<Rightarrow> udp_addr \<Rightarrow> event" where
  "get_peers_event h addr = \<lparr>ev_Type = EventGetPeers, ev_InfoHash = h,
     ev_PeerIP = ua_IP addr, ev_PeerPort = ua_Port addr\<rparr>"

definition announce_event :: "info_hash \<Rightarrow> message \<Rightarrow> udp_addr \<Rightarrow> event" where
  "announce_event h msg addr = \<lparr>ev_Type = EventAnnounce, ev_InfoHash = h, ev_PeerIP = ua_IP addr,
     ev_PeerPort = (case GetPort msg of None \<Rightarrow> ua_Port addr | Some p \<Rightarrow> p)\<rparr>"

lemma handleGetPeers_value:
  assumes "wf_node n" and "ua_IP addr \<noteq> []"
  shows "handleGetPeers msg addr n =
    (case GetInfoHash msg of
       None \<Rightarrow> Inr n
     | Some h \<Rightarrow>
         if ch_closed (eventChan n) then Inl (Panic SendOnClosed)
         else Inr (WriteToUDP (EncodeGetPeersResponseNodes (TransactionID msg) (ID n)
                (token_of (tokenSecret n) (ua_IP addr))
                (map compact_of (FindClosest (routingTable n) h K))) addr
              (emit (get_peers_event h addr) (n\<lparr>getPeersCount := getPeersCount n + 1\<rparr>))))"
proof -
  have "4 \<le> length (tokenSecret n)" using assms(1) by (simp add: wf_node_def)
  with assms(2) show ?thesis
    by (cases "ch_closed (eventChan n)")
      (auto simp: handleGetPeers_def emit_def get_peers_event_def generateToken_def token_fill_value
        try_send_open try_send_closed FromBytes_arr_bytes Let_def split: option.split)
qed

lemma handleAnnouncePeer_value:
  assumes "wf_node n" and "ua_IP addr \<noteq> []"
  shows "handleAnnouncePeer msg addr n =
    (case (GetInfoHash msg, GetToken msg) of
       (Some h, Some token) \<Rightarrow>
         if length token > 8 then Inl (Panic SliceBounds)
         else if \<not> token_valid (tokenSecret n) (lastSecret n) token (ua_IP addr) then Inr n
         else if ch_closed (eventChan n) then Inl (Panic SendOnClosed)
         else Inr (WriteToUDP (EncodeAnnouncePeerResponse (TransactionID msg) (ID n)) addr
              (emit (announce_event h msg addr) (n\<lparr>announceCount := announceCount n + 1\<rparr>)))
     | _ \<Rightarrow> Inr n)"
proof -
  have l: "4 \<le> length (tokenSecret n)" "4 \<le> length (lastSecret n)"
    using assms(1) by (simp_all add: wf_node_def)
  show ?thesis
    unfolding handleAnnouncePeer_def validateToken_value [OF l assms(2)]
    by (cases "ch_closed (eventChan n)")
      (auto simp: emit_def announce_event_def token_valid_def try_send_open try_send_closed Let_def
        split: option.split)
qed

lemma handleMessage_query:
  assumes "DecodeMessage data = Inr msg" and "Type msg = MsgTypeQuery"
  shows "handleMessage now data addr n = handleQuery now msg addr (n\<lparr>queriesReceived := queriesReceived n + 1\<rparr>)"
  using assms by (simp add: handleMessage_def)

text \<open>The node after the sender of a query has been entered into the table.\<close>

definition greeted :: "int \<Rightarrow> message \<Rightarrow> udp_addr \<Rightarrow> dht_node \<Rightarrow> dht_node" where
  "greeted now msg addr n =
     (case GetQueryNodeID msg of
        None \<Rightarrow> n | Some i \<Rightarrow> insert_node now i (ua_IP addr) (ua_Port addr) n)"

lemma wf_greeted [wf_intros]: "wf_node n \<Longrightarrow> wf_node (greeted now msg addr n)"
  by (simp add: greeted_def wf_insert_node split: option.split)

lemma greeted_fields [simp]:
  "ID (greeted now msg addr n) = ID n" "tokenSecret (greeted now msg addr n) = tokenSecret n"
  "lastSecret (greeted now msg addr n) = lastSecret n" "eventChan (greeted now msg addr n) = eventChan n"
  "announceCount (greeted now msg addr n) = announceCount n" "sent (greeted now msg addr n) = sent n"
  "getPeersCount (greeted now msg addr n) = getPeersCount n"
  by (simp_all add: greeted_def split: option.split)

lemma handleQuery_greeted:
  "handleQuery now msg addr n =
     (let n = greeted now msg addr n in
      if Query msg = QueryPing then Inr (handlePing msg addr n)
      else if Query msg = QueryFindNode then Inr (handleFindNode msg addr n)
      else if Query msg = QueryGetPeers then handleGetPeers msg addr n
      else if Query msg = QueryAnnouncePeer then handleAnnouncePeer msg addr n
      else Inr n)"
  by (simp add: handleQuery_def greeted_def)

definition replied :: "int \<Rightarrow> message \<Rightarrow> udp_addr \<Rightarrow> dht_node \<Rightarrow> dht_node" where
  "replied now msg addr n =
     (case Response msg of
        None \<Rightarrow> n
      | Some r \<Rightarrow>
          (case map_of r (bs ''id'') of
             Some (GBytes idBytes) \<Rightarrow>
               (case FromBytes idBytes of
                  Inl _ \<Rightarrow> n | Inr i \<Rightarrow> insert_node now i (ua_IP addr) (ua_Port addr) n)
           | _ \<Rightarrow> n))"

lemma replied_cases:
  obtains "replied now msg addr n = n"
  | i where "replied now msg addr n = insert_node now i (ua_IP addr) (ua_Port addr) n"
proof -
  have "replied now msg addr n = n
      \<or> (\<exists>i. replied now msg addr n = insert_node now i (ua_IP addr) (ua_Port addr) n)"
    by (auto simp: replied_def split: option.split gval.split sum.split)
  with that show thesis by blast
qed

lemma handleResponse_replied:
  "handleResponse now msg addr n =
     (case deliver msg (replied now msg addr n) of
        Inl e \<Rightarrow> Inl e | Inr n \<Rightarrow> Inr (insert_all now (GetResponseNodes msg) n))"
  by (simp only: handleResponse_def replied_def insert_all_def Let_def)

lemma handleResponse_total:
  assumes "wf_node n"
  shows "\<exists>n'. handleResponse now msg addr n = Inr n' \<and> wf_node n'"
proof -
  have w: "wf_node (replied now msg addr n)"
    using assms by (cases rule: replied_cases [of now msg addr n]) (simp_all add: wf_insert_node)
  then obtain n1 where "deliver msg (replied now msg addr n) = Inr n1"
    using deliver_total by (auto simp: wf_node_def)
  with wf_deliver [OF w this] show ?thesis by (simp add: handleResponse_replied wf_insert_all)
qed

section \<open>Runs\<close>

text \<open>
  A run interleaves the goroutines of a started node: datagrams handled, periodic work,
  rotation of the secret, lookups that register a transaction, and the consumers of the
  event channel and of a reply channel. A panic ends the process.
\<close>

datatype node_op =
    Receive int bytes udp_addr
  | ActiveQuery info_hash
  | Refresh "nat \<Rightarrow> node_id"
  | BootstrapContact "bytes \<Rightarrow> udp_addr option" "nat \<Rightarrow> nat \<Rightarrow> node_id"
  | BootstrapRound "nat \<Rightarrow> node_id"
  | Rotate bytes
  | QueryPeers info_hash routing_node
  | TakeEvent
  | TakeReply nat

fun exec :: "node_op \<Rightarrow> dht_node \<Rightarrow> dht_node res" where
  "exec (Receive now data addr) n = handleMessage now data addr n"
| "exec (ActiveQuery h) n = Inr (activeQuery h n)"
| "exec (Refresh rnd) n = Inr (refresh rnd n)"
| "exec (BootstrapContact resolve rnd) n = Inr (bootstrap_contact resolve rnd n)"
| "exec (BootstrapRound rnd) n = Inr (bootstrap_round rnd n)"
| "exec (Rotate fresh) n = Inr (rotateSecrets fresh n)"
| "exec (QueryPeers h node) n = Inr (query_peers h node n)"
| "exec TakeEvent n = Inr (n\<lparr>eventChan := snd (recv (eventChan n))\<rparr>)"
| "exec (TakeReply k) n =
     Inr (n\<lparr>replyChans := (replyChans n)[k := snd (recv (replyChans n ! k))]\<rparr>)"

abbreviation run :: "node_op list \<Rightarrow> dht_node \<Rightarrow> dht_node res" where
  "run \<equiv> run_ops exec"

text \<open>The runtime's promises: \<open>make([]byte, 16)\<close> has 16 bytes, a source address is not empty.\<close>

fun op_ok :: "node_op \<Rightarrow> bool" where
  "op_ok (Rotate fresh) = (length fresh = 16)"
| "op_ok (Receive now data addr) = (ua_IP addr \<noteq> [])"
| "op_ok _ = True"

fun rotations :: "node_op list \<Rightarrow> bytes list" where
  "rotations [] = []"
| "rotations (Rotate s # ops) = s # rotations ops"
| "rotations (_ # ops) = rotations ops"

lemma handleMessage_wf:
  assumes "wf_node n" and "ua_IP addr \<noteq> []" and "handleMessage now data addr n = Inr n'"
  shows "wf_node n'"
proof (cases "DecodeMessage data")
  case (Inl e)
  then show ?thesis using assms by (cases e) (auto simp: handleMessage_def)
next
  case (Inr msg)
  let ?n = "n\<lparr>queriesReceived := queriesReceived n + 1\<rparr>"
  have w: "wf_node ?n" using assms(1) by (rule wf_counts)
  note wg = wf_greeted [OF w, of now msg addr]
  consider "Type msg = MsgTypeQuery" | "Type msg = MsgTypeResponse" "Type msg \<noteq> MsgTypeQuery"
    | "Type msg \<noteq> MsgTypeResponse" "Type msg \<noteq> MsgTypeQuery" by blast
  then show ?thesis
  proof cases
    case 1
    then have "handleQuery now msg addr ?n = Inr n'"
      using assms(3) Inr by (simp add: handleMessage_def)
    then show ?thesis
      unfolding handleQuery_greeted Let_def handleGetPeers_value [OF wg assms(2)]
        handleAnnouncePeer_value [OF wg assms(2)]
      using wg by (auto intro!: wf_intros split: if_splits option.splits)
  next
    case 2
    then show ?thesis using assms(3) Inr handleResponse_total [OF w, of now msg addr]
      by (auto simp: handleMessage_def)
  qed (use assms Inr w in \<open>auto simp: handleMessage_def\<close>)
qed

lemma sends_ops:
  "\<exists>k. sends k n (activeQuery h n)" "\<exists>k. sends k n (refresh rnd n)"
  "\<exists>k. sends k n (bootstrap_contact resolve rnd2 n)" "\<exists>k. sends k n (bootstrap_round rnd n)"
  using sends_activeQuery sends_refresh sends_bootstrap_contact sends_bootstrap_round by blast+

lemma exec_wf:
  assumes "wf_node n" and "op_ok op" and "exec op n = Inr n'"
  shows "wf_node n'"
proof (cases op)
  case (TakeReply k)
  let ?l = "(replyChans n)[k := snd (recv (replyChans n ! k))]"
  have r: "wf_replies n" using assms(1) by (simp add: wf_node_def)
  have same: "?l ! j = replyChans n ! j" if "pendingTxns n t = Some j" for t j
  proof (cases "j = k \<and> k < length (replyChans n)")
    case True
    then have "snd (recv (replyChans n ! k)) = replyChans n ! k"
      using r that by (simp add: wf_replies_def recv_def)
    with True show ?thesis by simp
  qed (auto simp: list_update_beyond not_less)
  have "ch_cap c = 1 \<and> \<not> ch_closed c \<and> chan_ok c" if c: "c \<in> set ?l" for c
  proof (cases "k < length (replyChans n)")
    case True
    then have "c = snd (recv (replyChans n ! k)) \<or> c \<in> set (replyChans n)"
      using set_update_subset_insert [THEN subsetD, OF c] by simp
    then show ?thesis using r nth_mem [OF True] by (auto simp: wf_replies_def chan_ok_recv)
  qed (use r c in \<open>simp add: wf_replies_def list_update_beyond not_less\<close>)
  with same r have "wf_replies (n\<lparr>replyChans := ?l\<rparr>)" by (simp add: wf_replies_def)
  then show ?thesis using assms TakeReply by (auto simp: wf_node_def)
next
  case TakeEvent
  then show ?thesis using assms by (auto simp: wf_node_def wf_replies_def chan_ok_recv)
next
  case (Rotate fresh)
  then show ?thesis using assms by (auto simp: wf_node_def wf_replies_def rotateSecrets_def)
next
  case (Receive now data addr)
  then show ?thesis using assms handleMessage_wf [of n addr now data n'] by simp
next
  case (QueryPeers h node)
  then show ?thesis using assms wf_query_peers by auto
next
  case (ActiveQuery h)
  then show ?thesis using assms sends_ops(1) [of n h] wf_sends by auto
next
  case (Refresh rnd)
  then show ?thesis using assms sends_ops(2) [of n rnd] wf_sends by auto
next
  case (BootstrapContact resolve rnd)
  then show ?thesis using assms sends_ops(3) [of n resolve rnd] wf_sends by auto
next
  case (BootstrapRound rnd)
  then show ?thesis using assms sends_ops(4) [of n rnd] wf_sends by auto
qed

interpretation node: machine exec wf_node op_ok
  by unfold_locales (rule exec_wf)

text \<open>Only a rotation changes the secrets, and nothing changes the identifier.\<close>

lemma handleMessage_keeps:
  assumes "handleMessage now data addr n = Inr n'"
  shows "ID n' = ID n \<and> tokenSecret n' = tokenSecret n \<and> lastSecret n' = lastSecret n"
proof -
  have deliver: "ID n2 = ID n1 \<and> tokenSecret n2 = tokenSecret n1 \<and> lastSecret n2 = lastSecret n1"
    if "deliver m n1 = Inr n2" for m n1 n2 using deliver_fields [OF that] by simp
  have replied: "ID (replied now m addr n1) = ID n1 \<and> tokenSecret (replied now m addr n1) = tokenSecret n1
      \<and> lastSecret (replied now m addr n1) = lastSecret n1" for m n1
    by (cases rule: replied_cases [of now m addr n1]) simp_all
  have "ID n' = ID n1 \<and> tokenSecret n' = tokenSecret n1 \<and> lastSecret n' = lastSecret n1"
    if "handleResponse now m addr n1 = Inr n'" for m n1
    using that deliver replied by (auto simp: handleResponse_replied split: sum.splits)
  moreover have "ID n' = ID n1 \<and> tokenSecret n' = tokenSecret n1 \<and> lastSecret n' = lastSecret n1"
    if "handleQuery now m addr n1 = Inr n'" for m n1
    using that
    by (auto simp: handleQuery_greeted handlePing_def handleFindNode_def handleGetPeers_def
        handleAnnouncePeer_def WriteToUDP_def Let_def split: if_splits option.splits sum.splits bool.splits)
  ultimately show ?thesis
    using assms by (auto simp: handleMessage_def Let_def split: if_splits sum.splits fault.splits)
qed

lemma sends_keeps:
  "\<exists>k. sends k n n' \<Longrightarrow> ID n' = ID n \<and> tokenSecret n' = tokenSecret n \<and> lastSecret n' = lastSecret n"
  using sends_fields by metis

lemma exec_keeps:
  assumes "exec op n = Inr n'"
  shows "ID n' = ID n \<and> (tokenSecret n', lastSecret n')
    = foldl (\<lambda>(c, l) s. (s, c)) (tokenSecret n, lastSecret n) (rotations [op])"
proof (cases op)
  case (Receive now data addr)
  then show ?thesis using assms handleMessage_keeps by simp
next
  case (QueryPeers h node)
  then show ?thesis using assms
    by (auto simp: query_peers_def nextTxnID_def WriteToUDP_def Let_def)
next
  case (ActiveQuery h)
  then show ?thesis using assms sends_keeps [OF sends_ops(1)] by auto
next
  case (Refresh rnd)
  then show ?thesis using assms sends_keeps [OF sends_ops(2)] by auto
next
  case (BootstrapContact resolve rnd)
  then show ?thesis using assms sends_keeps [OF sends_ops(3)] by auto
next
  case (BootstrapRound rnd)
  then show ?thesis using assms sends_keeps [OF sends_ops(4)] by auto
qed (use assms in \<open>auto simp: rotateSecrets_def\<close>)

lemma rotations_Cons: "rotations (op # ops) = rotations [op] @ rotations ops"
  by (cases op) simp_all

lemma run_secrets:
  "run ops n = Inr n' \<Longrightarrow> ID n' = ID n \<and> (tokenSecret n', lastSecret n')
    = foldl (\<lambda>(c, l) s. (s, c)) (tokenSecret n, lastSecret n) (rotations ops)"
proof (induction ops arbitrary: n)
  case (Cons op ops)
  then obtain n1 where n1: "exec op n = Inr n1" "run ops n1 = Inr n'" by (auto split: sum.splits)
  from exec_keeps [OF n1(1)] Cons.IH [OF n1(2)] show ?case
    by (subst rotations_Cons) simp
qed simp

end
