(* ===== verification/Node_Protocol.thy ===== *)
theory Node_Protocol
  imports Dht_Node
begin

text \<open>
  The protocol-level facts of the DHT node: what a run keeps, when a datagram stops the
  process, how queries are answered, where events come from, how tokens live across
  rotations, and how replies reach the lookup that waits for them.
\<close>

section \<open>Handling one datagram\<close>

lemma DecodeMessage_faults:
  "DecodeMessage data = Inl (Panic p) \<Longrightarrow> p = MakeSliceLen \<and> oversized data"
  by (auto simp: DecodeMessage_def DecodeDict_def Decode_def Let_def
      dest: decode_panic_oversized(1) split: sum.splits gval.splits)

lemma DecodeMessage_tid:
  assumes "DecodeMessage data = Inr m"
  shows "int (length (TransactionID m)) \<le> maxAlloc"
proof -
  obtain d where d: "DecodeDict data = Inr d"
    using assms by (auto simp: DecodeMessage_def split: sum.splits)
  have "case DecodeMessage data of Inl _ \<Rightarrow> True | Inr m \<Rightarrow>
      TransactionID m = (case GetBytes d (bs ''t'') of Some t \<Rightarrow> t | None \<Rightarrow> [])"
    unfolding DecodeMessage_def d sum.case Let_def empty_message_def by (simp split: option.split)
  then have t: "TransactionID m = (case GetBytes d (bs ''t'') of Some t \<Rightarrow> t | None \<Rightarrow> [])"
    using assms by simp
  have "int (length b) \<le> maxAlloc" if g: "GetBytes d (bs ''t'') = Some b" for b
  proof -
    obtain v where v: "map_of d (bs ''t'') = Some v" using g by (auto simp: GetBytes_def split: option.splits)
    then have "decoded v" using DecodeDict_decoded [OF d] map_of_SomeD [OF v] by fastforce
    with g v show ?thesis by (cases v) (auto simp: GetBytes_def)
  qed
  then show ?thesis unfolding t by (cases "GetBytes d (bs ''t'')") (simp_all add: maxAlloc_def)
qed

lemma wf_node_received: "wf_node n \<Longrightarrow> wf_node (greeted now msg addr (n\<lparr>queriesReceived := q\<rparr>))"
  by (simp add: wf_greeted wf_counts)

lemma handleMessage_get_peers:
  assumes "wf_node n" and "ua_IP addr \<noteq> []" and "DecodeMessage data = Inr m"
    and "Type m = MsgTypeQuery" and "Query m = QueryGetPeers"
  shows "handleMessage now data addr n =
    handleGetPeers m addr (greeted now m addr (n\<lparr>queriesReceived := queriesReceived n + 1\<rparr>))"
  using assms by (simp add: handleMessage_query handleQuery_greeted msg_names)

lemma handleMessage_announce:
  assumes "wf_node n" and "ua_IP addr \<noteq> []" and "DecodeMessage data = Inr m"
    and "Type m = MsgTypeQuery" and "Query m = QueryAnnouncePeer"
  shows "handleMessage now data addr n =
    handleAnnouncePeer m addr (greeted now m addr (n\<lparr>queriesReceived := queriesReceived n + 1\<rparr>))"
  using assms by (simp add: handleMessage_query handleQuery_greeted msg_names)

lemma query_of_fields:
  assumes "query_of m = Some (i, q)"
  shows "GetQueryNodeID m = Some i" and "Type m = MsgTypeQuery"
    and "q = GetPeersQ h \<Longrightarrow> Query m = QueryGetPeers \<and> GetInfoHash m = Some h"
    and "q = AnnouncePeerQ h port token \<Longrightarrow>
      Query m = QueryAnnouncePeer \<and> GetInfoHash m = Some h \<and> GetToken m = Some token \<and> GetPort m = port"
  using assms by (auto simp: query_of_def split: option.splits if_splits)

lemma emit_fields [simp]:
  "ID (emit e n) = ID n" "tokenSecret (emit e n) = tokenSecret n" "lastSecret (emit e n) = lastSecret n"
  "routingTable (emit e n) = routingTable n" "sent (emit e n) = sent n"
  "announceCount (emit e n) = announceCount n" "getPeersCount (emit e n) = getPeersCount n"
  "ch_buf (eventChan (emit e n)) = ch_buf (eventChan n) @
     (if length (ch_buf (eventChan n)) < ch_cap (eventChan n) then [e] else [])"
  by (simp_all add: emit_def)

lemma WriteToUDP_fields [simp]:
  "ID (WriteToUDP r addr n) = ID n" "eventChan (WriteToUDP r addr n) = eventChan n"
  "routingTable (WriteToUDP r addr n) = routingTable n"
  "sent (WriteToUDP r addr n) = sent n @ [(addr, msg_bytes r)]"
  "announceCount (WriteToUDP r addr n) = announceCount n"
  "getPeersCount (WriteToUDP r addr n) = getPeersCount n"
  by (simp_all add: WriteToUDP_def)

lemma routingTable_greeted:
  "GetQueryNodeID m = Some i \<Longrightarrow>
    routingTable (greeted now m addr n) = snd (Insert (routingTable n) i (ua_IP addr) (ua_Port addr) now)"
  by (simp add: greeted_def)

lemma reply_delivered:
  assumes "wf_node n" and "DecodeMessage data = Inr m" and "Type m = MsgTypeResponse"
  shows "\<exists>n'. handleMessage now data addr n = Inr n' \<and> wf_node n'
    \<and> pendingTxns n' = (pendingTxns n)(TransactionID m := None)
    \<and> map ch_buf (replyChans n') =
        (case pendingTxns n (TransactionID m) of
           None \<Rightarrow> map ch_buf (replyChans n)
         | Some k \<Rightarrow> (map ch_buf (replyChans n))[k := [m]])"
proof -
  let ?n = "n\<lparr>queriesReceived := queriesReceived n + 1\<rparr>" and ?t = "TransactionID m"
  have w: "wf_node ?n" using assms(1) by (rule wf_counts)
  let ?r = "replied now m addr ?n"
  have r: "pendingTxns ?r = pendingTxns n" "replyChans ?r = replyChans n"
    by (cases rule: replied_cases [of now m addr ?n]; simp)+
  have wr: "wf_replies ?r" using w
    by (cases rule: replied_cases [of now m addr ?n]) (simp_all add: wf_node_def wf_replies_def)
  have h: "handleMessage now data addr n = handleResponse now m addr ?n"
    using assms(2,3) by (simp add: handleMessage_def msg_names)
  obtain n' where n': "handleResponse now m addr ?n = Inr n'" "wf_node n'"
    using handleResponse_total [OF w] by blast
  show ?thesis
  proof (cases "pendingTxns n ?t")
    case None
    then have "deliver m ?r = Inr ?r" using deliver_cases(1) [OF wr] r by simp
    with n' h None r show ?thesis by (auto simp: handleResponse_replied fun_upd_idem)
  next
    case (Some k)
    then have "deliver m ?r = Inr (?r\<lparr>pendingTxns := (pendingTxns n)(?t := None),
        replyChans := (replyChans n)[k := (replyChans n ! k)\<lparr>ch_buf := [m]\<rparr>]\<rparr>)"
      using deliver_cases(2) [OF wr, of m k] r by simp
    with n' h Some show ?thesis by (auto simp: handleResponse_replied map_update)
  qed
qed

lemma datagram_faults:
  assumes "wf_node n" and "ua_IP addr \<noteq> []"
  shows "handleMessage now data addr n = Inl f \<longleftrightarrow>
    f = Panic MakeSliceLen \<and> DecodeMessage data = Inl f
    \<or> (\<exists>m h. DecodeMessage data = Inr m \<and> Type m = MsgTypeQuery \<and> GetInfoHash m = Some h
        \<and> (Query m = QueryGetPeers \<and> ch_closed (eventChan n) \<and> f = Panic SendOnClosed
           \<or> Query m = QueryAnnouncePeer
             \<and> (\<exists>t. GetToken m = Some t
                 \<and> (8 < length t \<and> f = Panic SliceBounds
                    \<or> token_valid (tokenSecret n) (lastSecret n) t (ua_IP addr)
                      \<and> ch_closed (eventChan n) \<and> f = Panic SendOnClosed))))"
proof (cases "DecodeMessage data")
  case (Inl e)
  then show ?thesis using DecodeMessage_faults [of data]
    by (cases e) (auto simp: handleMessage_def)
next
  case (Inr m)
  let ?n = "n\<lparr>queriesReceived := queriesReceived n + 1\<rparr>"
  note w = wf_node_received [OF assms(1), of now m addr "queriesReceived n + 1"]
  have resp: "\<exists>n'. handleResponse now m addr ?n = Inr n'"
    using handleResponse_total [OF wf_counts(3) [OF assms(1)]] by blast
  have v: "token_valid c l t ip \<Longrightarrow> length t \<le> 8" for c l t ip by (simp add: token_valid_def)
  show ?thesis
  proof (cases "Type m = MsgTypeQuery")
    case True
    show ?thesis
      unfolding handleMessage_query [OF Inr True] handleQuery_greeted Let_def
        handleGetPeers_value [OF w assms(2)] handleAnnouncePeer_value [OF w assms(2)]
      using Inr True by (auto simp: msg_names split: option.splits if_splits dest: v)
  next
    case False
    then show ?thesis using Inr resp by (auto simp: handleMessage_def Let_def split: if_splits)
  qed
qed

section \<open>Properties\<close>

text \<open>C12: The node invariant. Whatever datagrams arrive and however the periodic work, the
  lookups and the consumers interleave, a node that has not panicked keeps its identifier and
  has a well-formed table about it, at most as many queued events as the channel holds,
  16-byte secrets, and for every pending transaction an open, empty reply channel of its own.\<close>

theorem node_invariant:
  assumes "run ops (NewNode secret i port (make_chan cap) boots) = Inr n"
    and "length secret = 16" and "list_all op_ok ops"
  shows "wf_node n \<and> ID n = i"
proof -
  have "wf_node (NewNode secret i port (make_chan cap) boots)"
    using assms(2) by (intro wf_NewNode) simp_all
  with assms show ?thesis using node.run_keeps run_secrets [OF assms(1)] by (simp add: NewNode_def)
qed

definition sample_node :: dht_node where
  "sample_node = NewNode (replicate 16 7) zeroID 6881 (make_chan 2) []"

lemma wf_sample_node: "wf_node sample_node"
  unfolding sample_node_def by (rule wf_NewNode) simp_all

theorem node_invariant_witness:
  "wf_node (rotateSecrets (replicate 16 9) sample_node)"
proof -
  have "run [Rotate (replicate 16 9)] sample_node = Inr (rotateSecrets (replicate 16 9) sample_node)"
    by simp
  from node_invariant [OF this [unfolded sample_node_def]] show ?thesis
    by (simp add: sample_node_def)
qed

text \<open>C20: When a datagram stops the process. A well-formed node panics on a datagram in
  exactly three cases: the bencode decoder meets an announced length it cannot allocate; an
  announcement with an info hash carries a token longer than 8 bytes; or an event is sent
  although the event channel is closed.\<close>

theorem datagram_panics:
  assumes "wf_node n" and "ua_IP addr \<noteq> []"
  shows "handleMessage now data addr n = Inl f \<longleftrightarrow>
    f = Panic MakeSliceLen \<and> DecodeMessage data = Inl f
    \<or> (\<exists>m h. DecodeMessage data = Inr m \<and> Type m = MsgTypeQuery \<and> GetInfoHash m = Some h
        \<and> (Query m = QueryGetPeers \<and> ch_closed (eventChan n) \<and> f = Panic SendOnClosed
           \<or> Query m = QueryAnnouncePeer
             \<and> (\<exists>t. GetToken m = Some t
                 \<and> (8 < length t \<and> f = Panic SliceBounds
                    \<or> token_valid (tokenSecret n) (lastSecret n) t (ua_IP addr)
                      \<and> ch_closed (eventChan n) \<and> f = Panic SendOnClosed))))"
  using assms by (rule datagram_faults)

definition sample_addr :: udp_addr where
  "sample_addr = \<lparr>ua_IP = [10, 0, 0, 1], ua_Port = 6881\<rparr>"

theorem datagram_panics_witness:
  "\<exists>data. handleMessage 0 data sample_addr sample_node = Inl (Panic SliceBounds)"
proof -
  let ?q = "AnnouncePeerQ zeroID None (replicate 9 0)"
  obtain b m where "encode_query [1] zeroID ?q = Inr b" and m: "DecodeMessage b = Inr m"
    and q: "query_of m = Some (zeroID, ?q)"
    using query_roundtrip [of "[1]" ?q zeroID] by (auto simp: maxAlloc_def)
  have a: "ua_IP sample_addr \<noteq> []" by (simp add: sample_addr_def)
  have "handleMessage 0 b sample_addr sample_node = Inl (Panic SliceBounds)"
    unfolding datagram_panics [OF wf_sample_node a]
    using m query_of_fields(2) [OF q] query_of_fields(4) [OF q refl] by auto
  then show ?thesis by blast
qed

text \<open>C29: A \<open>get_peers\<close> query is answered. The node enters the sender into its table, counts
  the query, queues one \<open>EventGetPeers\<close> for the hash when the channel has room, and sends the
  sender one datagram, which decodes to the reply of the same transaction with a token for
  the sender's address and the nearest \<open>K\<close> nodes of its table.\<close>

theorem get_peers_answered:
  assumes "wf_node n" and "ua_IP addr \<noteq> []" and "\<not> ch_closed (eventChan n)"
    and "int (length tid) \<le> maxAlloc" and "encode_query tid i (GetPeersQ h) = Inr data"
  shows "\<exists>n' d m. handleMessage now data addr n = Inr n' \<and> wf_node n'
    \<and> routingTable n' = snd (Insert (routingTable n) i (ua_IP addr) (ua_Port addr) now)
    \<and> getPeersCount n' = getPeersCount n + 1
    \<and> ch_buf (eventChan n') = ch_buf (eventChan n) @
        (if length (ch_buf (eventChan n)) < ch_cap (eventChan n)
         then [\<lparr>ev_Type = EventGetPeers, ev_InfoHash = h, ev_PeerIP = ua_IP addr,
                ev_PeerPort = ua_Port addr\<rparr>] else [])
    \<and> sent n' = sent n @ [(addr, d)] \<and> DecodeMessage d = Inr m \<and> TransactionID m = tid
    \<and> reply_read (NodesReply (token_of (tokenSecret n) (ua_IP addr))
        (map compact_of (FindClosest (routingTable n') h K))) m"
proof -
  obtain mq where mq: "DecodeMessage data = Inr mq" "TransactionID mq = tid"
    and q: "query_of mq = Some (i, GetPeersQ h)"
    using query_roundtrip [OF assms(4), of "GetPeersQ h" i] assms(5) by auto
  note f = query_of_fields(1,2) [OF q] query_of_fields(3) [OF q refl]
  let ?g = "greeted now mq addr (n\<lparr>queriesReceived := queriesReceived n + 1\<rparr>)"
  let ?r = "NodesReply (token_of (tokenSecret n) (ua_IP addr))
        (map compact_of (FindClosest (routingTable ?g) h K))"
  note w = wf_node_received [OF assms(1), of now mq addr "queriesReceived n + 1"]
  have "reply_ok ?r" by (simp add: length_FindClosest maxAlloc_def K_def)
  from reply_roundtrip [OF assms(4) this, of "ID n"] obtain d m where
    d: "encode_reply tid (ID n) ?r = Inr d" "DecodeMessage d = Inr m" "TransactionID m = tid"
    "reply_read ?r m" by blast
  let ?n' = "WriteToUDP (encode_reply tid (ID n) ?r) addr
      (emit (get_peers_event h addr) (?g\<lparr>getPeersCount := getPeersCount ?g + 1\<rparr>))"
  have "handleMessage now data addr n = Inr ?n'"
    using handleMessage_get_peers [OF assms(1,2) mq(1) f(2)] f handleGetPeers_value [OF w assms(2), of mq]
      assms(3) mq(2) by simp
  moreover have "wf_node ?n'" using w by (simp add: wf_WriteToUDP wf_emit wf_counts)
  moreover have "routingTable ?n' = snd (Insert (routingTable n) i (ua_IP addr) (ua_Port addr) now)"
    using f(1) by (simp add: routingTable_greeted)
  moreover have "sent ?n' = sent n @ [(addr, d)]" using d(1) by (simp add: msg_bytes_def)
  ultimately show ?thesis
    using d by (intro exI [of _ ?n'] exI [of _ d] exI [of _ m]) (simp add: get_peers_event_def)
qed

theorem get_peers_answered_witness:
  "\<exists>data n' d m. encode_query [1] (arr20_of [5]) (GetPeersQ (arr20_of [9])) = Inr data
     \<and> handleMessage 0 data sample_addr sample_node = Inr n' \<and> sent n' = sent sample_node @ [(sample_addr, d)]
     \<and> DecodeMessage d = Inr m \<and> TransactionID m = [1]"
proof -
  obtain data where data: "encode_query [1] (arr20_of [5]) (GetPeersQ (arr20_of [9])) = Inr data"
    using query_roundtrip [of "[1]" "GetPeersQ (arr20_of [9])" "arr20_of [5]"] by (auto simp: maxAlloc_def)
  have "ua_IP sample_addr \<noteq> []" "\<not> ch_closed (eventChan sample_node)" "int (length [1::byte]) \<le> maxAlloc"
    by (simp_all add: sample_addr_def sample_node_def NewNode_def maxAlloc_def)
  from get_peers_answered [OF wf_sample_node this data, of 0] data show ?thesis by blast
qed

lemma announce_accepted:
  assumes "wf_node n1" and "ua_IP addr \<noteq> []" and "\<not> ch_closed (eventChan n1)"
    and "int (length tid) \<le> maxAlloc" and "query_ok (AnnouncePeerQ h port token)"
    and "encode_query tid i (AnnouncePeerQ h port token) = Inr data"
    and "token_valid (tokenSecret n1) (lastSecret n1) token (ua_IP addr)"
  shows "\<exists>n2 d m. handleMessage now data addr n1 = Inr n2 \<and> announceCount n2 = announceCount n1 + 1
    \<and> ch_buf (eventChan n2) = ch_buf (eventChan n1) @
        (if length (ch_buf (eventChan n1)) < ch_cap (eventChan n1)
         then [\<lparr>ev_Type = EventAnnounce, ev_InfoHash = h, ev_PeerIP = ua_IP addr,
                ev_PeerPort = (case port of None \<Rightarrow> ua_Port addr | Some p \<Rightarrow> p)\<rparr>] else [])
    \<and> sent n2 = sent n1 @ [(addr, d)] \<and> DecodeMessage d = Inr m \<and> TransactionID m = tid"
proof -
  obtain mq where mq: "DecodeMessage data = Inr mq" "TransactionID mq = tid"
    and q: "query_of mq = Some (i, AnnouncePeerQ h port token)"
    using query_roundtrip [OF assms(4,5), of i] assms(6) by auto
  note f = query_of_fields(1,2) [OF q] query_of_fields(4) [OF q refl]
  let ?g = "greeted now mq addr (n1\<lparr>queriesReceived := queriesReceived n1 + 1\<rparr>)"
  note w = wf_node_received [OF assms(1), of now mq addr "queriesReceived n1 + 1"]
  from reply_roundtrip [OF assms(4), of IdReply "ID n1"] obtain d m where
    d: "encode_reply tid (ID n1) IdReply = Inr d" "DecodeMessage d = Inr m" "TransactionID m = tid"
    by auto
  let ?n2 = "WriteToUDP (encode_reply tid (ID n1) IdReply) addr
      (emit (announce_event h mq addr) (?g\<lparr>announceCount := announceCount ?g + 1\<rparr>))"
  have "handleMessage now data addr n1 = Inr ?n2"
    using handleMessage_announce [OF assms(1,2) mq(1) f(2)] f handleAnnouncePeer_value [OF w assms(2), of mq]
      assms(3,7) mq(2)
    by (simp add: EncodeAnnouncePeerResponse_def EncodePingResponse_def token_valid_def)
  moreover have "sent ?n2 = sent n1 @ [(addr, d)]" using d(1) by (simp add: msg_bytes_def)
  ultimately show ?thesis
    using d f by (intro exI [of _ ?n2] exI [of _ d] exI [of _ m]) (simp add: announce_event_def)
qed

text \<open>C14: A token is honoured for at least one rotation. If the node issued a token to an
  address, and any operations with at most one rotation of the secret ran since, an
  announcement with that token from the address, whatever its source port, is counted, queued
  as an \<open>EventAnnounce\<close> with the announced port (the source port when it is implied) when the
  channel has room, and acknowledged under its transaction id.\<close>

theorem announce_honoured:
  assumes "wf_node n" and "generateToken n (ua_IP addr) = Inr token"
    and "run ops n = Inr n1" and "list_all op_ok ops" and "length (rotations ops) \<le> 1"
    and "ua_IP addr \<noteq> []" and "\<not> ch_closed (eventChan n1)" and "int (length tid) \<le> maxAlloc"
    and "query_ok (AnnouncePeerQ h port token)"
    and "encode_query tid i (AnnouncePeerQ h port token) = Inr data"
  shows "\<exists>n2 d m. handleMessage now data addr n1 = Inr n2 \<and> announceCount n2 = announceCount n1 + 1
    \<and> ch_buf (eventChan n2) = ch_buf (eventChan n1) @
        (if length (ch_buf (eventChan n1)) < ch_cap (eventChan n1)
         then [\<lparr>ev_Type = EventAnnounce, ev_InfoHash = h, ev_PeerIP = ua_IP addr,
                ev_PeerPort = (case port of None \<Rightarrow> ua_Port addr | Some p \<Rightarrow> p)\<rparr>] else [])
    \<and> sent n2 = sent n1 @ [(addr, d)] \<and> DecodeMessage d = Inr m \<and> TransactionID m = tid"
proof -
  have tok: "token = token_of (tokenSecret n) (ua_IP addr)"
    using assms(1,2,6) generateToken_value [of n "ua_IP addr"] by (simp add: wf_node_def)
  have "(tokenSecret n1, lastSecret n1)
      = foldl (\<lambda>(c, l) s. (s, c)) (tokenSecret n, lastSecret n) (rotations ops)"
    using run_secrets [OF assms(3)] by simp
  from tokens.valid_after_rotation [OF assms(5) this]
  have valid: "token_valid (tokenSecret n1) (lastSecret n1) token (ua_IP addr)" by (simp add: tok)
  show ?thesis
    by (rule announce_accepted [OF node.run_keeps [OF assms(3,1,4)] assms(6-10) valid])
qed

theorem announce_honoured_witness:
  "\<exists>token data n2. generateToken sample_node [10, 0, 0, 1] = Inr token
     \<and> encode_query [2] zeroID (AnnouncePeerQ zeroID None token) = Inr data
     \<and> handleMessage 0 data sample_addr (rotateSecrets (replicate 16 9) sample_node) = Inr n2
     \<and> announceCount n2 = 1"
proof -
  let ?n1 = "rotateSecrets (replicate 16 9) sample_node" and ?ops = "[Rotate (replicate 16 9)]"
  have a: "ua_IP sample_addr = [10, 0, 0, 1]" by (simp add: sample_addr_def)
  obtain token where t: "generateToken sample_node (ua_IP sample_addr) = Inr token" "length token = 8"
    using generateToken_value [of sample_node "[10, 0, 0, 1]"] wf_sample_node by (simp add: wf_node_def a)
  have q: "query_ok (AnnouncePeerQ zeroID None token)" using t(2) by (simp add: maxAlloc_def)
  obtain data where data: "encode_query [2] zeroID (AnnouncePeerQ zeroID None token) = Inr data"
    using query_roundtrip [OF _ q, of "[2]" zeroID] by (auto simp: maxAlloc_def)
  have r: "run ?ops sample_node = Inr ?n1" "list_all op_ok ?ops" "length (rotations ?ops) \<le> 1"
    "ua_IP sample_addr \<noteq> []" "\<not> ch_closed (eventChan ?n1)" "int (length [2::byte]) \<le> maxAlloc"
    by (simp_all add: a rotateSecrets_def sample_node_def NewNode_def maxAlloc_def)
  have "announceCount ?n1 = 0" by (simp add: rotateSecrets_def sample_node_def NewNode_def)
  with announce_honoured [OF wf_sample_node t(1) r q data, of 0] t(1) data a show ?thesis by auto
qed

text \<open>C13: Where events come from. Handling a datagram queues at most one event, and each
  queued event names the sender's address and the info hash of the datagram's query: a
  \<open>get_peers\<close> query for an \<open>EventGetPeers\<close>, and for an \<open>EventAnnounce\<close> an announcement whose
  token is valid for the sender's address.\<close>

theorem event_provenance:
  assumes "wf_node n" and "ua_IP addr \<noteq> []" and "handleMessage now data addr n = Inr n'"
  shows "\<exists>es. ch_buf (eventChan n') = ch_buf (eventChan n) @ es \<and> length es \<le> 1
    \<and> list_all (\<lambda>e. ev_PeerIP e = ua_IP addr \<and> (\<exists>m. DecodeMessage data = Inr m
         \<and> Type m = MsgTypeQuery \<and> GetInfoHash m = Some (ev_InfoHash e)
         \<and> (case ev_Type e of
              EventGetPeers \<Rightarrow> Query m = QueryGetPeers \<and> ev_PeerPort e = ua_Port addr
            | EventAnnounce \<Rightarrow> Query m = QueryAnnouncePeer
                \<and> ev_PeerPort e = (case GetPort m of None \<Rightarrow> ua_Port addr | Some p \<Rightarrow> p)
                \<and> (\<exists>t. GetToken m = Some t
                     \<and> token_valid (tokenSecret n) (lastSecret n) t (ua_IP addr))))) es"
proof (cases "DecodeMessage data")
  case (Inl f)
  then show ?thesis using assms(3) by (cases f) (auto simp: handleMessage_def)
next
  case (Inr m)
  let ?n = "n\<lparr>queriesReceived := queriesReceived n + 1\<rparr>"
  note w = wf_node_received [OF assms(1), of now m addr "queriesReceived n + 1"]
  show ?thesis
  proof (cases "Type m = MsgTypeQuery")
    case True
    have h: "handleQuery now m addr ?n = Inr n'"
      using assms(3) handleMessage_query [OF Inr True] by simp
    show ?thesis
      using h True Inr
      unfolding handleQuery_greeted Let_def handleGetPeers_value [OF w assms(2)]
        handleAnnouncePeer_value [OF w assms(2)]
      by (auto simp: handlePing_def handleFindNode_def get_peers_event_def announce_event_def Let_def
          split: if_splits option.splits)
  next
    case False
    then have "eventChan n' = eventChan n"
    proof (cases "Type m = MsgTypeResponse")
      case True
      have r: "eventChan (replied now m addr ?n) = eventChan n"
        by (cases rule: replied_cases [of now m addr ?n]) simp_all
      have "handleResponse now m addr ?n = Inr n'"
        using assms(3) Inr True False by (simp add: handleMessage_def)
      then show ?thesis
        using r deliver_fields(4) [of m "replied now m addr ?n"]
        by (auto simp: handleResponse_replied split: sum.splits)
    qed (use assms(3) Inr False in \<open>auto simp: handleMessage_def Let_def\<close>)
    then show ?thesis by simp
  qed
qed

theorem event_provenance_witness:
  "handleMessage 0 (bs ''i1e'') sample_addr sample_node = Inr sample_node \<and>
   (\<exists>es. ch_buf (eventChan sample_node) = ch_buf (eventChan sample_node) @ es \<and> length es \<le> 1)"
proof -
  have a: "ua_IP sample_addr \<noteq> []" by (simp add: sample_addr_def)
  have "DecodeMessage (bs ''i1e'') = Inl (Err ErrNotDictionary)" by code_simp
  then have h: "handleMessage 0 (bs ''i1e'') sample_addr sample_node = Inr sample_node"
    by (simp add: handleMessage_def)
  from event_provenance [OF wf_sample_node a h] h show ?thesis by blast
qed

definition forge :: "bytes \<Rightarrow> bytes \<Rightarrow> bytes \<Rightarrow> bytes" where
  "forge token a b = map (\<lambda>i. token ! i XOR a ! i XOR b ! i) [0..<4] @ replicate 4 0"

text \<open>C30: Tokens do not authenticate. The empty token, like every prefix of a valid one, is
  accepted for every address; and from the token issued to one IPv4 address anyone can
  compute, without the secret, the token of every other one.\<close>

theorem tokens_forgeable:
  assumes "wf_node n" and "length a = 4" and "length b = 4" and "generateToken n a = Inr token"
  shows "validateToken n [] b = Inr True
    \<and> generateToken n b = Inr (forge token a b) \<and> validateToken n (forge token a b) b = Inr True"
proof -
  have l: "4 \<le> length (tokenSecret n)" "4 \<le> length (lastSecret n)" and ne: "a \<noteq> []" "b \<noteq> []"
    using assms by (auto simp: wf_node_def)
  have "token = token_of (tokenSecret n) a" using assms(4) generateToken_value [OF l(1) ne(1)] by simp
  then have "forge token a b = token_of (tokenSecret n) b"
    using assms(2,3) by (auto simp: forge_def token_of_def nth_append xor.assoc intro!: map_cong)
  then show ?thesis
    using generateToken_value [OF l(1)] ne validateToken_iff [OF l ne(2)]
    by (auto simp: token_valid_def)
qed

theorem tokens_forgeable_witness:
  "generateToken sample_node [10, 0, 0, 1] = Inr [13, 7, 7, 6, 0, 0, 0, 0] \<and>
   validateToken sample_node (forge [13, 7, 7, 6, 0, 0, 0, 0] [10, 0, 0, 1] [10, 0, 0, 2]) [10, 0, 0, 2] = Inr True"
proof -
  have g: "generateToken sample_node [10, 0, 0, 1] = Inr [13, 7, 7, 6, 0, 0, 0, 0]"
    by code_simp
  from tokens_forgeable [OF wf_sample_node _ _ g, of "[10, 0, 0, 2]"] g show ?thesis by simp
qed

text \<open>C31: Replies reach the lookup that waits, once. A response whose transaction is pending is
  put into that transaction's reply channel and into no other, and the transaction is
  forgotten, so a second response with the same id is not delivered; a response for no
  pending transaction changes no channel.\<close>

theorem reply_delivered_once:
  assumes "wf_node n" and "DecodeMessage data = Inr m" and "Type m = MsgTypeResponse"
  shows "\<exists>n'. handleMessage now data addr n = Inr n' \<and> wf_node n'
    \<and> pendingTxns n' = (pendingTxns n)(TransactionID m := None)
    \<and> map ch_buf (replyChans n') =
        (case pendingTxns n (TransactionID m) of
           None \<Rightarrow> map ch_buf (replyChans n)
         | Some k \<Rightarrow> (map ch_buf (replyChans n))[k := [m]])"
  using assms by (rule reply_delivered)

theorem reply_delivered_once_witness:
  "\<exists>data m n'. DecodeMessage data = Inr m
     \<and> handleMessage 0 data sample_addr (query_peers zeroID (new_node zeroID [10, 0, 0, 3] 80 0) sample_node) = Inr n'
     \<and> map ch_buf (replyChans n') = [[m]] \<and> pendingTxns n' (TransactionID m) = None"
proof -
  let ?n = "query_peers zeroID (new_node zeroID [10, 0, 0, 3] 80 0) sample_node"
  have w: "wf_node ?n" by (rule wf_query_peers [OF wf_sample_node])
  have p: "pendingTxns ?n = [put_uint16 1 \<mapsto> 0]" "map ch_buf (replyChans ?n) = [[]]"
    by (simp_all add: query_peers_def nextTxnID_def WriteToUDP_def sample_node_def NewNode_def Let_def)
  obtain data m where d: "DecodeMessage data = Inr m" "TransactionID m = put_uint16 1" "Type m = MsgTypeResponse"
    using reply_roundtrip [of "put_uint16 1" IdReply zeroID] by (auto simp: maxAlloc_def)
  from reply_delivered_once [OF w d(1,3), of 0 sample_addr] obtain n' where
    "handleMessage 0 data sample_addr ?n = Inr n'" "map ch_buf (replyChans n') = [[m]]"
    "pendingTxns n' (TransactionID m) = None" using d(2) p by auto
  with d(1) show ?thesis by (intro exI [of _ data] exI [of _ m] exI [of _ n']) simp
qed

text \<open>The queries a node sends on its own. One round of active querying sends at most 3
  queries, one refresh at most 30, a bootstrap round two for each of the nearest 16 nodes, and
  contacting the bootstrap addresses at most 4 for each; every one is a well-formed query in
  the node's name under the next transaction id, is counted in \<open>queriesSent\<close>, and changes
  nothing else of the node.\<close>

lemma own_queries:
  "(\<exists>k. k \<le> 3 \<and> sends k n (activeQuery h n)) \<and> (\<exists>k. k \<le> 30 \<and> sends k n (refresh rnd n))
   \<and> sends (2 * min 16 (Size (routingTable n))) n (bootstrap_round rnd n)
   \<and> (\<exists>k. k \<le> 4 * length (bootstraps n) \<and> sends k n (bootstrap_contact resolve rnd2 n))"
  using sends_activeQuery [of n h] sends_refresh [of n rnd] sends_bootstrap_round [of n rnd]
    sends_bootstrap_contact [of n resolve rnd2] by (simp add: K_def)

end
