(* ===== verification/Storage.thy ===== *)
theory Storage
  imports Crawl_Prelude "HOL-Library.Product_Lexorder"
begin

text \<open>
  \<open>internal/storage/sqlite.go\<close>: the two tables and the statements the code runs on them. A
  table is the list of its rows in rowid order; the definitions are the meaning of the SQL
  text in the source. The engine and its driver are not part of the repository: their
  failures are arguments, \<open>LIKE\<close>, the full-text index and the order in which the engine meets
  rows that \<open>ORDER BY\<close> does not separate are parameters. Times are nanoseconds since the epoch.
\<close>

section \<open>State\<close>

record file_record =
  Path :: bytes
  FileSize :: int

record torrent_record =
  InfoHash :: bytes
  Name :: bytes
  TorrentSize :: int
  Files :: "file_record list"
  FileCount :: int
  CreatedAt :: int
  ReqCount :: int

record hash_record =
  h_InfoHash :: bytes
  h_ReqCount :: int
  h_FirstSeen :: int
  h_LastSeen :: int

record search_result =
  r_InfoHash :: bytes
  r_Name :: bytes
  r_NameHighlight :: bytes
  r_Size :: int
  r_FileCount :: int
  r_ReqCount :: int

record torrent_row =
  t_info_hash :: bytes
  t_name :: bytes
  t_size :: int
  t_files :: bytes
  t_file_count :: int
  t_created_at :: int
  t_req_count :: int

record storage =
  hashes :: "hash_record list"
  torrents :: "torrent_row list"
  hasFTS5 :: bool

definition New :: "bool \<Rightarrow> storage" where
  "New fts = \<lparr>hashes = [], torrents = [], hasFTS5 = fts\<rparr>"

text \<open>
  Opening a database: \<open>disk\<close> holds the tables the file has (\<open>CREATE TABLE IF NOT EXISTS\<close> keeps them),
  \<open>init_env\<close> the outcomes of the statements. The full-text table is used when the engine has the
  module, creates the table and answers a query on it; only then must its triggers be created.
\<close>

record init_env =
  ie_open :: "go_error option"
  ie_core :: "go_error option"
  ie_fts_available :: "go_error option"
  ie_fts_create :: "go_error option"
  ie_fts_query :: "go_error option"
  ie_triggers :: "go_error option"
  ie_prepare :: "nat \<Rightarrow> go_error option"

definition initSchema :: "init_env \<Rightarrow> storage \<Rightarrow> go_error option \<times> storage" where
  "initSchema env s =
     (case ie_core env of
        Some e \<Rightarrow> (Some e, s)
      | None \<Rightarrow>
          if ie_fts_available env \<noteq> None then (None, s\<lparr>hasFTS5 := False\<rparr>)
          else if ie_fts_create env \<noteq> None then (None, s\<lparr>hasFTS5 := False\<rparr>)
          else if ie_fts_query env \<noteq> None then (None, s\<lparr>hasFTS5 := False\<rparr>)
          else (ie_triggers env, s\<lparr>hasFTS5 := True\<rparr>))"

text \<open>The four statements are prepared in order; the first error ends it.\<close>

fun prepare_loop :: "(nat \<Rightarrow> go_error option) \<Rightarrow> nat list \<Rightarrow> go_error option" where
  "prepare_loop fails [] = None"
| "prepare_loop fails (k # ks) = (case fails k of Some e \<Rightarrow> Some e | None \<Rightarrow> prepare_loop fails ks)"

definition prepareStatements :: "init_env \<Rightarrow> go_error option" where
  "prepareStatements env = prepare_loop (ie_prepare env) [0, 1, 2, 3]"

definition Open_storage :: "init_env \<Rightarrow> storage \<Rightarrow> storage res" where
  "Open_storage env disk =
     (case ie_open env of
        Some e \<Rightarrow> Inl (Err e)
      | None \<Rightarrow>
          (case initSchema env disk of
             (Some e, _) \<Rightarrow> Inl (Err e)
           | (None, s) \<Rightarrow>
               (case prepareStatements env of Some e \<Rightarrow> Inl (Err e) | None \<Rightarrow> Inr s)))"

text \<open>Opening loses nothing that is in the file, and never panics.\<close>

lemma Open_storage_keeps:
  assumes "Open_storage env disk = Inr s"
  shows "hashes s = hashes disk \<and> torrents s = torrents disk
    \<and> (hasFTS5 s \<longleftrightarrow> ie_fts_available env = None \<and> ie_fts_create env = None \<and> ie_fts_query env = None)"
  using assms by (auto simp: Open_storage_def initSchema_def split: option.splits if_splits)

lemma Open_storage_error: "Open_storage env disk = Inl f \<Longrightarrow> \<exists>e. f = Err e"
  by (auto simp: Open_storage_def split: option.splits prod.splits)

definition Unix :: "int \<Rightarrow> int" where
  "Unix t = t div 1000000000"

definition from_Unix :: "int \<Rightarrow> int" where
  "from_Unix s = s * 1000000000"

section \<open>Strings\<close>

text \<open>\<open>strings.Join(names, " ")\<close> and \<open>strings.Fields\<close>, which splits at runs of Unicode spaces.\<close>

fun join_space :: "bytes list \<Rightarrow> bytes" where
  "join_space [] = []"
| "join_space [x] = x"
| "join_space (x # xs) = x @ 32 # join_space xs"

text \<open>
  The number of bytes of the space a string begins with, 0 if it begins with another
  character: the ASCII spaces, U+0085, U+00A0, U+1680, U+2000 to U+200A, U+2028, U+2029,
  U+202F, U+205F and U+3000 in UTF-8. No byte of a longer character's tail starts one.
\<close>

definition space_len :: "bytes \<Rightarrow> nat" where
  "space_len s =
     (case s of
        [] \<Rightarrow> 0
      | a # t \<Rightarrow>
          if a \<in> {9, 10, 11, 12, 13, 32} then 1
          else if a = 0xC2 \<and> t \<noteq> [] \<and> hd t \<in> {0x85, 0xA0} then 2
          else if length t \<ge> 2 \<and>
             (a = 0xE1 \<and> t ! 0 = 0x9A \<and> t ! 1 = 0x80
              \<or> a = 0xE2 \<and> t ! 0 = 0x80 \<and> (0x80 \<le> t ! 1 \<and> t ! 1 \<le> 0x8A \<or> t ! 1 \<in> {0xA8, 0xA9, 0xAF})
              \<or> a = 0xE2 \<and> t ! 0 = 0x81 \<and> t ! 1 = 0x9F
              \<or> a = 0xE3 \<and> t ! 0 = 0x80 \<and> t ! 1 = 0x80) then 3
          else 0)"

definition flush_field :: "bytes \<Rightarrow> bytes list" where
  "flush_field cur = (if cur = [] then [] else [cur])"

function fields_loop :: "bytes \<Rightarrow> bytes \<Rightarrow> bytes list" where
  "fields_loop cur s =
     (if s = [] then flush_field cur
      else if space_len s > 0 then flush_field cur @ fields_loop [] (drop (space_len s) s)
      else fields_loop (cur @ [hd s]) (tl s))"
  by pat_completeness auto
termination
  by (relation "measure (\<lambda>(cur, s). length s)") (auto intro: Suc_lessI)

declare fields_loop.simps [simp del]

definition Fields :: "bytes \<Rightarrow> bytes list" where
  "Fields s = fields_loop [] s"

section \<open>Pending hashes\<close>

text \<open>\<open>INSERT INTO hashes ... ON CONFLICT(info_hash) DO UPDATE\<close>.\<close>

definition upsert_hash :: "int \<Rightarrow> bytes \<times> int \<Rightarrow> hash_record list \<Rightarrow> hash_record list" where
  "upsert_hash now hc rows =
     (let (hash, cnt) = hc in
      if \<exists>r \<in> set rows. h_InfoHash r = hash then
        map (\<lambda>r. if h_InfoHash r = hash
                 then r\<lparr>h_ReqCount := h_ReqCount r + cnt, h_LastSeen := now\<rparr> else r) rows
      else rows @ [\<lparr>h_InfoHash = hash, h_ReqCount = cnt, h_FirstSeen = now, h_LastSeen = now\<rparr>])"

record tx_env =
  begin_err :: "go_error option"
  exec_err :: "nat \<Rightarrow> go_error option"
  commit_err :: "go_error option"

definition no_failure :: tx_env where
  "no_failure = \<lparr>begin_err = None, exec_err = (\<lambda>_. None), commit_err = None\<rparr>"

fun insert_loop :: "(nat \<Rightarrow> go_error option) \<Rightarrow> nat \<Rightarrow> int \<Rightarrow> (bytes \<times> int) list
    \<Rightarrow> hash_record list \<Rightarrow> go_error + hash_record list" where
  "insert_loop fails k now [] rows = Inr rows"
| "insert_loop fails k now (hc # hcs) rows =
     (case fails k of
        Some e \<Rightarrow> Inl e
      | None \<Rightarrow> insert_loop fails (Suc k) now hcs (upsert_hash now hc rows))"

text \<open>
  \<open>InsertHashes\<close>: the map is given in the order the loop meets its entries; the deferred
  rollback undoes the statements of a transaction that is not committed.
\<close>

definition InsertHashes ::
  "tx_env \<Rightarrow> int \<Rightarrow> (bytes \<times> int) list \<Rightarrow> storage \<Rightarrow> go_error option \<times> storage" where
  "InsertHashes env now hcs s =
     (case begin_err env of
        Some e \<Rightarrow> (Some e, s)
      | None \<Rightarrow>
          (case insert_loop (exec_err env) 0 (Unix now) hcs (hashes s) of
             Inl e \<Rightarrow> (Some e, s)
           | Inr rows \<Rightarrow>
               (case commit_err env of
                  Some e \<Rightarrow> (Some e, s)
                | None \<Rightarrow> (None, s\<lparr>hashes := rows\<rparr>))))"

definition DeleteHash :: "go_error option \<Rightarrow> bytes \<Rightarrow> storage \<Rightarrow> go_error option \<times> storage" where
  "DeleteHash err infoHash s =
     (case err of
        Some e \<Rightarrow> (Some e, s)
      | None \<Rightarrow> (None, s\<lparr>hashes := filter (\<lambda>r. h_InfoHash r \<noteq> infoHash) (hashes s)\<rparr>))"

definition sql_limit :: "int \<Rightarrow> 'a list \<Rightarrow> 'a list" where
  "sql_limit limit xs = (if limit < 0 then xs else take (nat limit) xs)"

definition sql_offset :: "int \<Rightarrow> 'a list \<Rightarrow> 'a list" where
  "sql_offset offset xs = drop (nat offset) xs"

text \<open>The anti-join of the pending query; \<open>scan\<close> is the order the engine meets the rows in.\<close>

definition GetPendingHashes ::
  "(hash_record list \<Rightarrow> hash_record list) \<Rightarrow> go_error option \<Rightarrow> int \<Rightarrow> storage
    \<Rightarrow> go_error + hash_record list" where
  "GetPendingHashes scan err limit s =
     (case err of
        Some e \<Rightarrow> Inl e
      | None \<Rightarrow>
          Inr (map (\<lambda>h. h\<lparr>h_FirstSeen := from_Unix (h_FirstSeen h), h_LastSeen := from_Unix (h_LastSeen h)\<rparr>)
            (sql_limit limit
              (sort_key (\<lambda>h. (- h_ReqCount h, - h_LastSeen h))
                (scan (filter (\<lambda>h. \<not> (\<exists>t \<in> set (torrents s). t_info_hash t = h_InfoHash h)) (hashes s)))))))"

section \<open>Torrents\<close>

definition InsertTorrent :: "go_error option \<Rightarrow> torrent_record \<Rightarrow> storage \<Rightarrow> go_error option \<times> storage" where
  "InsertTorrent err t s =
     (let filesJSON = (if length (Files t) > 0 then join_space (map Path (Files t)) else []);
          row = \<lparr>t_info_hash = InfoHash t, t_name = Name t, t_size = TorrentSize t, t_files = filesJSON,
                 t_file_count = FileCount t, t_created_at = Unix (CreatedAt t), t_req_count = ReqCount t\<rparr> in
      case err of
        Some e \<Rightarrow> (Some e, s)
      | None \<Rightarrow>
          (None, s\<lparr>torrents := filter (\<lambda>r. t_info_hash r \<noteq> InfoHash t) (torrents s) @ [row]\<rparr>))"

definition record_of_row :: "bool \<Rightarrow> torrent_row \<Rightarrow> torrent_record" where
  "record_of_row with_files r =
     \<lparr>InfoHash = t_info_hash r, Name = t_name r, TorrentSize = t_size r,
      Files = (if with_files \<and> t_files r \<noteq> []
               then map (\<lambda>p. \<lparr>Path = p, FileSize = 0\<rparr>) (Fields (t_files r)) else []),
      FileCount = t_file_count r, CreatedAt = from_Unix (t_created_at r), ReqCount = t_req_count r\<rparr>"

definition GetTorrent :: "go_error option \<Rightarrow> bytes \<Rightarrow> storage \<Rightarrow> go_error + torrent_record option" where
  "GetTorrent err infoHash s =
     (case err of
        Some e \<Rightarrow> Inl e
      | None \<Rightarrow> Inr (map_option (record_of_row True)
                  (find (\<lambda>r. t_info_hash r = infoHash) (torrents s))))"

definition TorrentExists :: "go_error option \<Rightarrow> bytes \<Rightarrow> storage \<Rightarrow> go_error + bool" where
  "TorrentExists err infoHash s =
     (case err of
        Some e \<Rightarrow> Inl e
      | None \<Rightarrow> Inr (find (\<lambda>r. t_info_hash r = infoHash) (torrents s) \<noteq> None))"

definition RecentTorrents ::
  "(torrent_row list \<Rightarrow> torrent_row list) \<Rightarrow> go_error option \<Rightarrow> int \<Rightarrow> storage
    \<Rightarrow> go_error + torrent_record list" where
  "RecentTorrents scan err limit s =
     (case err of
        Some e \<Rightarrow> Inl e
      | None \<Rightarrow> Inr (map (record_of_row False)
                  (sql_limit limit (sort_key (\<lambda>r. - t_created_at r) (scan (torrents s))))))"

definition PopularTorrents ::
  "(torrent_row list \<Rightarrow> torrent_row list) \<Rightarrow> go_error option \<Rightarrow> int \<Rightarrow> storage
    \<Rightarrow> go_error + torrent_record list" where
  "PopularTorrents scan err limit s =
     (case err of
        Some e \<Rightarrow> Inl e
      | None \<Rightarrow> Inr (map (record_of_row False)
                  (sql_limit limit (sort_key (\<lambda>r. - t_req_count r) (scan (torrents s))))))"

definition GetAllTorrents ::
  "(torrent_row list \<Rightarrow> torrent_row list) \<Rightarrow> go_error option \<Rightarrow> int \<Rightarrow> int \<Rightarrow> storage
    \<Rightarrow> go_error + torrent_record list" where
  "GetAllTorrents scan err limit offset s =
     (case err of
        Some e \<Rightarrow> Inl e
      | None \<Rightarrow> Inr (map (record_of_row True)
                  (sql_limit limit (sql_offset offset
                    (sort_key (\<lambda>r. - t_created_at r) (scan (torrents s)))))))"

section \<open>Search\<close>

definition result_of_row :: "bytes \<Rightarrow> torrent_row \<Rightarrow> search_result" where
  "result_of_row hl r =
     \<lparr>r_InfoHash = t_info_hash r, r_Name = t_name r, r_NameHighlight = hl, r_Size = t_size r,
      r_FileCount = t_file_count r, r_ReqCount = t_req_count r\<rparr>"

definition searchLike ::
  "(bytes \<Rightarrow> bytes \<Rightarrow> bool) \<Rightarrow> (torrent_row list \<Rightarrow> torrent_row list) \<Rightarrow> go_error option
    \<Rightarrow> bytes \<Rightarrow> int \<Rightarrow> int \<Rightarrow> storage \<Rightarrow> go_error + search_result list \<times> nat" where
  "searchLike like scan err query limit offset s =
     (let likeQuery = [ch CHR ''%''] @ query @ [ch CHR ''%''];
          found = filter (\<lambda>r. like likeQuery (t_name r)) (torrents s) in
      case err of
        Some e \<Rightarrow> Inl e
      | None \<Rightarrow> Inr (map (result_of_row [])
          (sql_limit limit (sql_offset offset
            (sort_key (\<lambda>r. (- t_req_count r, - t_created_at r)) (scan found)))), length found))"

text \<open>
  \<open>Search\<close>: \<open>fts query\<close> is what the full-text index finds, the matching rows with their
  highlighted names in rank order, or None when the count or the query fails, in which case
  the code falls back to \<open>LIKE\<close>.
\<close>

definition Search ::
  "(bytes \<Rightarrow> (torrent_row \<times> bytes) list option) \<Rightarrow> (bytes \<Rightarrow> bytes \<Rightarrow> bool)
    \<Rightarrow> (torrent_row list \<Rightarrow> torrent_row list) \<Rightarrow> go_error option
    \<Rightarrow> bytes \<Rightarrow> int \<Rightarrow> int \<Rightarrow> storage \<Rightarrow> go_error + search_result list \<times> nat" where
  "Search fts like scan err query limit offset s =
     (if \<not> hasFTS5 s then searchLike like scan err query limit offset s
      else case fts query of
        None \<Rightarrow> searchLike like scan err query limit offset s
      | Some found \<Rightarrow>
          Inr (map (\<lambda>(r, hl). result_of_row hl r) (sql_limit limit (sql_offset offset found)),
               length found))"

text \<open>Two queries, which fail on their own; the named results keep what was read before an error.\<close>

definition DbStats :: "go_error option \<Rightarrow> go_error option \<Rightarrow> storage \<Rightarrow> nat \<times> nat \<times> go_error option" where
  "DbStats err1 err2 s =
     (if err1 \<noteq> None then (0, 0, err1)
      else if err2 \<noteq> None then (length (hashes s), 0, err2)
      else (length (hashes s), length (torrents s), None))"

section \<open>Counts of pending hashes\<close>

text \<open>The abstract view of the table \<open>hashes\<close>: how often each hash was requested.\<close>

definition row_count :: "hash_record list \<Rightarrow> bytes \<Rightarrow> int" where
  "row_count rows h = (case find (\<lambda>r. h_InfoHash r = h) rows of None \<Rightarrow> 0 | Some r \<Rightarrow> h_ReqCount r)"

definition db_count :: "storage \<Rightarrow> bytes \<Rightarrow> int" where
  "db_count s h = row_count (hashes s) h"

definition entry_count :: "(bytes \<times> int) list \<Rightarrow> bytes \<Rightarrow> int" where
  "entry_count hcs h = (\<Sum>(k, c) \<leftarrow> hcs. if k = h then c else 0)"

lemma entry_count_simps [simp]:
  "entry_count [] h = 0"
  "entry_count ((k, c) # hcs) h = (if k = h then c else 0) + entry_count hcs h"
  "entry_count (xs @ ys) h = entry_count xs h + entry_count ys h"
  by (simp_all add: entry_count_def)

lemma entry_count_mset: "mset xs = mset ys \<Longrightarrow> entry_count xs h = entry_count ys h"
  unfolding entry_count_def by (simp flip: sum_mset_sum_list)

lemma find_map_same_key:
  "(\<And>r. key (f r) = key r) \<Longrightarrow> find (\<lambda>r. key r = h) (map f rows) = map_option f (find (\<lambda>r. key r = h) rows)"
  by (induction rows) simp_all

lemma find_append: "find P (xs @ ys) = (case find P xs of None \<Rightarrow> find P ys | Some x \<Rightarrow> Some x)"
  by (induction xs) simp_all

lemma row_count_upsert:
  "row_count (upsert_hash now (k, c) rows) h = row_count rows h + (if k = h then c else 0)"
proof (cases "\<exists>r \<in> set rows. h_InfoHash r = k")
  case True
  let ?f = "\<lambda>r. if h_InfoHash r = k then r\<lparr>h_ReqCount := h_ReqCount r + c, h_LastSeen := now\<rparr> else r"
  have "find (\<lambda>r. h_InfoHash r = h) (map ?f rows) = map_option ?f (find (\<lambda>r. h_InfoHash r = h) rows)"
    by (rule find_map_same_key) simp
  then have r: "row_count (upsert_hash now (k, c) rows) h =
      (case find (\<lambda>r. h_InfoHash r = h) rows of None \<Rightarrow> 0 | Some r \<Rightarrow> h_ReqCount (?f r))"
    using True by (simp add: row_count_def upsert_hash_def option.case_distrib option.map_sel split: option.split)
  show ?thesis
  proof (cases "find (\<lambda>r. h_InfoHash r = h) rows")
    case None
    then have "h \<noteq> k" using True by (auto simp: find_None_iff)
    with None r show ?thesis by (simp add: row_count_def)
  next
    case (Some y)
    then have "h_InfoHash y = h" by (auto simp: find_Some_iff)
    with Some r show ?thesis by (simp add: row_count_def)
  qed
next
  case False
  then have "find (\<lambda>r. h_InfoHash r = k) rows = None" by (simp add: find_None_iff)
  with False show ?thesis
    by (auto simp: row_count_def upsert_hash_def find_append split: option.split)
qed

lemma row_count_insert_loop:
  "insert_loop fails k now hcs rows = Inr rows' \<Longrightarrow> row_count rows' h = row_count rows h + entry_count hcs h"
  by (induction fails k now hcs rows rule: insert_loop.induct)
    (auto simp: row_count_upsert split: option.splits)

lemma keys_upsert:
  "map h_InfoHash (upsert_hash now (k, c) rows) =
     map h_InfoHash rows @ (if k \<in> h_InfoHash ` set rows then [] else [k])"
  by (auto simp: upsert_hash_def)

lemma keys_insert_loop:
  "insert_loop fails k now hcs rows = Inr rows' \<Longrightarrow> distinct (map h_InfoHash rows)
    \<Longrightarrow> distinct (map h_InfoHash rows') \<and> h_InfoHash ` set rows' = h_InfoHash ` set rows \<union> fst ` set hcs"
proof (induction fails k now hcs rows rule: insert_loop.induct)
  case (2 fails k now hc hcs rows)
  obtain h c where hc: "hc = (h, c)" by force
  have d: "distinct (map h_InfoHash (upsert_hash now (h, c) rows))"
    using "2.prems"(2) by (simp add: keys_upsert)
  have "h_InfoHash ` set (upsert_hash now (h, c) rows) = insert h (h_InfoHash ` set rows)"
    using arg_cong [OF keys_upsert [of now h c rows], of set] by auto
  with 2 d show ?case by (auto simp: hc split: option.splits)
qed simp

lemma insert_loop_ok: "\<exists>rows'. insert_loop (\<lambda>_. None) k now hcs rows = Inr rows'"
  by (induction hcs arbitrary: k rows) simp_all

lemma InsertHashes_count:
  "InsertHashes env now hcs s = (e, s') \<Longrightarrow>
    db_count s' h = db_count s h + (if e = None then entry_count hcs h else 0)"
  by (auto simp: InsertHashes_def db_count_def row_count_insert_loop split: option.splits sum.splits)

lemma InsertHashes_error: "InsertHashes env now hcs s = (Some e, s') \<Longrightarrow> s' = s"
  by (auto simp: InsertHashes_def split: option.splits sum.splits)

section \<open>Splitting the stored paths\<close>

text \<open>\<open>plain x\<close>: no space begins anywhere in \<open>x\<close>.\<close>

fun plain :: "bytes \<Rightarrow> bool" where
  "plain [] = True"
| "plain (a # t) = (space_len (a # t) = 0 \<and> plain t)"

lemma space_len_space [simp]: "space_len (32 # s) = 1"
  by (simp add: space_len_def)

lemma space_len_append_space: "y \<noteq> [] \<Longrightarrow> space_len (y @ 32 # r) = 0 \<longleftrightarrow> space_len y = 0"
proof -
  assume "y \<noteq> []"
  then obtain a t where y: "y = a # t" by (cases y) auto
  consider "t = []" | b where "t = [b]" | b c u where "t = b # c # u"
    by (metis list.exhaust)
  then show ?thesis by cases (auto simp: y space_len_def)
qed

lemma space_len_mono: "0 < space_len y \<Longrightarrow> 0 < space_len (y @ z)"
proof (cases y)
  case (Cons a t)
  assume sp: "0 < space_len y"
  consider "t = []" | b where "t = [b]" | b c u where "t = b # c # u"
    by (metis list.exhaust)
  then show ?thesis
  proof cases
    case (3 b c u)
    have "space_len ((a # b # c # u) @ z) = space_len (a # b # c # u)" by (simp add: space_len_def)
    with sp Cons 3 show ?thesis by simp
  qed (use sp in \<open>auto simp: Cons space_len_def split: if_splits\<close>)
qed (simp add: space_len_def)

lemma fields_loop_space [simp]: "fields_loop cur (32 # s) = flush_field cur @ fields_loop [] s"
  by (subst fields_loop.simps) simp

lemma fields_loop_Nil [simp]: "fields_loop cur [] = flush_field cur"
  by (subst fields_loop.simps) simp

lemma fields_loop_plain: "plain x \<Longrightarrow> fields_loop cur (x @ 32 # r) = flush_field (cur @ x) @ fields_loop [] r"
proof (induction x arbitrary: cur)
  case (Cons a t)
  have "space_len ((a # t) @ 32 # r) = 0" using Cons.prems space_len_append_space [of "a # t" r] by simp
  then have "fields_loop cur ((a # t) @ 32 # r) = fields_loop (cur @ [a]) (t @ 32 # r)"
    by (subst fields_loop.simps) simp
  with Cons show ?case by simp
qed simp

lemma fields_loop_plain_end: "plain x \<Longrightarrow> fields_loop cur x = flush_field (cur @ x)"
proof (induction x arbitrary: cur)
  case (Cons a t)
  then have "fields_loop cur (a # t) = fields_loop (cur @ [a]) t"
    by (subst fields_loop.simps) simp
  with Cons show ?case by simp
qed simp

lemma Fields_join: "list_all (\<lambda>x. plain x \<and> x \<noteq> []) xs \<Longrightarrow> Fields (join_space xs) = xs"
  by (induction xs rule: join_space.induct)
    (simp_all add: Fields_def fields_loop_plain fields_loop_plain_end flush_field_def)

text \<open>Every field is plain, so only plain paths can come back.\<close>

lemma plain_iff: "plain x \<longleftrightarrow> (\<forall>u v. x = u @ v \<longrightarrow> v \<noteq> [] \<longrightarrow> space_len v = 0)"
proof (induction x)
  case (Cons a t)
  have "(\<forall>u v. a # t = u @ v \<longrightarrow> v \<noteq> [] \<longrightarrow> space_len v = 0) \<longleftrightarrow>
      space_len (a # t) = 0 \<and> (\<forall>u v. t = u @ v \<longrightarrow> v \<noteq> [] \<longrightarrow> space_len v = 0)" (is "?L \<longleftrightarrow> ?R")
  proof
    assume L: ?L
    have "space_len (a # t) = 0" using L [rule_format, of "[]" "a # t"] by simp
    moreover have "space_len v = 0" if "t = u @ v" "v \<noteq> []" for u v
      using L [rule_format, of "a # u" v] that by simp
    ultimately show ?R by blast
  next
    assume R: ?R
    show ?L
    proof (intro allI impI)
      fix u v assume "a # t = u @ v" "v \<noteq> []"
      with R show "space_len v = 0" by (cases u) auto
    qed
  qed
  with Cons.IH show ?case by simp
qed simp

lemma plain_prefix:
  assumes "\<And>u v. cur = u @ v \<Longrightarrow> v \<noteq> [] \<Longrightarrow> space_len (v @ s) = 0"
  shows "plain cur"
  unfolding plain_iff using assms space_len_mono by (metis gr0I less_irrefl)

lemma fields_loop_all_plain:
  "(\<And>u v. cur = u @ v \<Longrightarrow> v \<noteq> [] \<Longrightarrow> space_len (v @ s) = 0) \<Longrightarrow>
    list_all (\<lambda>x. plain x \<and> x \<noteq> []) (fields_loop cur s)"
proof (induction cur s rule: fields_loop.induct)
  case (1 cur s)
  have p: "list_all (\<lambda>x. plain x \<and> x \<noteq> []) (flush_field cur)"
    using plain_prefix [of cur s] "1.prems" by (simp add: flush_field_def)
  show ?case
  proof (cases "s = [] \<or> 0 < space_len s")
    case True
    with p 1 show ?thesis by (subst fields_loop.simps) auto
  next
    case False
    have "space_len (v @ tl s) = 0" if v1: "cur @ [hd s] = u @ v" and v2: "v \<noteq> []" for u v
    proof -
      obtain w y where v: "v = w @ [y]" using v2 by (cases v rule: rev_cases) auto
      then have "y = hd s" "cur = u @ w" using v1 by (simp_all flip: append_assoc)
      with v have "v = w @ [hd s]" "cur = u @ w" by simp_all
      then show ?thesis using False "1.prems" [of u w] by (cases "w = []") auto
    qed
    with 1 False show ?thesis by (subst fields_loop.simps) auto
  qed
qed

lemma Fields_join_iff: "Fields (join_space xs) = xs \<longleftrightarrow> list_all (\<lambda>x. plain x \<and> x \<noteq> []) xs"
  using Fields_join fields_loop_all_plain [of "[]" "join_space xs"] by (auto simp: Fields_def)

section \<open>Properties\<close>

text \<open>C21: Batches of hashes are atomic. Whatever statement of the transaction fails, either
  \<open>InsertHashes\<close> reports an error and the database is as before, or it reports none and the
  count of every hash has grown by its entries of the batch, in whatever order the map was
  traversed; the primary keys stay distinct and the torrents are not touched.\<close>

theorem insert_hashes_atomic:
  assumes "InsertHashes env now hcs s = (err, s')" and "distinct (map h_InfoHash (hashes s))"
    and "mset hcs' = mset hcs"
  shows "(err = None \<or> s' = s)
    \<and> db_count s' h = db_count s h + (if err = None then entry_count hcs' h else 0)
    \<and> distinct (map h_InfoHash (hashes s')) \<and> torrents s' = torrents s"
proof -
  have "distinct (map h_InfoHash (hashes s')) \<and> torrents s' = torrents s"
    using assms(1,2) keys_insert_loop by (auto simp: InsertHashes_def split: option.splits sum.splits)
  moreover have "err = None \<or> s' = s" using InsertHashes_error [of env now hcs s] assms(1) by (cases err) auto
  ultimately show ?thesis
    using InsertHashes_count [OF assms(1), of h] entry_count_mset [OF assms(3), of h] by simp
qed

theorem insert_hashes_atomic_witness:
  "\<exists>s'. InsertHashes no_failure 0 [([1], 3), ([2], 4)] (New True) = (None, s')
     \<and> db_count s' [2] = 4"
proof -
  obtain s' where s': "InsertHashes no_failure 0 [([1], 3), ([2], 4)] (New True) = (None, s')"
    by (simp add: InsertHashes_def no_failure_def)
  have "distinct (map h_InfoHash (hashes (New True)))" by (simp add: New_def)
  from insert_hashes_atomic [OF s' this refl, of "[2]"] s' show ?thesis
    by (simp add: db_count_def New_def row_count_def)
qed

lemma torrent_read_back:
  assumes "InsertTorrent None t s = (None, s')"
  shows "\<exists>fs. GetTorrent None (InfoHash t) s'
      = Inr (Some (t\<lparr>Files := map (\<lambda>p. \<lparr>Path = p, FileSize = 0\<rparr>) fs,
                     CreatedAt := CreatedAt t - CreatedAt t mod 1000000000\<rparr>))
    \<and> (fs = map Path (Files t) \<longleftrightarrow> list_all (\<lambda>f. plain (Path f) \<and> Path f \<noteq> []) (Files t))
    \<and> (h = InfoHash t \<or> GetTorrent None h s' = GetTorrent None h s)"
proof -
  let ?files = "join_space (map Path (Files t))"
  let ?row = "\<lparr>t_info_hash = InfoHash t, t_name = Name t, t_size = TorrentSize t, t_files = ?files,
      t_file_count = FileCount t, t_created_at = Unix (CreatedAt t), t_req_count = ReqCount t\<rparr>"
  have s': "s' = s\<lparr>torrents := filter (\<lambda>r. t_info_hash r \<noteq> InfoHash t) (torrents s) @ [?row]\<rparr>"
    using assms by (cases "Files t") (simp_all add: InsertTorrent_def Let_def)
  have none: "find (\<lambda>r. t_info_hash r = InfoHash t) (filter (\<lambda>r. t_info_hash r \<noteq> InfoHash t) rows) = None" for rows
    by (simp add: find_None_iff)
  have found: "find (\<lambda>r. t_info_hash r = InfoHash t) (torrents s') = Some ?row"
    by (simp add: s' find_append none)
  have other: "find (\<lambda>r. t_info_hash r = h) (filter (\<lambda>r. t_info_hash r \<noteq> InfoHash t) rows)
      = find (\<lambda>r. t_info_hash r = h) rows" if "h \<noteq> InfoHash t" for rows
    using that by (induction rows) auto
  have "from_Unix (Unix c) = c - c mod 1000000000" for c :: int
    by (simp add: from_Unix_def Unix_def minus_mod_eq_div_mult)
  moreover have "Fields [] = []" by (simp add: Fields_def flush_field_def)
  ultimately have "GetTorrent None (InfoHash t) s' = Inr (Some (t\<lparr>Files :=
      map (\<lambda>p. \<lparr>Path = p, FileSize = 0\<rparr>) (Fields ?files),
      CreatedAt := CreatedAt t - CreatedAt t mod 1000000000\<rparr>))"
    using found by (cases t) (simp add: GetTorrent_def record_of_row_def)
  moreover have "h = InfoHash t \<or> GetTorrent None h s' = GetTorrent None h s"
    by (auto simp: GetTorrent_def s' find_append other split: option.split)
  ultimately show ?thesis
    using Fields_join_iff [of "map Path (Files t)"] by (auto simp: list.pred_map comp_def)
qed

text \<open>C32: A stored torrent reads back. After \<open>InsertTorrent\<close>, \<open>GetTorrent\<close> returns the record with
  its creation time cut to seconds, file sizes lost, and as files the fields of the joined
  paths; these are the original paths exactly when every path is non-empty and holds no
  space. Every other torrent reads as before.\<close>

theorem torrent_roundtrip:
  assumes "InsertTorrent None t s = (None, s')"
  shows "\<exists>fs. GetTorrent None (InfoHash t) s'
      = Inr (Some (t\<lparr>Files := map (\<lambda>p. \<lparr>Path = p, FileSize = 0\<rparr>) fs,
                     CreatedAt := CreatedAt t - CreatedAt t mod 1000000000\<rparr>))
    \<and> (fs = map Path (Files t) \<longleftrightarrow> list_all (\<lambda>f. plain (Path f) \<and> Path f \<noteq> []) (Files t))
    \<and> (h = InfoHash t \<or> GetTorrent None h s' = GetTorrent None h s)"
  using assms by (rule torrent_read_back)

definition sample_torrent :: torrent_record where
  "sample_torrent = \<lparr>InfoHash = [1], Name = bs ''n'', TorrentSize = 7,
     Files = [\<lparr>Path = bs ''a'', FileSize = 3\<rparr>, \<lparr>Path = bs ''b'', FileSize = 4\<rparr>],
     FileCount = 2, CreatedAt = 0, ReqCount = 1\<rparr>"

theorem torrent_roundtrip_witness:
  "\<exists>s'. InsertTorrent None sample_torrent (New False) = (None, s')
     \<and> GetTorrent None [1] s' = Inr (Some (sample_torrent\<lparr>Files :=
         [\<lparr>Path = bs ''a'', FileSize = 0\<rparr>, \<lparr>Path = bs ''b'', FileSize = 0\<rparr>]\<rparr>))"
proof -
  obtain s' where s': "InsertTorrent None sample_torrent (New False) = (None, s')"
    by (simp add: InsertTorrent_def Let_def)
  have ok: "list_all (\<lambda>f. plain (Path f) \<and> Path f \<noteq> []) (Files sample_torrent)"
    by (simp add: sample_torrent_def bs_def space_len_def)
  from torrent_roundtrip [OF s'] ok obtain fs where
    "GetTorrent None (InfoHash sample_torrent) s' = Inr (Some (sample_torrent\<lparr>
       Files := map (\<lambda>p. \<lparr>Path = p, FileSize = 0\<rparr>) fs,
       CreatedAt := CreatedAt sample_torrent - CreatedAt sample_torrent mod 1000000000\<rparr>))"
    "fs = map Path (Files sample_torrent)" by blast
  then show ?thesis using s' by (simp add: sample_torrent_def)
qed

text \<open>The pending hashes. Whatever order the engine scans the table in, the query returns
  the first \<open>limit\<close> of the hashes that have no stored torrent, with multiplicity, by descending
  request count and, for equal counts, descending last sighting.\<close>

lemma pending_hashes_ranked:
  assumes "\<And>xs. mset (scan xs) = mset xs" and "0 \<le> limit"
  shows "\<exists>hs rest. GetPendingHashes scan None limit s =
      Inr (map (\<lambda>h. h\<lparr>h_FirstSeen := from_Unix (h_FirstSeen h), h_LastSeen := from_Unix (h_LastSeen h)\<rparr>) hs)
    \<and> mset (hs @ rest) = filter_mset (\<lambda>h. h_InfoHash h \<notin> t_info_hash ` set (torrents s)) (mset (hashes s))
    \<and> (length hs = nat limit \<or> rest = [] \<and> length hs \<le> nat limit)
    \<and> sorted_wrt (\<lambda>a b. h_ReqCount b < h_ReqCount a
         \<or> h_ReqCount b = h_ReqCount a \<and> h_LastSeen b \<le> h_LastSeen a) (hs @ rest)"
proof -
  let ?p = "filter (\<lambda>h. \<not> (\<exists>t \<in> set (torrents s). t_info_hash t = h_InfoHash h)) (hashes s)"
  let ?k = "\<lambda>h. (- h_ReqCount h, - h_LastSeen h)"
  let ?l = "sort_key ?k (scan ?p)"
  have "sorted (map ?k ?l)" by simp
  then have "sorted_wrt (\<lambda>a b. ?k a \<le> ?k b) ?l" by (simp only: sorted_wrt_map)
  then have "sorted_wrt (\<lambda>a b. h_ReqCount b < h_ReqCount a
      \<or> h_ReqCount b = h_ReqCount a \<and> h_LastSeen b \<le> h_LastSeen a) ?l"
    by (rule sorted_wrt_mono_rel [rotated]) (auto simp: less_eq_prod_def)
  moreover have "(\<exists>t \<in> set (torrents s). t_info_hash t = h) \<longleftrightarrow> h \<in> t_info_hash ` set (torrents s)" for h
    by auto
  then have "mset ?l = filter_mset (\<lambda>h. h_InfoHash h \<notin> t_info_hash ` set (torrents s)) (mset (hashes s))"
    using assms(1) by simp
  moreover have "length (take (nat limit) ?l) = nat limit
      \<or> drop (nat limit) ?l = [] \<and> length (take (nat limit) ?l) \<le> nat limit"
    by auto
  ultimately show ?thesis
    using assms(2) by (intro exI [of _ "take (nat limit) ?l"] exI [of _ "drop (nat limit) ?l"])
      (simp add: GetPendingHashes_def sql_limit_def)
qed

lemma pending_hashes_ranked_witness:
  "\<exists>hs rest. GetPendingHashes rev None 5 (New True) =
      Inr (map (\<lambda>h. h\<lparr>h_FirstSeen := from_Unix (h_FirstSeen h), h_LastSeen := from_Unix (h_LastSeen h)\<rparr>) hs)
    \<and> mset (hs @ rest) = {#}"
  using pending_hashes_ranked [of rev 5 "New True"] by (auto simp: New_def)

end
