(* ===== verification/Fifo.thy ===== *)
theory Fifo
  imports Go_Chan
begin

text \<open>
  First in, first out: the interface shared by the bounded buffers of the program (the Go
  channels and the download queue). A step of such a buffer may take elements in and let
  elements out; the law is that what goes in comes out in the same order.
\<close>

text \<open>A run of steps, with everything that went in and came out.\<close>

fun trace :: "('op \<Rightarrow> 'q \<Rightarrow> 'a list \<times> 'a list \<times> 'q) \<Rightarrow> 'op list \<Rightarrow> 'q \<Rightarrow> 'a list \<times> 'a list \<times> 'q" where
  "trace step [] q = ([], [], q)"
| "trace step (op # ops) q =
     (let (i, out, q1) = step op q; (is, outs, q2) = trace step ops q1 in (i @ is, out @ outs, q2))"

locale fifo =
  fixes step :: "'op \<Rightarrow> 'q \<Rightarrow> 'a list \<times> 'a list \<times> 'q"
    and elems :: "'q \<Rightarrow> 'a list"
    and bound :: "'q \<Rightarrow> nat"
  assumes order: "step op q = (i, out, q') \<Longrightarrow> elems q @ i = out @ elems q'"
    and bounded: "step op q = (i, out, q') \<Longrightarrow> bound q' = bound q
      \<and> (length (elems q) \<le> bound q \<longrightarrow> length (elems q') \<le> bound q')"
begin

lemma trace_order: "trace step ops q = (i, out, q') \<Longrightarrow> elems q @ i = out @ elems q'"
proof (induction ops arbitrary: q i out)
  case (Cons op ops)
  obtain i1 o1 q1 where s: "step op q = (i1, o1, q1)" by (cases "step op q") auto
  from Cons.prems s obtain i2 o2 where t: "trace step ops q1 = (i2, o2, q')"
    and "i = i1 @ i2" "out = o1 @ o2" by (auto split: prod.splits)
  then show ?case using order [OF s] Cons.IH [OF t] by (metis append_assoc)
qed simp

lemma trace_bounded:
  "trace step ops q = (i, out, q') \<Longrightarrow> length (elems q) \<le> bound q
    \<Longrightarrow> bound q' = bound q \<and> length (elems q') \<le> bound q"
proof (induction ops arbitrary: q i out)
  case (Cons op ops)
  obtain i1 o1 q1 where s: "step op q = (i1, o1, q1)" by (cases "step op q") auto
  from Cons.prems(1) s obtain i2 o2 where t: "trace step ops q1 = (i2, o2, q')"
    by (auto split: prod.splits)
  show ?case using bounded [OF s] Cons.IH [OF t] Cons.prems(2) by auto
qed simp

text \<open>A buffer that starts empty has let out a prefix of what it took in.\<close>

lemma trace_prefix:
  assumes "trace step ops q = (i, out, q')" and "elems q = []"
  shows "i = out @ elems q'"
  using trace_order [OF assms(1)] assms(2) by simp

end

section \<open>Channels\<close>

datatype 'a chan_op = Send 'a | Recv

text \<open>The operations on an open channel.\<close>

fun chan_step :: "'a chan_op \<Rightarrow> 'a chan \<Rightarrow> 'a list \<times> 'a list \<times> 'a chan" where
  "chan_step (Send x) c =
     (case try_send x c of Inl _ \<Rightarrow> ([], [], c) | Inr (b, c') \<Rightarrow> (if b then [x] else [], [], c'))"
| "chan_step Recv c =
     (case recv c of (None, c') \<Rightarrow> ([], [], c') | (Some x, c') \<Rightarrow> ([], [x], c'))"

interpretation chan_fifo: fifo chan_step ch_buf ch_cap
proof unfold_locales
  fix op :: "'a chan_op" and q i out q'
  assume s: "chan_step op q = (i, out, q')"
  show "ch_buf q @ i = out @ ch_buf q'"
    using s by (cases op) (auto simp: try_send_def recv_def split: if_splits sum.splits list.splits)
  show "ch_cap q' = ch_cap q \<and> (length (ch_buf q) \<le> ch_cap q \<longrightarrow> length (ch_buf q') \<le> ch_cap q')"
    using s by (cases op) (auto simp: try_send_def recv_def split: if_splits sum.splits list.splits)
qed

end
