(* ===== verification/Hash_Cache.thy ===== *)
theory Hash_Cache
  imports Storage Fifo
begin

text \<open>
  \<open>internal/crawler/cache.go\<close>: the counting cache in front of the table of pending hashes, and
  the download queue. The cache's \<open>Flush\<close> gives up its lock between taking the items and
  storing them, so it is modelled as the composition of two atomic steps which other calls
  can interleave; \<open>in_hand\<close> holds the batches of flushes that are between the two.
\<close>

section \<open>The hash cache\<close>

record cache_item =
  ci_count :: int
  ci_firstSeen :: int

type_synonym cache_items = "(bytes \<times> cache_item) list"

record hash_cache =
  items :: cache_items
  maxSize :: int
  totalAdded :: uint64
  totalFlushed :: uint64

definition NewHashCache :: "int \<Rightarrow> hash_cache" where
  "NewHashCache m = \<lparr>items = [], maxSize = m, totalAdded = 0, totalFlushed = 0\<rparr>"

text \<open>The locked part of \<open>Add\<close>, with the statistics; it tells whether a flush is due.\<close>

definition add_locked :: "int \<Rightarrow> bytes \<Rightarrow> hash_cache \<Rightarrow> bool \<times> hash_cache" where
  "add_locked now infoHash c =
     (let its = (case map_of (items c) infoHash of
                   Some item \<Rightarrow> AList.update infoHash (item\<lparr>ci_count := ci_count item + 1\<rparr>) (items c)
                 | None \<Rightarrow> AList.update infoHash \<lparr>ci_count = 1, ci_firstSeen = now\<rparr> (items c)) in
      (int (length its) \<ge> maxSize c, c\<lparr>items := its, totalAdded := totalAdded c + 1\<rparr>))"

text \<open>The first half of \<open>Flush\<close>: it takes the items, unless there are none.\<close>

definition flush_take :: "hash_cache \<Rightarrow> (cache_items \<times> hash_cache) option" where
  "flush_take c =
     (if items c = [] then None
      else Some (items c, c\<lparr>items := [], totalFlushed := totalFlushed c + of_nat (length (items c))\<rparr>))"

definition counts_of :: "cache_items \<Rightarrow> (bytes \<times> int) list" where
  "counts_of its = map (\<lambda>(hash, item). (hash, ci_count item)) its"

text \<open>Putting the items back after a failed insertion.\<close>

fun put_back :: "cache_items \<Rightarrow> cache_items \<Rightarrow> cache_items" where
  "put_back [] its = its"
| "put_back ((hash, item) # rest) its =
     put_back rest
       (case map_of its hash of
          Some existing \<Rightarrow> AList.update hash (existing\<lparr>ci_count := ci_count existing + ci_count item\<rparr>) its
        | None \<Rightarrow> AList.update hash item its)"

text \<open>
  The second half of \<open>Flush\<close>; \<open>ord\<close> is the order in which Go meets the entries of the map it
  hands to the storage.
\<close>

definition flush_store ::
  "tx_env \<Rightarrow> int \<Rightarrow> ((bytes \<times> int) list \<Rightarrow> (bytes \<times> int) list) \<Rightarrow> cache_items
    \<Rightarrow> hash_cache \<Rightarrow> storage \<Rightarrow> go_error option \<times> hash_cache \<times> storage" where
  "flush_store env now ord its c s =
     (case InsertHashes env now (ord (counts_of its)) s of
        (Some e, s') \<Rightarrow> (Some e, c\<lparr>items := put_back its (items c)\<rparr>, s')
      | (None, s') \<Rightarrow> (None, c, s'))"

definition Flush ::
  "tx_env \<Rightarrow> int \<Rightarrow> ((bytes \<times> int) list \<Rightarrow> (bytes \<times> int) list)
    \<Rightarrow> hash_cache \<Rightarrow> storage \<Rightarrow> go_error option \<times> hash_cache \<times> storage" where
  "Flush env now ord c s =
     (case flush_take c of
        None \<Rightarrow> (None, c, s)
      | Some (its, c') \<Rightarrow> flush_store env now ord its c' s)"

definition Add_cache ::
  "tx_env \<Rightarrow> int \<Rightarrow> ((bytes \<times> int) list \<Rightarrow> (bytes \<times> int) list) \<Rightarrow> bytes
    \<Rightarrow> hash_cache \<Rightarrow> storage \<Rightarrow> hash_cache \<times> storage" where
  "Add_cache env now ord infoHash c s =
     (let (shouldFlush, c') = add_locked now infoHash c in
      if shouldFlush then snd (Flush env now ord c' s) else (c', s))"

definition Size_cache :: "hash_cache \<Rightarrow> nat" where
  "Size_cache c = length (items c)"

definition Stats_cache :: "hash_cache \<Rightarrow> uint64 \<times> uint64 \<times> nat" where
  "Stats_cache c = (totalAdded c, totalFlushed c, length (items c))"

text \<open>\<open>StartFlusher\<close> begins with a ticker, which \<open>time.NewTicker\<close> refuses to make for no time.\<close>

definition NewTicker :: "int \<Rightarrow> go_panic option" where
  "NewTicker d = (if d \<le> 0 then Some NonPositiveInterval else None)"

section \<open>Counting\<close>

definition item_count :: "cache_items \<Rightarrow> bytes \<Rightarrow> int" where
  "item_count its h = entry_count (counts_of its) h"

lemma item_count_simps [simp]:
  "item_count [] h = 0"
  "item_count ((k, i) # its) h = (if k = h then ci_count i else 0) + item_count its h"
  by (simp_all add: item_count_def counts_of_def)

lemma item_count_absent: "h \<notin> fst ` set its \<Longrightarrow> item_count its h = 0"
  by (induction its) auto

lemma item_count_update:
  assumes "distinct (map fst its)"
  shows "item_count (AList.update k i its) h = item_count its h
    + (if k = h then ci_count i - (case map_of its k of None \<Rightarrow> 0 | Some j \<Rightarrow> ci_count j) else 0)"
  using assms by (induction its) (auto simp: item_count_absent split: option.split)

lemma distinct_update_keys: "distinct (map fst its) \<Longrightarrow> distinct (map fst (AList.update k i its))"
  by (simp add: distinct_update)

lemma add_locked_count:
  assumes "distinct (map fst (items c))"
  shows "distinct (map fst (items (snd (add_locked now k c))))"
    and "item_count (items (snd (add_locked now k c))) h = item_count (items c) h + (if k = h then 1 else 0)"
  using assms by (auto simp: add_locked_def Let_def item_count_update distinct_update split: option.split)

lemma put_back_count:
  "distinct (map fst its) \<Longrightarrow> distinct (map fst (put_back b its))
     \<and> item_count (put_back b its) h = item_count its h + item_count b h"
  by (induction b its rule: put_back.induct)
    (auto simp: item_count_update distinct_update split: option.splits)

text \<open>
  The interface of the storage the cache relies on: a sink that takes a whole batch of counts
  or, with an error, nothing.
\<close>

locale count_sink =
  fixes sink :: "'e \<Rightarrow> (bytes \<times> int) list \<Rightarrow> 's \<Rightarrow> go_error option \<times> 's"
    and cnt :: "'s \<Rightarrow> bytes \<Rightarrow> int"
  assumes sink_cnt: "sink e hcs s = (err, s')
    \<Longrightarrow> cnt s' h = cnt s h + (if err = None then entry_count hcs h else 0)"
begin

lemma nothing_lost:
  assumes "sink e (ord (counts_of b)) s = (err, s')" and "mset (ord (counts_of b)) = mset (counts_of b)"
    and "distinct (map fst its)"
  shows "cnt s' h + item_count (if err = None then its else put_back b its) h
    = cnt s h + item_count its h + item_count b h"
  using sink_cnt [OF assms(1), of h] entry_count_mset [OF assms(2), of h] put_back_count [OF assms(3), of b h]
  by (simp add: item_count_def)

end

interpretation db: count_sink "\<lambda>(env, now). InsertHashes env now" db_count
  by unfold_locales (auto simp: InsertHashes_count)

section \<open>Interleaved flushes\<close>

record cache_system =
  cache :: hash_cache
  in_hand :: "cache_items list"
  db :: storage

datatype cache_op =
    AddHash int bytes
  | TakeBatch
  | StoreBatch nat tx_env int "(bytes \<times> int) list \<Rightarrow> (bytes \<times> int) list"

fun cache_exec :: "cache_op \<Rightarrow> cache_system \<Rightarrow> cache_system" where
  "cache_exec (AddHash now h) y = y\<lparr>cache := snd (add_locked now h (cache y))\<rparr>"
| "cache_exec TakeBatch y =
     (case flush_take (cache y) of
        None \<Rightarrow> y
      | Some (its, c) \<Rightarrow> y\<lparr>cache := c, in_hand := in_hand y @ [its]\<rparr>)"
| "cache_exec (StoreBatch k env now ord) y =
     (if k < length (in_hand y) then
        (case flush_store env now ord (in_hand y ! k) (cache y) (db y) of
           (e, c, s) \<Rightarrow> y\<lparr>cache := c, db := s, in_hand := take k (in_hand y) @ drop (Suc k) (in_hand y)\<rparr>)
      else y)"

definition total_count :: "cache_system \<Rightarrow> bytes \<Rightarrow> int" where
  "total_count y h = item_count (items (cache y)) h + (\<Sum>b \<leftarrow> in_hand y. item_count b h) + db_count (db y) h"

fun cache_op_ok :: "cache_op \<Rightarrow> bool" where
  "cache_op_ok (StoreBatch k env now ord) = (\<forall>xs. mset (ord xs) = mset xs)"
| "cache_op_ok _ = True"

definition adds_of :: "bytes \<Rightarrow> cache_op list \<Rightarrow> nat" where
  "adds_of h ops = length (filter (\<lambda>op. \<exists>now. op = AddHash now h) ops)"

lemma sum_list_delete:
  "k < length xs \<Longrightarrow> (\<Sum>x \<leftarrow> take k xs @ drop (Suc k) xs. f x) + f (xs ! k) = (\<Sum>x \<leftarrow> xs. f x :: int)"
  by (subst (3) id_take_nth_drop [of k xs]) simp_all

lemma cache_exec_count:
  assumes "cache_op_ok op" and "distinct (map fst (items (cache y)))"
  shows "distinct (map fst (items (cache (cache_exec op y))))
    \<and> total_count (cache_exec op y) h = total_count y h + int (adds_of h [op])"
proof (cases op)
  case (AddHash now k)
  then show ?thesis using add_locked_count [OF assms(2), of now k] by (simp add: total_count_def adds_of_def)
next
  case TakeBatch
  then show ?thesis using assms(2)
    by (auto simp: flush_take_def total_count_def adds_of_def)
next
  case (StoreBatch k env now ord)
  show ?thesis
  proof (cases "k < length (in_hand y)")
    case True
    let ?b = "in_hand y ! k" and ?its = "items (cache y)"
    obtain err s' where i: "InsertHashes env now (ord (counts_of ?b)) (db y) = (err, s')" by fastforce
    have "mset (ord (counts_of ?b)) = mset (counts_of ?b)" using assms(1) StoreBatch by simp
    then have n: "db_count s' h + item_count (if err = None then ?its else put_back ?b ?its) h
        = db_count (db y) h + item_count ?its h + item_count ?b h"
      using db.nothing_lost [of "(env, now)" ord ?b "db y" err s' ?its h] i assms(2) by simp
    have e: "cache_exec op y = y\<lparr>cache := (cache y)\<lparr>items := if err = None then ?its else put_back ?b ?its\<rparr>,
        db := s', in_hand := take k (in_hand y) @ drop (Suc k) (in_hand y)\<rparr>"
      using StoreBatch True i by (cases err) (simp_all add: flush_store_def)
    have "distinct (map fst (items (cache (cache_exec op y))))"
      using e put_back_count [OF assms(2), of ?b] assms(2) by simp
    moreover have "total_count (cache_exec op y) h = total_count y h"
      using e n sum_list_delete [OF True, of "\<lambda>b. item_count b h"] by (simp add: total_count_def)
    ultimately show ?thesis by (simp add: adds_of_def StoreBatch)
  qed (use assms StoreBatch in \<open>simp add: adds_of_def\<close>)
qed

lemma adds_of_Cons: "adds_of h (op # ops) = adds_of h [op] + adds_of h ops"
  by (simp add: adds_of_def)

lemma cache_run_count:
  "list_all cache_op_ok ops \<Longrightarrow> distinct (map fst (items (cache y))) \<Longrightarrow>
    distinct (map fst (items (cache (fold cache_exec ops y))))
    \<and> total_count (fold cache_exec ops y) h = total_count y h + int (adds_of h ops)"
proof (induction ops arbitrary: y)
  case (Cons op ops)
  then have "cache_op_ok op" "list_all cache_op_ok ops" by simp_all
  with cache_exec_count [of op y h] Cons show ?case
    by (subst adds_of_Cons) simp
qed (simp add: adds_of_def)

text \<open>A flush that nothing interleaves is the two steps in sequence.\<close>

lemma Flush_steps:
  "Flush env now ord c s = (e, c', s') \<Longrightarrow>
    fold cache_exec [TakeBatch, StoreBatch 0 env now ord] \<lparr>cache = c, in_hand = [], db = s\<rparr>
      = \<lparr>cache = c', in_hand = [], db = s'\<rparr>"
  by (auto simp: Flush_def split: option.splits prod.splits)

lemma Add_cache_steps:
  "Add_cache env now ord h c s = (c', s') \<Longrightarrow>
    \<lparr>cache = c', in_hand = [], db = s'\<rparr> =
      fold cache_exec (AddHash now h # (if fst (add_locked now h c) then [TakeBatch, StoreBatch 0 env now ord] else []))
        \<lparr>cache = c, in_hand = [], db = s\<rparr>"
  using Flush_steps [of env now ord "snd (add_locked now h c)" s]
  by (cases "Flush env now ord (snd (add_locked now h c)) s")
    (auto simp: Add_cache_def split: prod.splits if_splits)

text \<open>A failed flush has nevertheless been counted as flushed.\<close>

lemma failed_flush_counted:
  assumes "items c \<noteq> []" and "Flush env now ord c s = (Some e, c', s')"
  shows "s' = s \<and> totalFlushed c' = totalFlushed c + of_nat (length (items c))"
  using assms InsertHashes_error [of env now _ s]
  by (auto simp: Flush_def flush_take_def flush_store_def split: prod.splits option.splits)

section \<open>Properties of the cache\<close>

text \<open>No request for a hash is lost or counted twice. However calls of \<open>Add\<close> and the two
  halves of any number of concurrent flushes interleave, and whichever insertions fail, the
  count of a hash in the cache, in the batches being flushed and in the database together
  grows by one for each \<open>Add\<close> of it and by nothing else.\<close>

lemma cache_conserves_counts:
  assumes "list_all cache_op_ok ops" and "distinct (map fst (items (cache y)))"
  shows "total_count (fold cache_exec ops y) h = total_count y h + int (adds_of h ops)"
  using cache_run_count [OF assms] by simp

definition failing :: tx_env where
  "failing = no_failure\<lparr>commit_err := Some (ErrMessage ''database is locked'')\<rparr>"

lemma cache_conserves_counts_witness:
  "total_count (fold cache_exec [AddHash 0 [1], TakeBatch, AddHash 0 [1], StoreBatch 0 failing 5 rev]
     \<lparr>cache = NewHashCache 10, in_hand = [], db = New False\<rparr>) [1] = 2"
proof -
  let ?y = "\<lparr>cache = NewHashCache 10, in_hand = [], db = New False\<rparr>"
  have t: "total_count ?y [1] = 0"
    by (simp add: total_count_def NewHashCache_def New_def db_count_def row_count_def)
  have d: "distinct (map fst (items (cache ?y)))" by (simp add: NewHashCache_def)
  show ?thesis
    using cache_conserves_counts [OF _ d, of "[AddHash 0 [1], TakeBatch, AddHash 0 [1], StoreBatch 0 failing 5 rev]" "[1]"] t
    by (simp add: adds_of_def)
qed

text \<open>The cache stays small. After a call of \<open>Add\<close> whose flush, if one was due, did not
  fail, the cache holds fewer distinct hashes than its maximum (or none, for a maximum
  below one); every hash added is in the cache or in the database.\<close>

lemma cache_bounded:
  assumes "distinct (map fst (items c))" and "\<And>xs. mset (ord xs) = mset xs"
    and "Add_cache no_failure now ord h c s = (c', s')"
  shows "(int (Size_cache c') < maxSize c' \<or> items c' = []) \<and> maxSize c' = maxSize c
    \<and> item_count (items c') k + db_count s' k
        = item_count (items c) k + db_count s k + (if k = h then 1 else 0)"
proof -
  let ?c1 = "snd (add_locked now h c)"
  have m: "maxSize ?c1 = maxSize c" by (simp add: add_locked_def Let_def)
  have due: "fst (add_locked now h c) \<longleftrightarrow> int (length (items ?c1)) \<ge> maxSize c"
    by (simp add: add_locked_def Let_def)
  have store: "\<exists>s2. InsertHashes no_failure now hcs s = (None, s2)" for hcs
  proof -
    obtain rows where "insert_loop (\<lambda>_. None) 0 (Unix now) hcs (hashes s) = Inr rows"
      using insert_loop_ok by blast
    then show ?thesis by (simp add: InsertHashes_def no_failure_def)
  qed
  have small: "(int (Size_cache c') < maxSize c' \<or> items c' = []) \<and> maxSize c' = maxSize c"
  proof (cases "fst (add_locked now h c)")
    case True
    obtain s2 where "InsertHashes no_failure now (ord (counts_of (items ?c1))) s = (None, s2)"
      using store by blast
    then have "items c' = [] \<and> maxSize c' = maxSize ?c1"
      using assms(3) True
      by (auto simp: Add_cache_def Flush_def flush_take_def flush_store_def split: prod.splits if_splits)
    with m show ?thesis by simp
  next
    case False
    then have "c' = ?c1" using assms(3) by (simp add: Add_cache_def split: prod.splits)
    with False due m show ?thesis by (simp add: Size_cache_def)
  qed
  let ?ops = "AddHash now h # (if fst (add_locked now h c)
      then [TakeBatch, StoreBatch 0 no_failure now ord] else [])"
  have ok: "list_all cache_op_ok ?ops" using assms(2) by simp
  have d: "distinct (map fst (items (cache \<lparr>cache = c, in_hand = [], db = s\<rparr>)))" using assms(1) by simp
  have adds: "int (adds_of k ?ops) = (if k = h then 1 else 0)" by (simp add: adds_of_def)
  have "total_count \<lparr>cache = c', in_hand = [], db = s'\<rparr> k
      = total_count \<lparr>cache = c, in_hand = [], db = s\<rparr> k + (if k = h then 1 else 0)"
    unfolding Add_cache_steps [OF assms(3)] conjunct2 [OF cache_run_count [OF ok d]] adds ..
  then have "item_count (items c') k + db_count s' k
      = item_count (items c) k + db_count s k + (if k = h then 1 else 0)"
    by (simp add: total_count_def)
  with small show ?thesis by blast
qed

lemma cache_bounded_witness:
  "\<exists>c' s'. Add_cache no_failure 0 rev [1] (NewHashCache 1) (New False) = (c', s')
     \<and> item_count (items c') [1] + db_count s' [1] = 1"
proof -
  obtain c' s' where a: "Add_cache no_failure 0 rev [1] (NewHashCache 1) (New False) = (c', s')"
    by fastforce
  have "distinct (map fst (items (NewHashCache 1)))" by (simp add: NewHashCache_def)
  from cache_bounded [OF this _ a, of "[1]"] a show ?thesis
    by (simp add: NewHashCache_def New_def db_count_def row_count_def)
qed

end
