(* ===== verification/Download_Queue.thy ===== *)
theory Download_Queue
  imports Storage Fifo
begin

text \<open>
  The second half of \<open>internal/crawler/cache.go\<close>: the bounded queue of downloads with its set of
  hashes in flight. \<open>Add\<close> reserves the hash in the concurrent map first and gives the
  reservation back when the queue is full. It is one step here, although the reservation
  (\<open>LoadOrStore\<close>) comes before the lock of the items: between the two another \<open>Add\<close> of the same hash is refused
  even if the first one then finds the queue full, where the model would let the second one look at
  the queue itself.
\<close>

record download_item =
  di_infoHash :: bytes
  di_peerAddr :: bytes
  di_reqCount :: int
  di_addedAt :: int

record download_queue =
  q_items :: "download_item list"
  q_maxSize :: int
  inFlight :: "bytes set"

text \<open>\<open>make([]downloadItem, 0, maxSize)\<close>: an item has 64 bytes.\<close>

definition NewDownloadQueue :: "int \<Rightarrow> download_queue res" where
  "NewDownloadQueue m =
     (if make_ok (m * 64) then Inr \<lparr>q_items = [], q_maxSize = m, inFlight = {}\<rparr>
      else Inl (Panic MakeSliceLen))"

definition Add :: "int \<Rightarrow> bytes \<Rightarrow> bytes \<Rightarrow> download_queue \<Rightarrow> bool \<times> download_queue" where
  "Add now infoHash peerAddr q =
     (if infoHash \<in> inFlight q then (False, q)
      else
        let q1 = q\<lparr>inFlight := insert infoHash (inFlight q)\<rparr> in
        if int (length (q_items q1)) \<ge> q_maxSize q1
        then (False, q1\<lparr>inFlight := inFlight q1 - {infoHash}\<rparr>)
        else (True, q1\<lparr>q_items := q_items q1 @
                [\<lparr>di_infoHash = infoHash, di_peerAddr = peerAddr, di_reqCount = 0, di_addedAt = now\<rparr>]\<rparr>))"

definition Get :: "download_queue \<Rightarrow> download_item option \<times> download_queue" where
  "Get q =
     (case q_items q of [] \<Rightarrow> (None, q) | item # rest \<Rightarrow> (Some item, q\<lparr>q_items := rest\<rparr>))"

definition Complete :: "bytes \<Rightarrow> download_queue \<Rightarrow> download_queue" where
  "Complete infoHash q = q\<lparr>inFlight := inFlight q - {infoHash}\<rparr>"

fun refill_loop :: "int \<Rightarrow> hash_record list \<Rightarrow> download_queue \<Rightarrow> download_queue" where
  "refill_loop now [] q = q"
| "refill_loop now (h # hs) q =
     (if h_InfoHash h \<in> inFlight q then refill_loop now hs q
      else
        let q1 = q\<lparr>inFlight := insert (h_InfoHash h) (inFlight q)\<rparr> in
        if int (length (q_items q1)) \<ge> q_maxSize q1
        then q1\<lparr>inFlight := inFlight q1 - {h_InfoHash h}\<rparr>
        else refill_loop now hs (q1\<lparr>q_items := q_items q1 @
               [\<lparr>di_infoHash = h_InfoHash h, di_peerAddr = [], di_reqCount = h_ReqCount h,
                 di_addedAt = now\<rparr>]\<rparr>))"

definition Refill ::
  "(hash_record list \<Rightarrow> hash_record list) \<Rightarrow> go_error option \<Rightarrow> int \<Rightarrow> int \<Rightarrow> storage \<Rightarrow> download_queue
    \<Rightarrow> go_error option \<times> download_queue" where
  "Refill scan err now cnt s q =
     (case GetPendingHashes scan err cnt s of
        Inl e \<Rightarrow> (Some e, q)
      | Inr hs \<Rightarrow> (None, refill_loop now hs q))"

definition Size_queue :: "download_queue \<Rightarrow> nat" where
  "Size_queue q = length (q_items q)"

definition InFlightCount :: "download_queue \<Rightarrow> nat" where
  "InFlightCount q = card (inFlight q)"

section \<open>Runs\<close>

datatype queue_op =
    QAdd int bytes bytes
  | QGet
  | QComplete bytes
  | QRefill int "hash_record list"

text \<open>A step, with the items it takes in and lets out.\<close>

fun queue_step :: "queue_op \<Rightarrow> download_queue \<Rightarrow> download_item list \<times> download_item list \<times> download_queue" where
  "queue_step (QAdd now h p) q =
     (let (ok, q') = Add now h p q in (if ok then [last (q_items q')] else [], [], q'))"
| "queue_step QGet q = (case Get q of (None, q') \<Rightarrow> ([], [], q') | (Some x, q') \<Rightarrow> ([], [x], q'))"
| "queue_step (QComplete h) q = ([], [], Complete h q)"
| "queue_step (QRefill now hs) q =
     (let q' = refill_loop now hs q in (drop (length (q_items q)) (q_items q'), [], q'))"

lemma refill_loop_items:
  "\<exists>xs. q_items (refill_loop now hs q) = q_items q @ xs
     \<and> (length (q_items q) \<le> nat (q_maxSize q) \<longrightarrow> length (q_items q @ xs) \<le> nat (q_maxSize q))
     \<and> q_maxSize (refill_loop now hs q) = q_maxSize q
     \<and> distinct (map di_infoHash xs) \<and> di_infoHash ` set xs \<inter> inFlight q = {}
     \<and> inFlight (refill_loop now hs q) = inFlight q \<union> di_infoHash ` set xs"
proof (induction now hs q rule: refill_loop.induct)
  case (2 now h hs q)
  let ?q1 = "q\<lparr>inFlight := insert (h_InfoHash h) (inFlight q)\<rparr>"
  let ?x = "\<lparr>di_infoHash = h_InfoHash h, di_peerAddr = [], di_reqCount = h_ReqCount h, di_addedAt = now\<rparr>"
  consider "h_InfoHash h \<in> inFlight q"
    | "h_InfoHash h \<notin> inFlight q" "int (length (q_items q)) \<ge> q_maxSize q"
    | "h_InfoHash h \<notin> inFlight q" "int (length (q_items q)) < q_maxSize q" by linarith
  then show ?case
  proof cases
    case 1
    then show ?thesis using "2.IH"(1) by simp
  next
    case 2
    then have "refill_loop now (h # hs) q = q" by (cases q) auto
    then show ?thesis by (intro exI [of _ "[]"]) simp
  next
    case 3
    let ?q2 = "?q1\<lparr>q_items := q_items q @ [?x]\<rparr>"
    have r: "refill_loop now (h # hs) q = refill_loop now hs ?q2" using 3 by simp
    from "2.IH"(2) 3 obtain xs where "q_items (refill_loop now hs ?q2) = q_items ?q2 @ xs"
      "length (q_items ?q2) \<le> nat (q_maxSize ?q2) \<longrightarrow> length (q_items ?q2 @ xs) \<le> nat (q_maxSize ?q2)"
      "q_maxSize (refill_loop now hs ?q2) = q_maxSize ?q2"
      "distinct (map di_infoHash xs)" "di_infoHash ` set xs \<inter> inFlight ?q2 = {}"
      "inFlight (refill_loop now hs ?q2) = inFlight ?q2 \<union> di_infoHash ` set xs"
      by auto
    moreover have "length (q_items ?q2) \<le> nat (q_maxSize ?q2)" using 3 by simp
    ultimately show ?thesis unfolding r using 3 by (intro exI [of _ "?x # xs"]) auto
  qed
qed simp

lemma Add_cases:
  obtains "Add now h p q = (False, q)" "h \<in> inFlight q \<or> int (length (q_items q)) \<ge> q_maxSize q"
  | x where "Add now h p q = (True, q\<lparr>q_items := q_items q @ [x], inFlight := insert h (inFlight q)\<rparr>)"
      "di_infoHash x = h" "di_peerAddr x = p" "h \<notin> inFlight q" "int (length (q_items q)) < q_maxSize q"
proof -
  have "Add now h p q = (False, q)" if "h \<in> inFlight q \<or> int (length (q_items q)) \<ge> q_maxSize q"
    using that by (cases q) (auto simp: Add_def)
  moreover have "Add now h p q = (True, q\<lparr>q_items := q_items q @
        [\<lparr>di_infoHash = h, di_peerAddr = p, di_reqCount = 0, di_addedAt = now\<rparr>],
      inFlight := insert h (inFlight q)\<rparr>)"
    if "h \<notin> inFlight q" "int (length (q_items q)) < q_maxSize q"
    using that by (cases q) (auto simp: Add_def)
  ultimately show thesis using that by (metis download_item.select_convs(1,2) not_le)
qed

interpretation queue: fifo queue_step q_items "\<lambda>q. nat (q_maxSize q)"
proof unfold_locales
  fix op q i out q'
  assume s: "queue_step op q = (i, out, q')"
  have "q_items q @ i = out @ q_items q' \<and> q_maxSize q' = q_maxSize q
      \<and> (length (q_items q) \<le> nat (q_maxSize q) \<longrightarrow> length (q_items q') \<le> nat (q_maxSize q))"
  proof (cases op)
    case (QAdd now h p)
    show ?thesis using s
      by (cases rule: Add_cases [of now h p q]) (auto simp: QAdd)
  next
    case QGet
    then show ?thesis using s by (auto simp: Get_def split: list.splits)
  next
    case (QComplete h)
    then show ?thesis using s by (auto simp: Complete_def)
  next
    case (QRefill now hs)
    then show ?thesis using s refill_loop_items [of now hs q] by (auto simp: Let_def)
  qed
  then show "q_items q @ i = out @ q_items q'"
    and "nat (q_maxSize q') = nat (q_maxSize q)
      \<and> (length (q_items q) \<le> nat (q_maxSize q) \<longrightarrow> length (q_items q') \<le> nat (q_maxSize q'))"
    by simp_all
qed

section \<open>Hashes in flight\<close>

definition completions :: "bytes \<Rightarrow> queue_op list \<Rightarrow> nat" where
  "completions h ops = length (filter (\<lambda>op. op = QComplete h) ops)"

definition accepted_of :: "bytes \<Rightarrow> download_item list \<Rightarrow> nat" where
  "accepted_of h xs = length (filter (\<lambda>x. di_infoHash x = h) xs)"

lemma accepted_of_append [simp]: "accepted_of h (xs @ ys) = accepted_of h xs + accepted_of h ys"
  by (simp add: accepted_of_def)

lemma completions_Cons: "completions h (op # ops) = completions h [op] + completions h ops"
  by (simp add: completions_def)

lemma accepted_distinct:
  "distinct (map di_infoHash xs) \<Longrightarrow> accepted_of h xs = (if h \<in> di_infoHash ` set xs then 1 else 0)"
  by (induction xs) (auto simp: accepted_of_def image_iff)

lemma queue_step_in_flight:
  assumes "queue_step op q = (i, out, q')"
  shows "accepted_of h i + (if h \<in> inFlight q then 1 else 0)
      \<le> completions h [op] + (if h \<in> inFlight q' then 1 else 0)"
proof (cases op)
  case (QAdd now k p)
  show ?thesis using assms
    by (cases rule: Add_cases [of now k p q]) (auto simp: QAdd accepted_of_def completions_def)
next
  case (QRefill now hs)
  then show ?thesis using assms refill_loop_items [of now hs q]
    by (auto simp: Let_def accepted_distinct completions_def disjoint_iff)
qed (use assms in \<open>auto simp: Get_def Complete_def accepted_of_def completions_def split: list.splits\<close>)

lemma trace_in_flight:
  "trace queue_step ops q = (i, out, q') \<Longrightarrow>
    accepted_of h i + (if h \<in> inFlight q then 1 else 0)
      \<le> completions h ops + (if h \<in> inFlight q' then 1 else 0)"
proof (induction ops arbitrary: q i out)
  case Nil
  then show ?case by (simp add: accepted_of_def completions_def)
next
  case (Cons op ops)
  obtain i1 o1 q1 where s: "queue_step op q = (i1, o1, q1)" by (cases "queue_step op q") auto
  from Cons.prems s obtain i2 o2 where t: "trace queue_step ops q1 = (i2, o2, q')" and i: "i = i1 @ i2"
    by (auto split: prod.splits)
  show ?case
    using queue_step_in_flight [OF s, of h] Cons.IH [OF t] completions_Cons [of h op ops] by (simp add: i)
qed

section \<open>Properties\<close>

text \<open>C22: The download queue. From an empty queue, whatever calls of \<open>Add\<close>, \<open>Get\<close>, \<open>Complete\<close>
  and \<open>Refill\<close> follow, the items handed out by \<open>Get\<close> followed by those still queued are exactly
  the accepted ones in the order of acceptance; the queue never holds more than its maximum;
  and a hash is accepted at most once more often than it has been completed.\<close>

theorem download_queue_order:
  assumes "NewDownloadQueue m = Inr q" and "trace queue_step ops q = (accepted, got, q')"
  shows "accepted = got @ q_items q' \<and> int (length (q_items q')) \<le> m
    \<and> accepted_of h accepted \<le> completions h ops + 1"
proof -
  have q: "q = \<lparr>q_items = [], q_maxSize = m, inFlight = {}\<rparr>" and m: "0 \<le> m"
    using assms(1) by (simp_all add: NewDownloadQueue_def make_ok_def split: if_splits)
  have "length (q_items q') \<le> nat m" using queue.trace_bounded [OF assms(2)] q by simp
  then have "int (length (q_items q')) \<le> m" using m by linarith
  moreover have "accepted_of h accepted \<le> completions h ops + 1"
    using trace_in_flight [OF assms(2), of h] q by (simp split: if_splits)
  ultimately show ?thesis using queue.trace_prefix [OF assms(2)] q by simp
qed

theorem download_queue_order_witness:
  "\<exists>q accepted got q'. NewDownloadQueue 2 = Inr q
     \<and> trace queue_step [QAdd 0 [1] [], QAdd 0 [1] [], QAdd 0 [2] [], QGet, QAdd 0 [3] []] q
         = (accepted, got, q')
     \<and> accepted = got @ q_items q' \<and> length (q_items q') = 2"
proof -
  have n: "NewDownloadQueue 2 = Inr \<lparr>q_items = [], q_maxSize = 2, inFlight = {}\<rparr>" (is "_ = Inr ?q")
    by (simp add: NewDownloadQueue_def make_ok_def maxAlloc_def)
  let ?ops = "[QAdd 0 [1] [], QAdd 0 [1] [], QAdd 0 [2] [], QGet, QAdd 0 [3] []]"
  obtain a g q' where t: "trace queue_step ?ops ?q = (a, g, q')" by (cases "trace queue_step ?ops ?q") auto
  then have "length (q_items q') = 2" by (auto simp: Add_def Get_def)
  with download_queue_order [OF n t, of "[1]"] n t show ?thesis by blast
qed

end
