(* ===== verification/Metadata.thy ===== *)
theory Metadata
  imports Bencode Node_ID "HOL-Library.Signed_Division"
begin

text \<open>
  \<open>internal/bt/metadata.go\<close>: the download of a torrent's info dictionary from a peer. A
  connection is the bytes the peer will still send before the deadline, the error a read
  returns when they run out, the buffers written so far and the failures of writes; so every
  loop over messages ends, with the data or with that error. \<open>sha1\<close> is an argument: the
  code compares its value only.
\<close>

section \<open>Data\<close>

definition ProtocolName :: bytes where
  "ProtocolName = bs ''BitTorrent protocol''"

definition ExtMsgHandshake :: byte where
  "ExtMsgHandshake = 0"

definition MetadataPieceSize :: int where
  "MetadataPieceSize = 16384"

definition ExtensionBit :: byte where
  "ExtensionBit = 0x10"

record file_info =
  fi_Path :: bytes
  fi_Size :: int64

record torrent_meta =
  tm_InfoHash :: info_hash
  tm_Name :: bytes
  tm_Size :: int64
  tm_Files :: "file_info list"
  tm_PieceLen :: int64
  tm_RawInfo :: bytes

record downloader =
  MaxMetaSize :: int

definition NewMetadataDownloader :: downloader where
  "NewMetadataDownloader = \<lparr>MaxMetaSize = 10 * 1024 * 1024\<rparr>"

record conn =
  inp :: bytes
  end_err :: go_error
  written :: "bytes list"
  write_err :: "nat \<Rightarrow> go_error option"

definition ReadFull :: "nat \<Rightarrow> conn \<Rightarrow> (bytes \<times> conn) res" where
  "ReadFull k c =
     (if length (inp c) < k then Inl (Err (end_err c))
      else Inr (take k (inp c), c\<lparr>inp := drop k (inp c)\<rparr>))"

definition Write :: "bytes \<Rightarrow> conn \<Rightarrow> conn res" where
  "Write buf c =
     (case write_err c (length (written c)) of
        Some e \<Rightarrow> Inl (Err e)
      | None \<Rightarrow> Inr (c\<lparr>written := written c @ [buf]\<rparr>))"

section \<open>The handshakes\<close>

definition sendHandshake :: "info_hash \<Rightarrow> conn \<Rightarrow> conn res" where
  "sendHandshake infoHash c =
     Write ([19] @ ProtocolName @ [0, 0, 0, 0, 0, ExtensionBit, 0, 0] @ arr_bytes infoHash
            @ bs ''-GO0001-123456789012'') c"

definition readHandshake :: "info_hash \<Rightarrow> conn \<Rightarrow> (bytes \<times> conn) res" where
  "readHandshake infoHash c =
     (case ReadFull 1 c of
        Inl e \<Rightarrow> Inl e
      | Inr (pstrlen, c) \<Rightarrow>
     (case ReadFull (unat (hd pstrlen)) c of
        Inl e \<Rightarrow> Inl e
      | Inr (pstr, c) \<Rightarrow>
     (case ReadFull 8 c of
        Inl e \<Rightarrow> Inl e
      | Inr (reserved, c) \<Rightarrow>
     (case ReadFull 20 c of
        Inl e \<Rightarrow> Inl e
      | Inr (peerInfoHash, c) \<Rightarrow>
          if peerInfoHash \<noteq> arr_bytes infoHash then Inl (Err (ErrMessage ''info hash mismatch''))
          else
     (case ReadFull 20 c of
        Inl e \<Rightarrow> Inl e
      | Inr (peerID, c) \<Rightarrow> Inr (reserved, c))))))"

definition sendExtMessage :: "byte \<Rightarrow> bytes \<Rightarrow> conn \<Rightarrow> conn res" where
  "sendExtMessage extMsgID payload c =
     (let msgLen = 2 + length payload in
      Write (put_uint32 (of_nat msgLen) @ [20, extMsgID] @ payload) c)"

definition sendExtHandshake :: "conn \<Rightarrow> conn res" where
  "sendExtHandshake c =
     (case Encode (GDict [(bs ''m'', GDict [(bs ''ut_metadata'', GInt64 1)])]) of
        Inl e \<Rightarrow> Inl e
      | Inr payloadBytes \<Rightarrow> sendExtMessage ExtMsgHandshake payloadBytes c)"

definition readMessage :: "conn \<Rightarrow> ((byte \<times> bytes) \<times> conn) res" where
  "readMessage c =
     (case ReadFull 4 c of
        Inl e \<Rightarrow> Inl e
      | Inr (lenBuf, c) \<Rightarrow>
          let msgLen = get_uint32 (lenBuf ! 0) (lenBuf ! 1) (lenBuf ! 2) (lenBuf ! 3) in
          if msgLen = 0 then Inr ((0, []), c)
          else if msgLen > 10485760 then Inl (Err (ErrMessage ''message too large''))
          else
            (case ReadFull (unat msgLen) c of
               Inl e \<Rightarrow> Inl e
             | Inr (msg, c) \<Rightarrow> Inr ((hd msg, tl msg), c)))"

lemma readMessage_shorter: "readMessage c = Inr (m, c') \<Longrightarrow> length (inp c') < length (inp c)"
  by (auto simp: readMessage_def ReadFull_def Let_def split: if_splits)

text \<open>The loops over messages; every message read is input consumed.\<close>

function readExtHandshake :: "conn \<Rightarrow> (int \<times> int \<times> conn) res" where
  "readExtHandshake c =
     (case readMessage c of
        Inl e \<Rightarrow> Inl e
      | Inr ((msgType, payload), c') \<Rightarrow>
          if msgType \<noteq> 20 then readExtHandshake c'
          else if length payload < 1 then readExtHandshake c'
          else if hd payload \<noteq> ExtMsgHandshake then readExtHandshake c'
          else
            (case DecodeDict (tl payload) of
               Inl e \<Rightarrow> Inl e
             | Inr dict \<Rightarrow>
                 let metadataMsgID = (case GetDict dict (bs ''m'') of
                       None \<Rightarrow> 0
                     | Some m \<Rightarrow> (case GetInt m (bs ''ut_metadata'') of None \<Rightarrow> 0 | Some i \<Rightarrow> sint i));
                     metadataSize = (case GetInt dict (bs ''metadata_size'') of
                       None \<Rightarrow> 0 | Some sz \<Rightarrow> sint sz) in
                 Inr (metadataMsgID, metadataSize, c')))"
  by pat_completeness auto
termination
  by (relation "measure (\<lambda>c. length (inp c))") (auto dest: readMessage_shorter)

declare readExtHandshake.simps [simp del]

section \<open>The pieces\<close>

definition requestMetadataPiece :: "int \<Rightarrow> int \<Rightarrow> conn \<Rightarrow> conn res" where
  "requestMetadataPiece msgID piece c =
     (case Encode (GDict [(bs ''msg_type'', GInt64 0), (bs ''piece'', GInt64 (word_of_int piece))]) of
        Inl e \<Rightarrow> Inl e
      | Inr payload \<Rightarrow> sendExtMessage (word_of_int msgID) payload c)"

fun request_loop :: "int \<Rightarrow> int list \<Rightarrow> conn \<Rightarrow> conn res" where
  "request_loop msgID [] c = Inr c"
| "request_loop msgID (i # is) c =
     (case requestMetadataPiece msgID i c of Inl e \<Rightarrow> Inl e | Inr c' \<Rightarrow> request_loop msgID is c')"

definition parseMetadataPiece :: "bytes \<Rightarrow> (int \<times> bytes) res" where
  "parseMetadataPiece data =
     (case decode data of
        Inl e \<Rightarrow> Inl e
      | Inr (_, rest) \<Rightarrow>
          let dictEnd = length data - length rest in
          (case DecodeDict (take dictEnd data) of
             Inl e \<Rightarrow> Inl e
           | Inr dict \<Rightarrow>
               if GetInt dict (bs ''msg_type'') \<noteq> Some 1 then Inl (Err (ErrMessage ''not a data message''))
               else
                 (case GetInt dict (bs ''piece'') of
                    None \<Rightarrow> Inl (Err (ErrMessage ''missing piece index''))
                  | Some piece \<Rightarrow> Inr (sint piece, drop dictEnd data))))"

text \<open>\<open>copy(metadata[start:], data)\<close>.\<close>

definition copy_at :: "nat \<Rightarrow> bytes \<Rightarrow> bytes \<Rightarrow> bytes" where
  "copy_at start data buf = take start buf @ take (length buf - start) data @ drop (start + length data) buf"

function receive_loop :: "int \<Rightarrow> nat \<Rightarrow> bytes \<Rightarrow> bool list \<Rightarrow> nat \<Rightarrow> conn \<Rightarrow> (bytes \<times> conn) res" where
  "receive_loop msgID numPieces metadata received piecesReceived c =
     (if \<not> piecesReceived < numPieces then Inr (metadata, c)
      else
        case readMessage c of
          Inl e \<Rightarrow> Inl e
        | Inr ((msgType, payload), c') \<Rightarrow>
            if msgType \<noteq> 20 \<or> length payload < 1 then
              receive_loop msgID numPieces metadata received piecesReceived c'
            else if uint (hd payload) \<noteq> msgID then
              receive_loop msgID numPieces metadata received piecesReceived c'
            else
              (case parseMetadataPiece (tl payload) of
                 Inl (Panic p) \<Rightarrow> Inl (Panic p)
               | Inl (Err e) \<Rightarrow> receive_loop msgID numPieces metadata received piecesReceived c'
               | Inr (piece, data) \<Rightarrow>
                   if piece < 0 \<or> piece \<ge> int numPieces \<or> received ! nat piece then
                     receive_loop msgID numPieces metadata received piecesReceived c'
                   else
                     receive_loop msgID numPieces
                       (copy_at (nat (piece * MetadataPieceSize)) data metadata)
                       (received[nat piece := True]) (piecesReceived + 1) c'))"
  by pat_completeness auto
termination
  by (relation "measure (\<lambda>(_, _, _, _, _, c). length (inp c))") (auto dest: readMessage_shorter)

declare receive_loop.simps [simp del]

definition downloadMetadata :: "int \<Rightarrow> int \<Rightarrow> conn \<Rightarrow> (bytes \<times> conn) res" where
  "downloadMetadata msgID totalSize c =
     (let numPieces = (totalSize + MetadataPieceSize - 1) sdiv MetadataPieceSize in
      if \<not> make_ok totalSize then Inl (Panic MakeSliceLen)
      else if \<not> make_ok numPieces then Inl (Panic MakeSliceLen)
      else
        (case request_loop msgID (map int [0..<nat numPieces]) c of
           Inl e \<Rightarrow> Inl e
         | Inr c' \<Rightarrow>
             receive_loop msgID (nat numPieces) (replicate (nat totalSize) 0)
               (replicate (nat numPieces) False) 0 c'))"

section \<open>The info dictionary\<close>

fun path_parts :: "gval list \<Rightarrow> bytes list" where
  "path_parts [] = []"
| "path_parts (p # ps) = (case p of GBytes pb \<Rightarrow> pb # path_parts ps | _ \<Rightarrow> path_parts ps)"

definition join_path :: "bytes list \<Rightarrow> bytes" where
  "join_path parts =
     (if length parts > 0
      then foldl (\<lambda>path part. part @ [ch CHR ''/''] @ path) (last parts) (butlast parts) else [])"

definition file_of :: "gdict \<Rightarrow> file_info" where
  "file_of fileDict =
     \<lparr>fi_Path = (case GetList fileDict (bs ''path'') of
                   None \<Rightarrow> [] | Some pathList \<Rightarrow> join_path (path_parts pathList)),
      fi_Size = (case GetInt fileDict (bs ''length'') of None \<Rightarrow> 0 | Some len \<Rightarrow> len)\<rparr>"

fun files_loop :: "gval list \<Rightarrow> torrent_meta \<Rightarrow> torrent_meta" where
  "files_loop [] meta = meta"
| "files_loop (f # fs) meta =
     (case f of
        GDict fileDict \<Rightarrow>
          let meta = (case GetInt fileDict (bs ''length'') of
                        None \<Rightarrow> meta | Some len \<Rightarrow> meta\<lparr>tm_Size := tm_Size meta + len\<rparr>) in
          files_loop fs (meta\<lparr>tm_Files := tm_Files meta @ [file_of fileDict]\<rparr>)
      | _ \<Rightarrow> files_loop fs meta)"

definition parseMetadata :: "info_hash \<Rightarrow> bytes \<Rightarrow> torrent_meta res" where
  "parseMetadata infoHash data =
     (case DecodeDict data of
        Inl e \<Rightarrow> Inl e
      | Inr dict \<Rightarrow>
          let meta = \<lparr>tm_InfoHash = infoHash, tm_Name = [], tm_Size = 0, tm_Files = [],
                      tm_PieceLen = 0, tm_RawInfo = data\<rparr>;
              meta = (case GetString dict (bs ''name'') of
                        Some name \<Rightarrow> meta\<lparr>tm_Name := name\<rparr>
                      | None \<Rightarrow>
                          (case GetString dict (bs ''name.utf-8'') of
                             Some nameUtf8 \<Rightarrow> meta\<lparr>tm_Name := nameUtf8\<rparr> | None \<Rightarrow> meta));
              meta = (case GetInt dict (bs ''piece length'') of
                        Some pieceLen \<Rightarrow> meta\<lparr>tm_PieceLen := pieceLen\<rparr> | None \<Rightarrow> meta) in
          Inr (case GetList dict (bs ''files'') of
                 Some files \<Rightarrow> files_loop files meta
               | None \<Rightarrow>
                   (case GetInt dict (bs ''length'') of
                      Some len \<Rightarrow> meta\<lparr>tm_Size := len,
                        tm_Files := [\<lparr>fi_Path = tm_Name meta, fi_Size = len\<rparr>]\<rparr>
                    | None \<Rightarrow> meta)))"

section \<open>The download\<close>

definition Download ::
  "(bytes \<Rightarrow> info_hash) \<Rightarrow> downloader \<Rightarrow> info_hash \<Rightarrow> conn res \<Rightarrow> torrent_meta res" where
  "Download sha1 d infoHash dial =
     (case dial of
        Inl e \<Rightarrow> Inl e
      | Inr c \<Rightarrow>
     (case sendHandshake infoHash c of
        Inl e \<Rightarrow> Inl e
      | Inr c \<Rightarrow>
     (case readHandshake infoHash c of
        Inl e \<Rightarrow> Inl e
      | Inr (peerExtensions, c) \<Rightarrow>
          if (peerExtensions ! 5) AND ExtensionBit = 0 then Inl (Err ErrNoMetadataSupport)
          else
     (case sendExtHandshake c of
        Inl e \<Rightarrow> Inl e
      | Inr c \<Rightarrow>
     (case readExtHandshake c of
        Inl e \<Rightarrow> Inl e
      | Inr (metadataMsgID, metadataSize, c) \<Rightarrow>
          if metadataMsgID = 0 then Inl (Err ErrNoMetadataSupport)
          else if metadataSize > MaxMetaSize d then Inl (Err ErrMetadataTooBig)
          else
     (case downloadMetadata metadataMsgID metadataSize c of
        Inl e \<Rightarrow> Inl e
      | Inr (metadata, _) \<Rightarrow>
          if sha1 metadata \<noteq> infoHash then Inl (Err ErrInvalidMetadata)
          else parseMetadata infoHash metadata))))))"

section \<open>Framing\<close>

text \<open>A message of the peer wire protocol: a length, a type and a payload.\<close>

definition message_bytes :: "byte \<Rightarrow> bytes \<Rightarrow> bytes" where
  "message_bytes t p = put_uint32 (of_nat (Suc (length p))) @ t # p"

definition frame_ok :: "bytes \<Rightarrow> bool" where
  "frame_ok p \<longleftrightarrow> length p < 10485760"

lemma ReadFull_append [simp]:
  "length a = k \<Longrightarrow> ReadFull k (c\<lparr>inp := a @ b\<rparr>) = Inr (a, c\<lparr>inp := b\<rparr>)"
  by (simp add: ReadFull_def)

lemma ReadFull_Cons [simp]: "ReadFull (Suc 0) (c\<lparr>inp := x # b\<rparr>) = Inr ([x], c\<lparr>inp := b\<rparr>)"
  by (simp add: ReadFull_def)

lemma get_put_uint32_list:
  "get_uint32 (put_uint32 v ! 0) (put_uint32 v ! 1) (put_uint32 v ! 2) (put_uint32 v ! 3) = v"
  by (simp add: put_uint32_def)

lemma readMessage_message:
  assumes "frame_ok p"
  shows "readMessage (c\<lparr>inp := message_bytes t p @ rest\<rparr>) = Inr ((t, p), c\<lparr>inp := rest\<rparr>)"
proof -
  let ?n = "of_nat (Suc (length p)) :: uint32"
  have u: "unat ?n = Suc (length p)"
    using assms by (simp only: unat_of_nat) (simp add: frame_ok_def)
  have "?n \<noteq> 0" using u by (metis nat.distinct(1) unat_0)
  moreover have "\<not> ?n > 10485760"
    using u assms by (simp add: word_less_nat_alt frame_ok_def del: of_nat_Suc)
  moreover have "ReadFull (unat ?n) (c\<lparr>inp := (t # p) @ rest\<rparr>) = Inr (t # p, c\<lparr>inp := rest\<rparr>)"
    using u by (intro ReadFull_append) simp
  ultimately show ?thesis
    by (simp add: readMessage_def message_bytes_def get_put_uint32_list Let_def
        del: of_nat_Suc One_nat_def)
qed

lemma readMessage_keepalive:
  "readMessage (c\<lparr>inp := put_uint32 0 @ rest\<rparr>) = Inr ((0, []), c\<lparr>inp := rest\<rparr>)"
  by (simp add: readMessage_def get_put_uint32_list Let_def del: One_nat_def)

definition enc_message :: "byte \<times> bytes \<Rightarrow> bytes res" where
  "enc_message m = Inr (message_bytes (fst m) (snd m))"

definition dec_message :: "bytes \<Rightarrow> ((byte \<times> bytes) \<times> bytes) res" where
  "dec_message b =
     (case readMessage \<lparr>inp = b, end_err = ErrTimeout, written = [], write_err = (\<lambda>_. None)\<rparr> of
        Inl e \<Rightarrow> Inl e | Inr (m, c) \<Rightarrow> Inr (m, inp c))"

interpretation framing: prefix_codec enc_message dec_message "\<lambda>m. frame_ok (snd m)" "\<lambda>m. m"
proof unfold_locales
  fix m b rest
  assume "frame_ok (snd m)" "enc_message m = Inr b"
  then show "dec_message (b @ rest) = Inr (m, rest)"
    using readMessage_message [where p = "snd m" and t = "fst m" and rest = rest and
        c = "\<lparr>inp = [], end_err = ErrTimeout, written = [], write_err = (\<lambda>_. None)\<rparr>"]
    by (auto simp: dec_message_def enc_message_def)
qed (simp add: enc_message_def)

lemma sendExtMessage_message:
  "sendExtMessage i p c = Write (message_bytes 20 (i # p)) c"
  by (simp add: sendExtMessage_def message_bytes_def)

lemma Write_ok: "write_err c = (\<lambda>_. None) \<Longrightarrow> Write b c = Inr (c\<lparr>written := written c @ [b]\<rparr>)"
  by (simp add: Write_def)

section \<open>Messages of an honest peer\<close>

text \<open>
  What a peer sends between and after the handshakes: keep-alives, other messages, and the
  pieces of the metadata as \<open>ut_metadata\<close> data messages under the message id it announced.
\<close>

datatype chunk = KeepAlive | Other byte bytes | Piece nat

definition piece_dict :: "bytes \<Rightarrow> nat \<Rightarrow> gdict" where
  "piece_dict m i = [(bs ''msg_type'', GInt64 1), (bs ''piece'', GInt64 (of_nat i)),
     (bs ''total_size'', GInt64 (of_nat (length m)))]"

definition piece_data :: "bytes \<Rightarrow> nat \<Rightarrow> bytes" where
  "piece_data m i = take 16384 (drop (i * 16384) m)"

fun chunk_bytes :: "byte \<Rightarrow> bytes \<Rightarrow> chunk \<Rightarrow> bytes" where
  "chunk_bytes msgID m KeepAlive = put_uint32 0"
| "chunk_bytes msgID m (Other t p) = message_bytes t p"
| "chunk_bytes msgID m (Piece i) = message_bytes 20 (msgID # wire (GDict (piece_dict m i)) @ piece_data m i)"

text \<open>Frames of a legal size; other messages are not extension messages under the same id.\<close>

fun chunk_ok :: "byte \<Rightarrow> bytes \<Rightarrow> chunk \<Rightarrow> bool" where
  "chunk_ok msgID m KeepAlive = True"
| "chunk_ok msgID m (Other t p) = (frame_ok p \<and> (t \<noteq> 20 \<or> p = [] \<or> hd p \<noteq> msgID))"
| "chunk_ok msgID m (Piece i) = frame_ok (msgID # wire (GDict (piece_dict m i)) @ piece_data m i)"

fun pieces_of :: "chunk list \<Rightarrow> nat list" where
  "pieces_of [] = []"
| "pieces_of (Piece i # cs) = i # pieces_of cs"
| "pieces_of (_ # cs) = pieces_of cs"

definition num_pieces :: "bytes \<Rightarrow> nat" where
  "num_pieces m = (length m + 16383) div 16384"

lemma encode_wire: "gval_ok v \<Longrightarrow> encode v = Inr (wire v)"
  using bencode.enc_total [of v] by (auto simp: wire_def)

lemma DecodeDict_wire: "gval_ok (GDict d) \<Longrightarrow> DecodeDict (wire (GDict d)) = Inr (norm_dict d)"
  using DecodeDict_encode [of d] wire_encode by blast

lemma GetInt_norm_dict:
  "distinct (map fst d) \<Longrightarrow> map_of d k = Some (GInt64 i) \<Longrightarrow> GetInt (norm_dict d) k = Some i"
  "distinct (map fst d) \<Longrightarrow> map_of d k = None \<Longrightarrow> GetInt (norm_dict d) k = None"
  by (simp_all add: GetInt_def)

lemma parseMetadataPiece_wire:
  assumes "gval_ok (GDict d)" and "map_of d (bs ''msg_type'') = Some (GInt64 1)"
    and "map_of d (bs ''piece'') = Some (GInt64 i)"
  shows "parseMetadataPiece (wire (GDict d) @ data) = Inr (sint i, data)"
proof -
  have "decode (wire (GDict d) @ data) = Inr (norm (GDict d), data)"
    using bencode.dec_enc [OF assms(1) encode_wire [OF assms(1)]] .
  moreover have "distinct (map fst d)" using assms(1) by simp
  ultimately show ?thesis
    using assms DecodeDict_wire [OF assms(1)] by (simp add: parseMetadataPiece_def GetInt_norm_dict)
qed

lemma piece_dict_ok: "gval_ok (GDict (piece_dict m i))"
  by (simp add: piece_dict_def maxAlloc_def)

lemma parse_piece:
  assumes "i < 2 ^ 62"
  shows "parseMetadataPiece (wire (GDict (piece_dict m i)) @ piece_data m i) = Inr (int i, piece_data m i)"
proof -
  have "int i < int (2 ^ 62)" using assms by (simp only: of_nat_less_iff)
  then have "int i < 2 ^ 63" by simp
  then have "sint (of_nat i :: int64) = int i"
    using sint_int64_of_int [of "int i"] by simp
  then show ?thesis
    using parseMetadataPiece_wire [OF piece_dict_ok, of m i "of_nat i" "piece_data m i"]
    by (simp add: piece_dict_def)
qed

section \<open>Assembling the pieces\<close>

lemma length_copy_at [simp]: "start \<le> length buf \<Longrightarrow> length (copy_at start d buf) = length buf"
  by (auto simp: copy_at_def)

lemma nth_copy_at:
  assumes "start \<le> length buf" and "j < length buf"
  shows "copy_at start d buf ! j = (if start \<le> j \<and> j < start + length d then d ! (j - start) else buf ! j)"
proof -
  have "min (length d) (length buf - start) = length buf - start" if "\<not> start + length d \<le> length buf"
    using that by simp
  then show ?thesis using assms
    by (cases "start + length d \<le> length buf") (auto simp: copy_at_def nth_append min_def)
qed

text \<open>The state of the loop after the pieces in \<open>S\<close> have come in.\<close>

definition filled :: "bytes \<Rightarrow> nat set \<Rightarrow> bytes \<Rightarrow> bool list \<Rightarrow> bool" where
  "filled m S buf recvd \<longleftrightarrow> length buf = length m \<and> length recvd = num_pieces m
     \<and> S \<subseteq> {..<num_pieces m} \<and> (\<forall>i < num_pieces m. recvd ! i \<longleftrightarrow> i \<in> S)
     \<and> (\<forall>j < length m. j div 16384 \<in> S \<longrightarrow> buf ! j = m ! j)"

lemma filled_empty: "filled m {} (replicate (length m) 0) (replicate (num_pieces m) False)"
  by (simp add: filled_def)

lemma piece_start: "i < num_pieces m \<Longrightarrow> i * 16384 \<le> length m"
proof -
  assume "i < num_pieces m"
  then have "Suc i * 16384 \<le> (length m + 16383) div 16384 * 16384"
    unfolding num_pieces_def by (intro mult_le_mono1) simp
  also have "\<dots> \<le> length m + 16383" by simp
  finally show ?thesis by simp
qed

lemma filled_piece:
  assumes "filled m S buf recvd" and "i < num_pieces m"
  shows "filled m (insert i S) (copy_at (i * 16384) (piece_data m i) buf) (recvd[i := True])"
proof -
  have l: "i * 16384 \<le> length buf" using piece_start [OF assms(2)] assms(1) by (simp add: filled_def)
  have "copy_at (i * 16384) (piece_data m i) buf ! j = m ! j"
    if j: "j < length m" and "j div 16384 \<in> insert i S" for j
  proof (cases "j div 16384 = i")
    case True
    then have "i * 16384 \<le> j" "j < i * 16384 + 16384"
      using div_mult_mod_eq [of j 16384] mod_less_divisor [of 16384 j] by linarith+
    then show ?thesis using j l assms(1)
      by (subst nth_copy_at) (auto simp: filled_def piece_data_def)
  next
    case False
    then have "\<not> (i * 16384 \<le> j \<and> j < i * 16384 + length (piece_data m i))"
      by (auto simp: piece_data_def div_nat_eqI)
    moreover have "buf ! j = m ! j" using that False assms(1) by (auto simp: filled_def)
    ultimately show ?thesis using j l assms(1) by (subst nth_copy_at) (auto simp: filled_def)
  qed
  with assms l show ?thesis by (auto simp: filled_def nth_list_update)
qed

lemma filled_all:
  assumes "filled m {..<num_pieces m} buf recvd"
  shows "buf = m"
proof (rule nth_equalityI)
  fix j assume "j < length buf"
  then have j: "j < length m" using assms by (simp add: filled_def)
  then have "j div 16384 < num_pieces m" by (simp add: num_pieces_def)
  with j assms show "buf ! j = m ! j" by (simp add: filled_def)
qed (use assms in \<open>simp add: filled_def\<close>)

lemma receive_loop_skip:
  assumes "k < n" and "readMessage c = Inr ((t, p), c')"
    and "t \<noteq> 20 \<or> p = [] \<or> uint (hd p) \<noteq> msgID"
  shows "receive_loop msgID n buf recvd k c = receive_loop msgID n buf recvd k c'"
  using assms by (subst receive_loop.simps) (auto simp: Suc_le_eq)

lemma receive_loop_piece:
  assumes "k < n" and "readMessage c = Inr ((20, x # p), c')" and "uint x = msgID"
    and "parseMetadataPiece p = Inr (int i, d)" and "i < n" and "\<not> recvd ! i"
  shows "receive_loop msgID n buf recvd k c
    = receive_loop msgID n (copy_at (i * 16384) d buf) (recvd[i := True]) (k + 1) c'"
  using assms by (subst receive_loop.simps) (simp add: MetadataPieceSize_def nat_mult_distrib)

lemma receive_loop_chunks:
  "\<lbrakk>filled m S buf recvd; list_all (chunk_ok x m) cs; num_pieces m < 2 ^ 62;
    distinct (pieces_of cs); set (pieces_of cs) \<union> S = {..<num_pieces m}; set (pieces_of cs) \<inter> S = {};
    cs = [] \<or> (\<exists>i. last cs = Piece i)\<rbrakk> \<Longrightarrow>
    receive_loop (uint x) (num_pieces m) buf recvd (card S) (c\<lparr>inp := concat (map (chunk_bytes x m) cs) @ rest\<rparr>)
      = Inr (m, c\<lparr>inp := rest\<rparr>)"
proof (induction cs arbitrary: S buf recvd)
  case Nil
  then have "S = {..<num_pieces m}" by simp
  with Nil show ?case using filled_all [of m buf recvd]
    by (subst receive_loop.simps) simp
next
  case (Cons a cs)
  have fin: "finite S" using Cons.prems(5) by (metis finite_Un finite_lessThan)
  have some: "pieces_of (a # cs) \<noteq> []"
  proof -
    obtain i where "last (a # cs) = Piece i" using Cons.prems(7) by auto
    then have "Piece i \<in> set (a # cs)" by (metis last_in_set list.distinct(1))
    moreover have "Piece i \<in> set xs \<Longrightarrow> i \<in> set (pieces_of xs)" for xs
      by (induction xs rule: pieces_of.induct) auto
    ultimately show ?thesis by fastforce
  qed
  obtain y where "y \<in> set (pieces_of (a # cs))" using some last_in_set by blast
  then have "y \<in> {..<num_pieces m}" "y \<notin> S" using Cons.prems(5,6) by blast+
  then have "S \<subset> {..<num_pieces m}" using Cons.prems(5) by blast
  then have "card S < card {..<num_pieces m}" by (intro psubset_card_mono) simp_all
  then have k: "card S < num_pieces m" by simp
  have tl: "cs = [] \<or> (\<exists>i. last cs = Piece i)" using Cons.prems(7) by (cases cs) auto
  have oks: "list_all (chunk_ok x m) cs" "chunk_ok x m a" using Cons.prems(2) by simp_all
  let ?r = "concat (map (chunk_bytes x m) cs) @ rest"
  show ?case
  proof (cases a)
    case KeepAlive
    have e: "receive_loop (uint x) (num_pieces m) buf recvd (card S) (c\<lparr>inp := put_uint32 0 @ ?r\<rparr>)
        = receive_loop (uint x) (num_pieces m) buf recvd (card S) (c\<lparr>inp := ?r\<rparr>)"
      by (rule receive_loop_skip [OF k readMessage_keepalive]) simp
    have "pieces_of (a # cs) = pieces_of cs" by (simp add: KeepAlive)
    with e Cons.IH [OF Cons.prems(1) oks(1) Cons.prems(3) _ _ _ tl] Cons.prems KeepAlive
    show ?thesis by simp
  next
    case (Other t p)
    then have o: "frame_ok p" "t \<noteq> 20 \<or> p = [] \<or> uint (hd p) \<noteq> uint x" using oks(2) by (auto simp: word_uint_eq_iff)
    have e: "receive_loop (uint x) (num_pieces m) buf recvd (card S) (c\<lparr>inp := message_bytes t p @ ?r\<rparr>)
        = receive_loop (uint x) (num_pieces m) buf recvd (card S) (c\<lparr>inp := ?r\<rparr>)"
      by (rule receive_loop_skip [OF k readMessage_message [OF o(1)] o(2)])
    have "pieces_of (a # cs) = pieces_of cs" by (simp add: Other)
    with e Cons.IH [OF Cons.prems(1) oks(1) Cons.prems(3) _ _ _ tl] Cons.prems Other
    show ?thesis by simp
  next
    case (Piece i)
    have i: "i < num_pieces m" "i \<notin> S" "i \<notin> set (pieces_of cs)" using Cons.prems(4,5,6) Piece by auto
    then have ni: "\<not> recvd ! i" using Cons.prems(1) by (simp add: filled_def)
    have "i < 2 ^ 62" using i(1) Cons.prems(3) by (rule less_trans)
    note parse = parse_piece [OF this, of m]
    let ?p = "wire (GDict (piece_dict m i)) @ piece_data m i"
    have ok: "frame_ok (x # ?p)" using oks(2) Piece by simp
    have e: "receive_loop (uint x) (num_pieces m) buf recvd (card S)
          (c\<lparr>inp := message_bytes 20 (x # ?p) @ ?r\<rparr>)
        = receive_loop (uint x) (num_pieces m) (copy_at (i * 16384) (piece_data m i) buf)
            (recvd[i := True]) (card S + 1) (c\<lparr>inp := ?r\<rparr>)"
      by (rule receive_loop_piece [OF k readMessage_message [OF ok] refl parse i(1) ni])
    have "card (insert i S) = card S + 1" using fin i(2) by simp
    moreover have "set (pieces_of cs) \<union> insert i S = {..<num_pieces m}"
      "set (pieces_of cs) \<inter> insert i S = {}" "distinct (pieces_of cs)"
      using Cons.prems(4,5,6) Piece i(3) by auto
    ultimately show ?thesis
      using e Cons.IH [OF filled_piece [OF Cons.prems(1) i(1)] oks(1) Cons.prems(3) _ _ _ tl] Piece by simp
  qed
qed

section \<open>The whole exchange\<close>

text \<open>Every message of the downloader is one write of some buffer.\<close>

lemma requestMetadataPiece_write: "\<exists>b. requestMetadataPiece msgID i c = Write b c"
proof -
  have "gval_ok (GDict [(bs ''msg_type'', GInt64 0), (bs ''piece'', GInt64 (word_of_int i))])"
    by (simp add: maxAlloc_def)
  from encode_wire [OF this] show ?thesis
    unfolding requestMetadataPiece_def Encode_def sendExtMessage_message
    by (simp only: sum.case) blast
qed

lemma sendExtHandshake_write: "\<exists>b. sendExtHandshake c = Write b c"
proof -
  have "gval_ok (GDict [(bs ''m'', GDict [(bs ''ut_metadata'', GInt64 1)])])"
    by (simp add: maxAlloc_def)
  from encode_wire [OF this] show ?thesis
    unfolding sendExtHandshake_def Encode_def sendExtMessage_message
    by (simp only: sum.case) blast
qed

lemma sendHandshake_write: "\<exists>b. sendHandshake h c = Write b c"
  by (auto simp: sendHandshake_def)

lemma request_loop_ok:
  "write_err c = (\<lambda>_. None) \<Longrightarrow> \<exists>w. request_loop msgID is c = Inr (c\<lparr>written := w\<rparr>)"
proof (induction "is" arbitrary: c)
  case (Cons i "is")
  obtain p where "requestMetadataPiece msgID i c = Inr (c\<lparr>written := written c @ [p]\<rparr>)"
    using requestMetadataPiece_write [of msgID i c] Write_ok [OF Cons.prems] by auto
  moreover obtain w where "request_loop msgID is (c\<lparr>written := written c @ [p]\<rparr>) = Inr (c\<lparr>written := w\<rparr>)"
    using Cons.IH [of "c\<lparr>written := written c @ [p]\<rparr>"] Cons.prems by auto
  ultimately show ?case by (intro exI [of _ w]) simp
qed (metis conn.surjective conn.update_convs(3) request_loop.simps(1))

lemma pieces_sdiv:
  assumes "0 \<le> z"
  shows "(z + MetadataPieceSize - 1) sdiv MetadataPieceSize = (z + 16383) div 16384"
proof -
  have "0 < z + 16383" using assms by simp
  then have "(z + 16383) sdiv 16384 = (z + 16383) div 16384" by (simp add: signed_divide_int_def)
  moreover have "z + MetadataPieceSize - 1 = z + 16383" by (simp add: MetadataPieceSize_def)
  ultimately show ?thesis by (simp only: MetadataPieceSize_def)
qed

lemma num_pieces_sdiv:
  "(int (length m) + MetadataPieceSize - 1) sdiv MetadataPieceSize = int (num_pieces m)"
  by (simp only: pieces_sdiv) (simp add: num_pieces_def zdiv_int add.commute)

definition delivery :: "byte \<Rightarrow> bytes \<Rightarrow> chunk list \<Rightarrow> bool" where
  "delivery x m cs \<longleftrightarrow> list_all (chunk_ok x m) cs \<and> distinct (pieces_of cs)
     \<and> set (pieces_of cs) = {..<num_pieces m} \<and> (cs = [] \<or> (\<exists>i. last cs = Piece i))"

lemma conn_update_swap: "c\<lparr>written := w, inp := b\<rparr> = c\<lparr>inp := b, written := w\<rparr>"
  by (cases c) simp

lemma downloadMetadata_delivery:
  assumes "delivery x m cs" and "int (length m) \<le> maxAlloc" and "write_err c = (\<lambda>_. None)"
  shows "\<exists>w. downloadMetadata (uint x) (int (length m))
      (c\<lparr>inp := concat (map (chunk_bytes x m) cs) @ rest\<rparr>) = Inr (m, c\<lparr>inp := rest, written := w\<rparr>)"
proof -
  let ?c = "c\<lparr>inp := concat (map (chunk_bytes x m) cs) @ rest\<rparr>"
  obtain w where w: "request_loop (uint x) (map int [0..<num_pieces m]) ?c = Inr (?c\<lparr>written := w\<rparr>)"
    using request_loop_ok [of ?c] assms(3) by auto
  have small: "num_pieces m < 2 ^ 62" "make_ok (int (num_pieces m))" "make_ok (int (length m))"
  proof -
    have "int (length m) \<le> 2 ^ 48" using assms(2) by (simp add: maxAlloc_def)
    then have "length m \<le> 2 ^ 48" by (simp only: of_nat_le_iff [symmetric, where 'a = int]) simp
    then have n: "num_pieces m \<le> 2 ^ 48" by (simp add: num_pieces_def)
    then show "num_pieces m < 2 ^ 62" by simp
    show "make_ok (int (num_pieces m))" using n by (simp add: make_ok_def maxAlloc_def)
    show "make_ok (int (length m))" using assms(2) by (simp add: make_ok_def)
  qed
  have "receive_loop (uint x) (num_pieces m) (replicate (length m) 0) (replicate (num_pieces m) False) (card ({} :: nat set))
      ((c\<lparr>written := w\<rparr>)\<lparr>inp := concat (map (chunk_bytes x m) cs) @ rest\<rparr>)
    = Inr (m, (c\<lparr>written := w\<rparr>)\<lparr>inp := rest\<rparr>)"
    by (rule receive_loop_chunks [OF filled_empty _ small(1), where cs = cs and x = x and rest = rest
        and c = "c\<lparr>written := w\<rparr>"]) (use assms(1) in \<open>simp_all add: delivery_def\<close>)
  then show ?thesis
    using w small(2,3)
    by (intro exI [of _ w]) (simp add: downloadMetadata_def num_pieces_sdiv Let_def conn_update_swap)
qed

definition handshake_bytes :: "bytes \<Rightarrow> bytes \<Rightarrow> info_hash \<Rightarrow> bytes \<Rightarrow> bytes" where
  "handshake_bytes pstr reserved h peer = of_nat (length pstr) # pstr @ reserved @ arr_bytes h @ peer"

lemma readHandshake_bytes:
  assumes "length pstr < 256" and "length reserved = 8" and "length peer = 20"
  shows "readHandshake h (c\<lparr>inp := handshake_bytes pstr reserved h peer @ rest\<rparr>)
    = Inr (reserved, c\<lparr>inp := rest\<rparr>)"
proof -
  have "unat (of_nat (length pstr) :: byte) = length pstr" using assms(1) by (simp add: unat_of_nat)
  with assms show ?thesis by (simp add: readHandshake_def handshake_bytes_def)
qed

definition early :: "chunk \<Rightarrow> bool" where
  "early a \<longleftrightarrow> chunk_ok ExtMsgHandshake [] a \<and> (\<forall>i. a \<noteq> Piece i)"

lemma readExtHandshake_early:
  assumes "list_all early pre"
  shows "readExtHandshake (c\<lparr>inp := concat (map (chunk_bytes 0 []) pre) @ rest\<rparr>)
    = readExtHandshake (c\<lparr>inp := rest\<rparr>)"
  using assms
proof (induction pre)
  case (Cons a pre)
  let ?r = "concat (map (chunk_bytes 0 []) pre) @ rest"
  have "readExtHandshake (c\<lparr>inp := chunk_bytes 0 [] a @ ?r\<rparr>) = readExtHandshake (c\<lparr>inp := ?r\<rparr>)"
  proof (cases a)
    case KeepAlive
    then show ?thesis by (subst readExtHandshake.simps) (simp add: readMessage_keepalive)
  next
    case (Other t p)
    then have o: "frame_ok p" "t \<noteq> 20 \<or> p = [] \<or> hd p \<noteq> ExtMsgHandshake"
      using Cons.prems by (auto simp: early_def)
    then show ?thesis unfolding Other
      by (subst readExtHandshake.simps) (auto simp: readMessage_message [OF o(1)] Suc_le_eq)
  qed (use Cons.prems in \<open>simp add: early_def\<close>)
  with Cons show ?case by simp
qed simp

lemma readExtHandshake_dict:
  assumes "gval_ok (GDict ext)" and "frame_ok (0 # wire (GDict ext))"
    and "GetDict ext (bs ''m'') = Some md" and "map_of md (bs ''ut_metadata'') = Some (GInt64 i)"
    and "map_of ext (bs ''metadata_size'') = Some (GInt64 z)"
  shows "readExtHandshake (c\<lparr>inp := message_bytes 20 (0 # wire (GDict ext)) @ rest\<rparr>)
    = Inr (sint i, sint z, c\<lparr>inp := rest\<rparr>)"
proof -
  have d: "distinct (map fst ext)" using assms(1) by simp
  have "map_of ext (bs ''m'') = Some (GDict md)"
    using assms(3) by (auto simp: GetDict_def split: option.splits gval.splits)
  then have "(bs ''m'', GDict md) \<in> set ext" by (rule map_of_SomeD)
  then have dm: "distinct (map fst md)" using assms(1) by fastforce
  have "GetDict (norm_dict ext) (bs ''m'') = Some (norm_dict md)"
    using accessors_norm_dict(3) [OF d] assms(3) by simp
  with d dm assms show ?thesis
    by (subst readExtHandshake.simps)
      (simp add: readMessage_message DecodeDict_wire GetInt_norm_dict Let_def ExtMsgHandshake_def)
qed

section \<open>Parsing\<close>

text \<open>\<open>join_path\<close> puts the directories in front one by one, which reverses them.\<close>

lemma join_path_snoc:
  "join_path (ds @ [f]) = concat (map (\<lambda>d. d @ [ch CHR ''/'']) (rev ds)) @ f"
proof -
  have "foldl (\<lambda>path part. part @ [ch CHR ''/''] @ path) p ds
      = concat (map (\<lambda>d. d @ [ch CHR ''/'']) (rev ds)) @ p" for p
    by (induction ds arbitrary: p) simp_all
  then show ?thesis by (simp add: join_path_def)
qed

lemma files_loop_value:
  "files_loop fs meta = meta\<lparr>
     tm_Files := tm_Files meta @ concat (map (\<lambda>f. case f of GDict d \<Rightarrow> [file_of d] | _ \<Rightarrow> []) fs),
     tm_Size := tm_Size meta + (\<Sum>f \<leftarrow> fs. case f of GDict d \<Rightarrow> fi_Size (file_of d) | _ \<Rightarrow> 0)\<rparr>"
proof (induction fs arbitrary: meta)
  case (Cons f fs)
  show ?case
  proof (cases f)
    case (GDict d)
    then show ?thesis using Cons
      by (cases meta) (auto simp: file_of_def Let_def add.assoc split: option.split)
  qed (use Cons in simp_all)
qed simp

lemma parseMetadata_raw:
  "parseMetadata h data = Inr meta \<Longrightarrow> tm_InfoHash meta = h \<and> tm_RawInfo meta = data"
  by (auto simp: parseMetadata_def files_loop_value Let_def split: sum.splits option.splits)

lemma receive_loop_length:
  "receive_loop msgID n buf recvd k c = Inr (m, c') \<Longrightarrow> int n * MetadataPieceSize \<le> int (length buf) + 16383
    \<Longrightarrow> length m = length buf"
proof (induction msgID n buf recvd k c rule: receive_loop.induct)
  case (1 msgID n buf recvd k c)
  show ?case
  proof (cases "k < n")
    case False
    then show ?thesis using "1.prems"(1) by (subst (asm) receive_loop.simps) simp
  next
    case k: True
    then obtain t p c1 where r: "readMessage c = Inr ((t, p), c1)"
      using "1.prems"(1) by (subst (asm) receive_loop.simps) (auto split: sum.splits)
    consider "t \<noteq> 20 \<or> length p < 1" | "\<not> (t \<noteq> 20 \<or> length p < 1)" "uint (hd p) \<noteq> msgID"
      | "\<not> (t \<noteq> 20 \<or> length p < 1)" "uint (hd p) = msgID" by blast
    then show ?thesis
    proof cases
      case 1
      then show ?thesis using "1.IH"(1) [OF _ r] k r "1.prems"
        by (subst (asm) (2) receive_loop.simps) auto
    next
      case 2
      then show ?thesis using "1.IH"(2) [OF _ r] k r "1.prems"
        by (subst (asm) (2) receive_loop.simps) auto
    next
      case 3
      note body = "1.prems"(1) [unfolded receive_loop.simps [of msgID n buf recvd k c]]
      show ?thesis
      proof (cases "parseMetadataPiece (tl p)")
        case (Inl e)
        then show ?thesis using "1.IH"(3) [OF _ r refl refl 3(1)] 3 body k r "1.prems"(2)
          by (cases e) auto
      next
        case (Inr pd)
        obtain piece d where pd: "pd = (piece, d)" by force
        have start: "nat (piece * MetadataPieceSize) \<le> length buf"
          if "\<not> (piece < 0 \<or> piece \<ge> int n \<or> recvd ! nat piece)"
        proof -
          have "(piece + 1) * MetadataPieceSize \<le> int n * MetadataPieceSize"
            using that by (intro mult_right_mono) (simp_all add: MetadataPieceSize_def)
          then have "piece * MetadataPieceSize \<le> int (length buf)"
            using "1.prems"(2) by (simp add: MetadataPieceSize_def algebra_simps)
          then show ?thesis by simp
        qed
        then show ?thesis
          using "1.IH"(4,5) [OF _ r refl refl 3(1)] 3 body k r Inr pd "1.prems"(2)
          by (auto split: if_splits)
      qed
    qed
  qed
qed

section \<open>Panics\<close>

lemma oversized_infix: "oversized r \<Longrightarrow> oversized (p @ r @ q)"
proof -
  assume "oversized r"
  then obtain pre ds post n where "r = pre @ ds @ ch CHR '':'' # post" "\<forall>c \<in> set ds. is_digit c"
    "atoi ds = Inr n" "maxAlloc < n" by (auto simp: oversized_def)
  then show ?thesis by (intro oversizedI [where pre = "p @ pre" and post = "post @ q"]) simp_all
qed

lemma DecodeDict_panic: "DecodeDict b = Inl (Panic p) \<Longrightarrow> p = MakeSliceLen \<and> oversized b"
  by (auto simp: DecodeDict_def Decode_def dest: decode_panic_oversized(1) split: sum.splits gval.splits)

lemma ReadFull_no_panic: "ReadFull k c \<noteq> Inl (Panic p)"
  by (simp add: ReadFull_def)

lemma readMessage_no_panic: "readMessage c \<noteq> Inl (Panic p)"
  by (auto simp: readMessage_def ReadFull_no_panic Let_def split: sum.splits)

lemma ReadFull_split: "ReadFull k c = Inr (a, c') \<Longrightarrow> inp c = a @ inp c' \<and> length a = k"
  by (auto simp: ReadFull_def split: if_splits)

lemma readMessage_split:
  assumes "readMessage c = Inr ((t, p), c')"
  shows "\<exists>a. inp c = a @ p @ inp c'"
proof -
  obtain lb c1 where lb: "ReadFull 4 c = Inr (lb, c1)"
    using assms by (auto simp: readMessage_def split: sum.splits)
  note l = ReadFull_split [OF lb]
  show ?thesis
  proof (cases "get_uint32 (lb ! 0) (lb ! 1) (lb ! 2) (lb ! 3) = 0")
    case True
    then show ?thesis using assms lb l by (auto simp: readMessage_def Let_def)
  next
    case False
    then obtain msg where m: "ReadFull (unat (get_uint32 (lb ! 0) (lb ! 1) (lb ! 2) (lb ! 3))) c1 = Inr (msg, c')"
      and p: "p = tl msg"
      using assms lb by (auto simp: readMessage_def Let_def split: if_splits sum.splits)
    have "msg \<noteq> []" using False ReadFull_split [OF m] by (auto simp: unat_eq_0)
    then have "inp c = (lb @ [hd msg]) @ p @ inp c'" using l ReadFull_split [OF m] p by simp
    then show ?thesis by blast
  qed
qed

lemma oversized_message:
  assumes "readMessage c = Inr ((t, p), c')"
  shows "oversized (tl p) \<Longrightarrow> oversized (inp c)" and "oversized (inp c') \<Longrightarrow> oversized (inp c)"
proof -
  obtain a where a: "inp c = a @ p @ inp c'" using readMessage_split [OF assms] by blast
  show "oversized (inp c') \<Longrightarrow> oversized (inp c)" using oversized_append [of "inp c'" "a @ p"] a by simp
  assume t: "oversized (tl p)"
  then have "oversized p" by (cases p) (simp_all add: oversized_Cons)
  then show "oversized (inp c)" using oversized_infix [of p a "inp c'"] a by simp
qed

lemma readExtHandshake_panic:
  "readExtHandshake c = Inl (Panic p) \<Longrightarrow> p = MakeSliceLen \<and> oversized (inp c)"
proof (induction c rule: readExtHandshake.induct)
  case (1 c)
  then obtain t pl c1 where r: "readMessage c = Inr ((t, pl), c1)"
    using readMessage_no_panic by (subst (asm) (4) readExtHandshake.simps) (auto split: sum.splits)
  show ?case
  proof (cases "t = 20 \<and> \<not> length pl < 1 \<and> hd pl = ExtMsgHandshake")
    case True
    then have "DecodeDict (tl pl) = Inl (Panic p)"
      using "1.prems" r by (subst (asm) readExtHandshake.simps) (auto simp: Let_def split: sum.splits)
    then show ?thesis using DecodeDict_panic oversized_message(1) [OF r] by blast
  next
    case False
    then have "readExtHandshake c1 = Inl (Panic p)"
      using "1.prems" r by (subst (asm) readExtHandshake.simps) (auto split: if_splits)
    then have "p = MakeSliceLen \<and> oversized (inp c1)"
      using False "1.IH"(1) [OF r refl] "1.IH"(2) [OF r refl] "1.IH"(3) [OF r refl] by blast
    then show ?thesis using oversized_message(2) [OF r] by blast
  qed
qed

lemma parseMetadataPiece_panic:
  assumes "parseMetadataPiece data = Inl (Panic p)"
  shows "p = MakeSliceLen \<and> oversized data"
proof (cases "decode data")
  case (Inl e)
  then show ?thesis using assms decode_panic_oversized(1) by (simp add: parseMetadataPiece_def)
next
  case (Inr vr)
  then obtain v r where "decode data = Inr (v, r)" by (cases vr) auto
  then have "DecodeDict (take (length data - length r) data) = Inl (Panic p)"
    using assms by (auto simp: parseMetadataPiece_def Let_def split: sum.splits if_splits option.splits)
  from DecodeDict_panic [OF this] show ?thesis
    using oversized_infix [of "take (length data - length r) data" "[]" "drop (length data - length r) data"]
    by simp
qed

lemma receive_loop_panic:
  "receive_loop msgID n buf recvd k c = Inl (Panic p) \<Longrightarrow> p = MakeSliceLen \<and> oversized (inp c)"
proof (induction msgID n buf recvd k c rule: receive_loop.induct)
  case (1 msgID n buf recvd k c)
  note body = "1.prems" [unfolded receive_loop.simps [of msgID n buf recvd k c]]
  then have k: "k < n" by (auto split: if_splits)
  with body obtain t pl c1 where r: "readMessage c = Inr ((t, pl), c1)"
    using readMessage_no_panic by (auto split: sum.splits)
  consider "t \<noteq> 20 \<or> length pl < 1" | "\<not> (t \<noteq> 20 \<or> length pl < 1)" "uint (hd pl) \<noteq> msgID"
    | "\<not> (t \<noteq> 20 \<or> length pl < 1)" "\<not> uint (hd pl) \<noteq> msgID" by blast
  then show ?case
  proof cases
    case 1
    then have "p = MakeSliceLen \<and> oversized (inp c1)" using "1.IH"(1) [OF _ r refl] k body r by auto
    then show ?thesis using oversized_message(2) [OF r] by blast
  next
    case 2
    then have "p = MakeSliceLen \<and> oversized (inp c1)" using "1.IH"(2) [OF _ r refl] k body r by auto
    then show ?thesis using oversized_message(2) [OF r] by blast
  next
    case 3
    show ?thesis
    proof (cases "parseMetadataPiece (tl pl) = Inl (Panic p)")
      case True
      then show ?thesis using parseMetadataPiece_panic oversized_message(1) [OF r] by blast
    next
      case False
      then have "p = MakeSliceLen \<and> oversized (inp c1)"
        using "1.IH"(3,4,5) [OF _ r refl refl 3] k body r 3
        by (auto split: sum.splits fault.splits if_splits prod.splits)
      then show ?thesis using oversized_message(2) [OF r] by blast
    qed
  qed
qed

lemma downloadMetadata_length:
  assumes "downloadMetadata msgID z c = Inr (m, c')"
  shows "length m = nat z" and "0 \<le> z"
proof -
  show z: "0 \<le> z"
    using assms by (auto simp: downloadMetadata_def make_ok_def Let_def split: if_splits)
  let ?n = "(z + 16383) div 16384"
  have "?n * 16384 \<le> z + 16383" "0 \<le> ?n" using z by linarith+
  then have b: "int (nat ?n) * MetadataPieceSize \<le> z + 16383"
    by (simp add: MetadataPieceSize_def)
  obtain c1 where "receive_loop msgID (nat ?n) (replicate (nat z) 0) (replicate (nat ?n) False) 0 c1 = Inr (m, c')"
    using assms by (auto simp: downloadMetadata_def pieces_sdiv [OF z] Let_def split: if_splits sum.splits)
  from receive_loop_length [OF this] show "length m = nat z" using b z by simp
qed

lemma Write_facts:
  "Write b c \<noteq> Inl (Panic p)" "Write b c = Inr c' \<Longrightarrow> inp c' = inp c"
  by (auto simp: Write_def split: option.splits)

lemma send_facts:
  "sendHandshake h c \<noteq> Inl (Panic p)" "sendHandshake h c = Inr c' \<Longrightarrow> inp c' = inp c"
  "sendExtHandshake c \<noteq> Inl (Panic p)" "sendExtHandshake c = Inr c' \<Longrightarrow> inp c' = inp c"
  "requestMetadataPiece i j c \<noteq> Inl (Panic p)" "requestMetadataPiece i j c = Inr c' \<Longrightarrow> inp c' = inp c"
  using Write_facts sendHandshake_write [of h c] sendExtHandshake_write [of c]
    requestMetadataPiece_write [of i j c] by metis+

lemma request_loop_facts:
  "request_loop i is c \<noteq> Inl (Panic p) \<and> (request_loop i is c = Inr c' \<longrightarrow> inp c' = inp c)"
  by (induction "is" arbitrary: c) (auto simp: send_facts(5,6) split: sum.splits)

lemma downloadMetadata_panic:
  assumes "downloadMetadata msgID z c = Inl (Panic p)" and "z \<le> maxAlloc"
  shows "p = MakeSliceLen \<and> (z < 0 \<or> oversized (inp c))"
proof (cases "z < 0")
  case True
  then show ?thesis using assms(1) by (simp add: downloadMetadata_def make_ok_def Let_def)
next
  case False
  then have z: "0 \<le> z" by simp
  let ?n = "(z + 16383) div 16384"
  have "?n \<le> (maxAlloc + 16383) div 16384" using assms(2) by (intro zdiv_mono1) simp_all
  then have "?n \<le> maxAlloc" by (simp add: maxAlloc_def)
  then have "make_ok z" "make_ok ?n" using z assms(2) by (simp_all add: make_ok_def)
  with assms(1) obtain c1 where c1: "request_loop msgID (map int [0..<nat ?n]) c = Inr c1"
    and r: "receive_loop msgID (nat ?n) (replicate (nat z) 0) (replicate (nat ?n) False) 0 c1 = Inl (Panic p)"
    using request_loop_facts by (auto simp: downloadMetadata_def pieces_sdiv [OF z] Let_def split: sum.splits)
  with receive_loop_panic [OF r] request_loop_facts show ?thesis by metis
qed

lemma readHandshake_no_panic: "readHandshake h c \<noteq> Inl (Panic p)"
  by (auto simp: readHandshake_def ReadFull_no_panic split: sum.splits)

lemma readHandshake_split:
  assumes "readHandshake h c = Inr (e, c')"
  shows "\<exists>a. inp c = a @ inp c'"
proof -
  from assms obtain a1 c1 where r: "ReadFull 1 c = Inr (a1, c1)"
    by (auto simp: readHandshake_def split: sum.splits)
  from assms r obtain a2 c2 where r2: "ReadFull (unat (hd a1)) c1 = Inr (a2, c2)"
    by (auto simp: readHandshake_def split: sum.splits)
  from assms r r2 obtain a3 c3 where r3: "ReadFull 8 c2 = Inr (a3, c3)"
    by (auto simp: readHandshake_def split: sum.splits)
  from assms r r2 r3 obtain a4 c4 where r4: "ReadFull 20 c3 = Inr (a4, c4)"
    by (auto simp: readHandshake_def split: sum.splits)
  from assms r r2 r3 r4 obtain a5 where r5: "ReadFull 20 c4 = Inr (a5, c')"
    by (auto simp: readHandshake_def split: sum.splits if_splits)
  have "inp c = (a1 @ a2 @ a3 @ a4 @ a5) @ inp c'"
    using r [THEN ReadFull_split] r2 [THEN ReadFull_split] r3 [THEN ReadFull_split]
      r4 [THEN ReadFull_split] r5 [THEN ReadFull_split] by (simp only: append_assoc)
  then show ?thesis by blast
qed

lemma readExtHandshake_split: "readExtHandshake c = Inr (i, z, c') \<Longrightarrow> \<exists>a. inp c = a @ inp c'"
proof (induction c rule: readExtHandshake.induct)
  case (1 c)
  then obtain t pl c1 where r: "readMessage c = Inr ((t, pl), c1)"
    by (subst (asm) (4) readExtHandshake.simps) (auto split: sum.splits)
  obtain a where a: "inp c = a @ pl @ inp c1" using readMessage_split [OF r] by blast
  show ?case
  proof (cases "t = 20 \<and> \<not> length pl < 1 \<and> hd pl = ExtMsgHandshake")
    case True
    then have "c1 = c'"
      using "1.prems" r by (subst (asm) readExtHandshake.simps) (auto simp: Let_def split: sum.splits)
    then show ?thesis using a by auto
  next
    case False
    then have "readExtHandshake c1 = Inr (i, z, c')"
      using "1.prems" r by (subst (asm) readExtHandshake.simps) (auto split: if_splits)
    note ih = "1.IH"(1) [OF r refl refl _ this] "1.IH"(2) [OF r refl refl _ _ this] "1.IH"(3) [OF r refl refl _ _ _ this]
    obtain b where "inp c1 = b @ inp c'"
      using False ih by metis
    then have "inp c = (a @ pl @ b) @ inp c'" using a by simp
    then show ?thesis by blast
  qed
qed

lemma oversized_suffix: "inp c = a @ inp c' \<Longrightarrow> oversized (inp c') \<Longrightarrow> oversized (inp c)"
  using oversized_append [of "inp c'" a] by simp

section \<open>Properties of the download\<close>

lemma parseMetadata_panic: "parseMetadata h m = Inl (Panic p) \<Longrightarrow> p = MakeSliceLen \<and> oversized m"
  by (auto simp: parseMetadata_def Let_def dest: DecodeDict_panic split: sum.splits)

text \<open>A peer that announces a negative size panics the downloader.\<close>

definition peer_stream :: "bytes \<Rightarrow> bytes \<Rightarrow> info_hash \<Rightarrow> bytes \<Rightarrow> chunk list \<Rightarrow> gdict \<Rightarrow> bytes \<Rightarrow> bytes" where
  "peer_stream pstr reserved h peer pre ext rest =
     handshake_bytes pstr reserved h peer @ concat (map (chunk_bytes 0 []) pre)
       @ message_bytes 20 (0 # wire (GDict ext)) @ rest"

definition speaks_metadata :: "bytes \<Rightarrow> bytes \<Rightarrow> bytes \<Rightarrow> chunk list \<Rightarrow> gdict \<Rightarrow> int64 \<Rightarrow> int64 \<Rightarrow> bool" where
  "speaks_metadata pstr reserved peer pre ext i z \<longleftrightarrow>
     length pstr < 256 \<and> length reserved = 8 \<and> reserved ! 5 AND ExtensionBit \<noteq> 0 \<and> length peer = 20
     \<and> list_all early pre \<and> gval_ok (GDict ext) \<and> frame_ok (0 # wire (GDict ext))
     \<and> (\<exists>md. GetDict ext (bs ''m'') = Some md \<and> map_of md (bs ''ut_metadata'') = Some (GInt64 i))
     \<and> map_of ext (bs ''metadata_size'') = Some (GInt64 z)"

lemma Download_greeted:
  assumes "speaks_metadata pstr reserved peer pre ext i z" and "write_err c = (\<lambda>_. None)"
    and "inp c = peer_stream pstr reserved h peer pre ext rest" and "i \<noteq> 0" and "sint z \<le> MaxMetaSize d"
  shows "\<exists>w. Download sha1 d h (Inr c) =
     (case downloadMetadata (sint i) (sint z) (c\<lparr>inp := rest, written := w\<rparr>) of
        Inl e \<Rightarrow> Inl e
      | Inr (metadata, _) \<Rightarrow>
          if sha1 metadata \<noteq> h then Inl (Err ErrInvalidMetadata) else parseMetadata h metadata)"
proof -
  obtain md where ok: "length pstr < 256" "length reserved = 8" "reserved ! 5 AND ExtensionBit \<noteq> 0"
    "length peer = 20" "list_all early pre" "gval_ok (GDict ext)" "frame_ok (0 # wire (GDict ext))"
    "GetDict ext (bs ''m'') = Some md" "map_of md (bs ''ut_metadata'') = Some (GInt64 i)"
    "map_of ext (bs ''metadata_size'') = Some (GInt64 z)"
    using assms(1) unfolding speaks_metadata_def by blast
  let ?r1 = "message_bytes 20 (0 # wire (GDict ext)) @ rest"
  let ?r2 = "concat (map (chunk_bytes 0 []) pre) @ ?r1"
  obtain b1 where b1: "sendHandshake h c = Inr (c\<lparr>written := b1\<rparr>)"
    using sendHandshake_write [of h c] Write_ok [OF assms(2)] by auto
  let ?c1 = "c\<lparr>written := b1\<rparr>"
  have c1: "?c1 = ?c1\<lparr>inp := handshake_bytes pstr reserved h peer @ ?r2\<rparr>"
    using assms(3) by (cases c) (simp add: peer_stream_def)
  have h1: "readHandshake h ?c1 = Inr (reserved, ?c1\<lparr>inp := ?r2\<rparr>)"
    by (subst c1) (simp add: readHandshake_bytes [OF ok(1,2,4)])
  have "write_err (?c1\<lparr>inp := ?r2\<rparr>) = (\<lambda>_. None)" using assms(2) by simp
  note w2 = Write_ok [OF this]
  obtain b2 where b2: "sendExtHandshake (?c1\<lparr>inp := ?r2\<rparr>) = Inr (?c1\<lparr>inp := ?r2, written := b2\<rparr>)"
    using sendExtHandshake_write [of "?c1\<lparr>inp := ?r2\<rparr>"] w2 by auto
  have "readExtHandshake (?c1\<lparr>written := b2, inp := ?r2\<rparr>) = Inr (sint i, sint z, ?c1\<lparr>written := b2, inp := rest\<rparr>)"
    using readExtHandshake_early [OF ok(5)] readExtHandshake_dict [OF ok(6-10)] by simp
  then have e: "readExtHandshake (?c1\<lparr>inp := ?r2, written := b2\<rparr>) = Inr (sint i, sint z, c\<lparr>inp := rest, written := b2\<rparr>)"
    by (simp add: conn_update_swap)
  have "sint i \<noteq> 0" using assms(4) by (metis signed_word_eqI sint_0)
  then show ?thesis using b1 h1 b2 e ok(3) assms(5)
    by (intro exI [of _ b2]) (simp add: Download_def)
qed

lemma negative_size_panics:
  assumes "speaks_metadata pstr reserved peer pre ext i z" and "write_err c = (\<lambda>_. None)"
    and "inp c = peer_stream pstr reserved h peer pre ext rest" and "i \<noteq> 0" and "sint z < 0"
    and "0 \<le> MaxMetaSize d"
  shows "Download sha1 d h (Inr c) = Inl (Panic MakeSliceLen)"
proof -
  have "sint z \<le> MaxMetaSize d" using assms(5,6) by simp
  from Download_greeted [OF assms(1-4) this, of sha1] show ?thesis
    using assms(5) by (auto simp: downloadMetadata_def make_ok_def Let_def)
qed

lemma Download_delivery:
  assumes "speaks_metadata pstr reserved peer pre ext i (of_nat (length m))" and "write_err c = (\<lambda>_. None)"
    and "inp c = peer_stream pstr reserved h peer pre ext (concat (map (chunk_bytes x m) cs) @ rest)"
    and "sint i = uint x" and "x \<noteq> 0" and "delivery x m cs"
    and "int (length m) \<le> MaxMetaSize d" and "MaxMetaSize d \<le> maxAlloc"
  shows "Download sha1 d h (Inr c) = (if sha1 m \<noteq> h then Inl (Err ErrInvalidMetadata) else parseMetadata h m)"
proof -
  have l: "int (length m) \<le> maxAlloc" using assms(7,8) by simp
  then have "int (length m) < 2 ^ 63" by (simp add: maxAlloc_def)
  then have z: "sint (of_nat (length m) :: int64) = int (length m)"
    using sint_int64_of_int [of "int (length m)"] by simp
  have "i \<noteq> 0" using assms(4,5) by (metis sint_0 uint_0_iff)
  then obtain w where w: "Download sha1 d h (Inr c) =
     (case downloadMetadata (sint i) (int (length m))
         (c\<lparr>inp := concat (map (chunk_bytes x m) cs) @ rest, written := w\<rparr>) of
        Inl e \<Rightarrow> Inl e
      | Inr (metadata, _) \<Rightarrow>
          if sha1 metadata \<noteq> h then Inl (Err ErrInvalidMetadata) else parseMetadata h metadata)"
    using Download_greeted [OF assms(1-3), of d sha1] z assms(7) by auto
  have "write_err (c\<lparr>written := w\<rparr>) = (\<lambda>_. None)" using assms(2) by simp
  from downloadMetadata_delivery [OF assms(6) l this, of rest] obtain w' where
    "downloadMetadata (uint x) (int (length m))
       (c\<lparr>inp := concat (map (chunk_bytes x m) cs) @ rest, written := w\<rparr>)
     = Inr (m, c\<lparr>written := w, inp := rest, written := w'\<rparr>)"
    by (auto simp: conn_update_swap)
  with w assms(4) show ?thesis by simp
qed

text \<open>
  A peer whose data messages come under another id than the one it announced (as they do when
  it answers under ours, which is 1) is read to the end of the stream.
\<close>

lemma receive_loop_others:
  assumes "k < n" and "list_all (chunk_ok x m) cs" and "pieces_of cs = []"
  shows "receive_loop (uint x) n buf recvd k (c\<lparr>inp := concat (map (chunk_bytes x m) cs)\<rparr>)
    = Inl (Err (end_err c))"
  using assms(2,3)
proof (induction cs)
  case Nil
  then show ?case using assms(1)
    by (subst receive_loop.simps) (simp add: readMessage_def ReadFull_def)
next
  case (Cons a cs)
  then have ih: "receive_loop (uint x) n buf recvd k (c\<lparr>inp := concat (map (chunk_bytes x m) cs)\<rparr>)
    = Inl (Err (end_err c))" by (cases a) simp_all
  show ?case
  proof (cases a)
    case KeepAlive
    then show ?thesis using ih receive_loop_skip [OF assms(1) readMessage_keepalive] by simp
  next
    case (Other t p)
    then have o: "frame_ok p" "t \<noteq> 20 \<or> p = [] \<or> uint (hd p) \<noteq> uint x"
      using Cons.prems(1) by (auto simp: word_uint_eq_iff)
    then show ?thesis using ih Other receive_loop_skip [OF assms(1) readMessage_message [OF o(1)] o(2)] by simp
  qed (use Cons.prems in simp)
qed

text \<open>A conversation the code completes.\<close>

definition sample_info :: bytes where
  "sample_info = bs ''d6:lengthi5e4:name1:ae''"

definition sample_ext :: "int64 \<Rightarrow> gdict" where
  "sample_ext z = [(bs ''m'', GDict [(bs ''ut_metadata'', GInt64 3)]), (bs ''metadata_size'', GInt64 z)]"

definition sample_peer :: "int64 \<Rightarrow> conn" where
  "sample_peer z = \<lparr>inp = peer_stream ProtocolName [0, 0, 0, 0, 0, 16, 0, 0] zeroID (replicate 20 7)
       [KeepAlive, Other 4 [1]] (sample_ext z) (concat (map (chunk_bytes 3 sample_info) [Piece 0]) @ []),
     end_err = ErrTimeout, written = [], write_err = (\<lambda>_. None)\<rparr>"

lemma length_sample_info: "length sample_info = 22"
  by (simp add: sample_info_def bs_def)

lemma sample_frames: "z = 22 \<or> z = - 1 \<Longrightarrow> frame_ok (0 # wire (GDict (sample_ext z)))"
proof -
  have "frame_ok (0 # wire (GDict (sample_ext 22)))" "frame_ok (0 # wire (GDict (sample_ext (- 1))))"
    by code_simp+
  then show "z = 22 \<or> z = - 1 \<Longrightarrow> frame_ok (0 # wire (GDict (sample_ext z)))" by blast
qed

lemma sample_speaks:
  assumes "z = 22 \<or> z = - 1"
  shows "speaks_metadata ProtocolName [0, 0, 0, 0, 0, 16, 0, 0] (replicate 20 7) [KeepAlive, Other 4 [1]]
    (sample_ext z) 3 z"
proof -
  have "gval_ok (GDict (sample_ext z))" by (simp add: sample_ext_def maxAlloc_def bs_def)
  moreover have "GetDict (sample_ext z) (bs ''m'') = Some [(bs ''ut_metadata'', GInt64 3)]"
    "map_of (sample_ext z) (bs ''metadata_size'') = Some (GInt64 z)"
    by (simp_all add: sample_ext_def GetDict_def bs_def)
  ultimately show ?thesis using sample_frames [OF assms]
    by (simp add: speaks_metadata_def early_def frame_ok_def ProtocolName_def bs_def ExtensionBit_def)
qed

lemma sample_delivery: "delivery 3 sample_info [Piece 0]"
proof -
  have "num_pieces sample_info = 1" by (simp add: num_pieces_def length_sample_info)
  moreover have "chunk_ok 3 sample_info (Piece 0)" by code_simp
  ultimately show ?thesis by (auto simp: delivery_def)
qed

lemma sample_download:
  "Download (\<lambda>_. zeroID) NewMetadataDownloader zeroID (Inr (sample_peer 22)) = parseMetadata zeroID sample_info"
proof -
  have "speaks_metadata ProtocolName [0, 0, 0, 0, 0, 16, 0, 0] (replicate 20 7) [KeepAlive, Other 4 [1]]
    (sample_ext 22) 3 (of_nat (length sample_info))"
    using sample_speaks [of 22] by (simp add: length_sample_info)
  from Download_delivery [OF this, where x = 3 and cs = "[Piece 0]" and rest = "[]" and h = zeroID
      and d = NewMetadataDownloader and c = "sample_peer 22" and ?sha1.0 = "\<lambda>_. zeroID"]
  show ?thesis
    by (simp add: sample_delivery length_sample_info NewMetadataDownloader_def maxAlloc_def sample_peer_def
        del: concat.simps list.map)
qed

lemma sample_parse:
  "parseMetadata zeroID sample_info = Inr \<lparr>tm_InfoHash = zeroID, tm_Name = bs ''a'', tm_Size = 5,
     tm_Files = [\<lparr>fi_Path = bs ''a'', fi_Size = 5\<rparr>], tm_PieceLen = 0, tm_RawInfo = sample_info\<rparr>"
  by code_simp

section \<open>Properties\<close>

lemma Download_Inr:
  assumes "Download sha1 d h dial = Inr meta"
  obtains i z c c' m where "downloadMetadata i z c = Inr (m, c')" "z \<le> MaxMetaSize d" "sha1 m = h"
    "parseMetadata h m = Inr meta" "tm_RawInfo meta = m" "tm_InfoHash meta = h"
proof -
  obtain i z c c' m where m: "downloadMetadata i z c = Inr (m, c')" "z \<le> MaxMetaSize d" "sha1 m = h"
    "parseMetadata h m = Inr meta"
    using assms by (auto simp: Download_def split: sum.splits prod.splits if_splits)
  from that [OF m] parseMetadata_raw [OF m(4)] show thesis by simp
qed

text \<open>C10: metadata is never delivered unverified. When \<open>Download\<close> returns a result, the bytes it
  was assembled from hash to the requested info hash, are within the size limit, and the result is
  exactly the parse of those bytes.\<close>

theorem download_verified:
  assumes "Download sha1 d h dial = Inr meta"
  shows "sha1 (tm_RawInfo meta) = h \<and> tm_InfoHash meta = h
    \<and> int (length (tm_RawInfo meta)) \<le> MaxMetaSize d
    \<and> parseMetadata h (tm_RawInfo meta) = Inr meta"
proof -
  obtain i z c c' m where m: "downloadMetadata i z c = Inr (m, c')" "z \<le> MaxMetaSize d" "sha1 m = h"
    "parseMetadata h m = Inr meta" "tm_RawInfo meta = m" "tm_InfoHash meta = h"
    by (rule Download_Inr [OF assms])
  with downloadMetadata_length [OF m(1)] show ?thesis by auto
qed

theorem download_verified_witness:
  "\<exists>meta. Download (\<lambda>_. zeroID) NewMetadataDownloader zeroID (Inr (sample_peer 22)) = Inr meta
     \<and> int (length (tm_RawInfo meta)) \<le> 10485760"
  using download_verified [of "\<lambda>_. zeroID" NewMetadataDownloader zeroID "Inr (sample_peer 22)"]
    sample_download sample_parse by (simp add: NewMetadataDownloader_def)

lemma download_faults:
  assumes "Download sha1 d h (Inr c) = Inl (Panic p)" and "MaxMetaSize d \<le> maxAlloc"
  shows "p = MakeSliceLen \<and> (oversized (inp c) \<or> (\<exists>m. sha1 m = h \<and> oversized m) \<or>
    (\<exists>c1 ext c2 c3 i z c4. inp c1 = inp c \<and> readHandshake h c1 = Inr (ext, c2) \<and> inp c3 = inp c2
      \<and> readExtHandshake c3 = Inr (i, z, c4) \<and> z < 0))"
proof -
  obtain c1 where c1: "sendHandshake h c = Inr c1" "inp c1 = inp c"
    using assms(1) send_facts(1,2) by (fastforce simp: Download_def split: sum.splits)
  then obtain ext c2 where c2: "readHandshake h c1 = Inr (ext, c2)"
    using assms(1) readHandshake_no_panic by (fastforce simp: Download_def split: sum.splits)
  then obtain c3 where c3: "sendExtHandshake c2 = Inr c3" "inp c3 = inp c2"
    using assms(1) c1 send_facts(3,4) by (fastforce simp: Download_def split: sum.splits if_splits)
  obtain a where a: "inp c = a @ inp c3" using readHandshake_split [OF c2] c1 c3 by auto
  show ?thesis
  proof (cases "readExtHandshake c3")
    case (Inl e)
    then have "readExtHandshake c3 = Inl (Panic p)"
      using assms(1) c1 c2 c3 by (auto simp: Download_def split: if_splits)
    then show ?thesis using readExtHandshake_panic oversized_suffix [OF a] by blast
  next
    case (Inr r)
    then obtain i z c4 where r: "readExtHandshake c3 = Inr (i, z, c4)" by (cases r) auto
    then have z: "z \<le> maxAlloc" using assms c1 c2 c3 by (auto simp: Download_def split: if_splits)
    consider "downloadMetadata i z c4 = Inl (Panic p)"
      | m where "sha1 m = h" "parseMetadata h m = Inl (Panic p)"
      using assms(1) c1 c2 c3 r by (auto simp: Download_def split: if_splits sum.splits)
    then show ?thesis
    proof cases
      case 1
      from downloadMetadata_panic [OF this z]
      have "p = MakeSliceLen" "z < 0 \<or> oversized (inp c4)" by simp_all
      moreover have "oversized (inp c4) \<Longrightarrow> oversized (inp c)"
        using readExtHandshake_split [OF r] oversized_suffix [OF a] oversized_suffix by blast
      ultimately show ?thesis using c1 c2 c3 r by blast
    next
      case 2
      then show ?thesis using parseMetadata_panic by blast
    qed
  qed
qed

text \<open>C33: the only panic of a download is an allocation of an impossible length, and its causes
  are three: the peer's stream holds a string header announcing more than can be allocated, a blob
  with the requested hash does, or the peer announced a negative metadata size. Short reads,
  closed connections, malformed frames and refused writes are errors, not panics. The statement is about
  panics: the fatal error of a goroutine that exhausts its stack, which the recursion of the decoder can
  cause (\<open>decoder_nesting\<close>), is not one and has no counterpart in the model.\<close>

theorem download_panics:
  assumes "Download sha1 d h (Inr c) = Inl (Panic p)" and "MaxMetaSize d \<le> maxAlloc"
  shows "p = MakeSliceLen \<and> (oversized (inp c) \<or> (\<exists>m. sha1 m = h \<and> oversized m) \<or>
    (\<exists>c1 ext c2 c3 i z c4. inp c1 = inp c \<and> readHandshake h c1 = Inr (ext, c2) \<and> inp c3 = inp c2
      \<and> readExtHandshake c3 = Inr (i, z, c4) \<and> z < 0))"
  using assms by (rule download_faults)

lemma sample_negative:
  "Download sha1 NewMetadataDownloader zeroID (Inr (sample_peer (- 1))) = Inl (Panic MakeSliceLen)"
  by (rule negative_size_panics [OF sample_speaks [of "- 1"], where rest = "concat (map (chunk_bytes 3 sample_info) [Piece 0]) @ []"])
    (simp_all add: sample_peer_def NewMetadataDownloader_def del: concat.simps list.map)

theorem download_panics_witness:
  "MaxMetaSize NewMetadataDownloader \<le> maxAlloc
   \<and> (\<exists>p. Download (\<lambda>_. zeroID) NewMetadataDownloader zeroID (Inr (sample_peer (- 1))) = Inl (Panic p)
         \<and> p = MakeSliceLen)"
  using download_panics [OF sample_negative [of "\<lambda>_. zeroID"]] sample_negative [of "\<lambda>_. zeroID"]
  by (simp add: NewMetadataDownloader_def maxAlloc_def)



text \<open>C11: an honest peer is enough. Whatever keep-alives and other messages it interleaves and
  in whatever order it sends the pieces, once each piece has come under the message id it announced,
  the download assembles exactly the metadata and returns its parse (or the hash mismatch).\<close>

theorem honest_download:
  assumes "speaks_metadata pstr reserved peer pre ext i (of_nat (length m))" and "write_err c = (\<lambda>_. None)"
    and "inp c = peer_stream pstr reserved h peer pre ext (concat (map (chunk_bytes x m) cs) @ rest)"
    and "sint i = uint x" and "x \<noteq> 0" and "delivery x m cs"
    and "int (length m) \<le> MaxMetaSize d" and "MaxMetaSize d \<le> maxAlloc"
  shows "Download sha1 d h (Inr c) = (if sha1 m = h then parseMetadata h m else Inl (Err ErrInvalidMetadata))"
  using Download_delivery [OF assms, of sha1] by simp

theorem honest_download_witness:
  "Download (\<lambda>_. zeroID) NewMetadataDownloader zeroID (Inr (sample_peer 22)) = parseMetadata zeroID sample_info"
proof -
  have "speaks_metadata ProtocolName [0, 0, 0, 0, 0, 16, 0, 0] (replicate 20 7) [KeepAlive, Other 4 [1]]
    (sample_ext 22) 3 (of_nat (length sample_info))"
    using sample_speaks [of 22] by (simp add: length_sample_info)
  from honest_download [OF this, where x = 3 and cs = "[Piece 0]" and rest = "[]" and h = zeroID
      and d = NewMetadataDownloader and c = "sample_peer 22" and ?sha1.0 = "\<lambda>_. zeroID"]
  show ?thesis
    by (simp add: sample_delivery length_sample_info NewMetadataDownloader_def maxAlloc_def sample_peer_def
        del: concat.simps list.map)
qed

text \<open>The info dictionary of a torrent with several files, as its maker encodes it.\<close>

definition file_dict :: "bytes list \<times> int64 \<Rightarrow> gval" where
  "file_dict f = GDict [(bs ''length'', GInt64 (snd f)), (bs ''path'', GList (map GString (fst f)))]"

definition info_dict :: "bytes \<Rightarrow> int64 \<Rightarrow> (bytes list \<times> int64) list \<Rightarrow> gdict" where
  "info_dict name len fs = [(bs ''name'', GString name), (bs ''piece length'', GInt64 len),
     (bs ''files'', GList (map file_dict fs))]"

lemma path_parts_strings: "path_parts (map norm (map GString ps)) = ps"
  by (induction ps) simp_all

lemma file_of_file_dict:
  assumes "gval_ok (file_dict f)"
  shows "norm (file_dict f) = GDict (norm_dict [(bs ''length'', GInt64 (snd f)), (bs ''path'', GList (map GString (fst f)))])"
    and "file_of (norm_dict [(bs ''length'', GInt64 (snd f)), (bs ''path'', GList (map GString (fst f)))])
      = \<lparr>fi_Path = join_path (fst f), fi_Size = snd f\<rparr>"
proof -
  let ?d = "[(bs ''length'', GInt64 (snd f)), (bs ''path'', GList (map GString (fst f)))]"
  show "norm (file_dict f) = GDict (norm_dict ?d)" by (simp only: file_dict_def norm_GDict)
  have k: "bs ''length'' \<noteq> bs ''path''" by (simp add: bs_def)
  then have d: "distinct (map fst ?d)" by simp
  have "GetInt (norm_dict ?d) (bs ''length'') = Some (snd f)"
    by (rule GetInt_norm_dict(1) [OF d]) simp
  moreover have "GetList ?d (bs ''path'') = Some (map GString (fst f))"
    using k by (simp add: GetList_def)
  then have "GetList (norm_dict ?d) (bs ''path'') = Some (map norm (map GString (fst f)))"
    using accessors_norm_dict(4) [OF d] by simp
  ultimately show "file_of (norm_dict ?d) = \<lparr>fi_Path = join_path (fst f), fi_Size = snd f\<rparr>"
    unfolding file_of_def by (simp only: option.case path_parts_strings)
qed

lemma files_of_file_dicts:
  assumes "\<forall>f \<in> set fs. gval_ok (file_dict f)"
  shows "concat (map (\<lambda>f. case f of GDict d \<Rightarrow> [file_of d] | _ \<Rightarrow> []) (map norm (map file_dict fs)))
      = map (\<lambda>f. \<lparr>fi_Path = join_path (fst f), fi_Size = snd f\<rparr>) fs"
    and "(\<Sum>f \<leftarrow> map norm (map file_dict fs). case f of GDict d \<Rightarrow> fi_Size (file_of d) | _ \<Rightarrow> 0)
      = sum_list (map snd fs)"
  using assms by (induction fs) (simp_all add: file_of_file_dict del: norm.simps)

lemma join_path_components:
  assumes "ps \<noteq> []"
  shows "join_path ps = concat (map (\<lambda>p. p @ [ch CHR ''/'']) (rev (butlast ps))) @ last ps"
  using join_path_snoc [of "butlast ps" "last ps"] append_butlast_last_id [OF assms] by simp

text \<open>C35: what the parser makes of a torrent with several files. The name and the piece length
  are those encoded; every file is listed in order with its size and its path, whose components
  however come out with the directories in reverse; the total is the sum of the sizes modulo
  \<open>2 ^ 64\<close>.\<close>

theorem parse_files:
  assumes "gval_ok (GDict (info_dict name len fs))" and "\<forall>f \<in> set fs. fst f \<noteq> []"
  shows "parseMetadata h (wire (GDict (info_dict name len fs))) = Inr
    \<lparr>tm_InfoHash = h, tm_Name = name, tm_Size = sum_list (map snd fs),
     tm_Files = map (\<lambda>f. \<lparr>fi_Path = concat (map (\<lambda>p. p @ [ch CHR ''/'']) (rev (butlast (fst f)))) @ last (fst f),
                            fi_Size = snd f\<rparr>) fs,
     tm_PieceLen = len, tm_RawInfo = wire (GDict (info_dict name len fs))\<rparr>"
proof -
  let ?d = "info_dict name len fs"
  have k: "distinct (map fst ?d)" using assms(1) by simp
  have ok: "\<forall>f \<in> set fs. gval_ok (file_dict f)" using assms(1) by (simp add: info_dict_def)
  have "GetString ?d (bs ''name'') = Some name" "GetList ?d (bs ''files'') = Some (map file_dict fs)"
    by (simp_all add: info_dict_def GetString_def GetList_def bs_def)
  then have n: "GetString (norm_dict ?d) (bs ''name'') = Some name"
    and l: "GetList (norm_dict ?d) (bs ''files'') = Some (map norm (map file_dict fs))"
    using accessors_norm_dict(2,4) [OF k] by simp_all
  have i: "GetInt (norm_dict ?d) (bs ''piece length'') = Some len"
    by (rule GetInt_norm_dict(1) [OF k]) (simp add: info_dict_def bs_def)
  have "map (\<lambda>f. \<lparr>fi_Path = join_path (fst f), fi_Size = snd f\<rparr>) fs
      = map (\<lambda>f. \<lparr>fi_Path = concat (map (\<lambda>p. p @ [ch CHR ''/'']) (rev (butlast (fst f)))) @ last (fst f),
                            fi_Size = snd f\<rparr>) fs"
    using assms(2) by (intro map_cong refl) (simp add: join_path_components)
  then show ?thesis
    unfolding parseMetadata_def DecodeDict_wire [OF assms(1)] sum.case Let_def n i l option.case
      files_loop_value files_of_file_dicts [OF ok] by simp
qed

definition sample_files :: "(bytes list \<times> int64) list" where
  "sample_files = [([bs ''a'', bs ''b'', bs ''c.txt''], 3), ([bs ''d''], 4)]"

theorem parse_files_witness:
  "\<exists>meta. parseMetadata zeroID (wire (GDict (info_dict (bs ''t'') 16384 sample_files))) = Inr meta
    \<and> tm_Files meta = [\<lparr>fi_Path = bs ''b/a/c.txt'', fi_Size = 3\<rparr>, \<lparr>fi_Path = bs ''d'', fi_Size = 4\<rparr>]
    \<and> tm_Size meta = 7"
proof -
  have "gval_ok (GDict (info_dict (bs ''t'') 16384 sample_files))"
    by (simp add: info_dict_def file_dict_def sample_files_def bs_def maxAlloc_def)
  from parse_files [OF this, of zeroID] show ?thesis
    by (simp add: sample_files_def bs_def)
qed

end
