(* ===== verification/Lookup.thy ===== *)
theory Lookup
  imports Dht_Node
begin

text \<open>
  The iterative lookup \<open>Node.FindPeers\<close> of \<open>internal/dht/node.go\<close>: up to three rounds, each of
  which starts one goroutine per close node not asked before, waits for all of them, and ends.
  A goroutine sends its query, then takes the reply that arrives or gives up after three seconds
  or at the end of the context. A lookup is the local state of the function; a step relation over
  it and the node interleaves the goroutines with each other and with everything else the node does.
\<close>

section \<open>State\<close>

datatype phase = Top | InRound | Returned

record lookup =
  lk_hash :: info_hash
  lk_target :: node_id
  lk_phase :: phase
  lk_round :: nat
  lk_queried :: "bytes list"
  lk_spawned :: "routing_node list"
  lk_waiting :: "nat list"
  lk_peers :: "compact_peer list"
  lk_newNodes :: "compact_node list"
  lk_roundResponses :: nat
  lk_totalQueried :: nat
  lk_totalResponses :: nat

definition begin_lookup :: "info_hash \<Rightarrow> lookup" where
  "begin_lookup infoHash =
     \<lparr>lk_hash = infoHash,
      lk_target = (case FromBytes (arr_bytes infoHash) of Inl _ \<Rightarrow> zeroID | Inr t \<Rightarrow> t),
      lk_phase = Top, lk_round = 0, lk_queried = [], lk_spawned = [], lk_waiting = [],
      lk_peers = [], lk_newNodes = [], lk_roundResponses = 0, lk_totalQueried = 0,
      lk_totalResponses = 0\<rparr>"

text \<open>The loop over the closest nodes, which skips those asked before.\<close>

fun pick_nodes :: "routing_node list \<Rightarrow> lookup \<Rightarrow> lookup" where
  "pick_nodes [] lk = lk"
| "pick_nodes (node # ns) lk =
     (let nodeKey = Hex (rn_ID node) in
      if nodeKey \<in> set (lk_queried lk) then pick_nodes ns lk
      else pick_nodes ns
        (lk\<lparr>lk_queried := lk_queried lk @ [nodeKey], lk_totalQueried := lk_totalQueried lk + 1,
            lk_spawned := lk_spawned lk @ [node]\<rparr>))"

definition start_round :: "dht_node \<Rightarrow> lookup \<Rightarrow> lookup" where
  "start_round n lk =
     (let closest = FindClosest (routingTable n) (lk_target lk) K in
      if length closest = 0 then lk\<lparr>lk_phase := Returned\<rparr>
      else pick_nodes closest (lk\<lparr>lk_phase := InRound, lk_newNodes := [], lk_roundResponses := 0\<rparr>))"

text \<open>
  A goroutine's send, its reply, its giving up. The code keeps a pointer to the table's entry and reads the
  address when it sends; the model keeps the entry as it was when the round picked it. The two differ when
  the table learns a new address of the node in between, which the query then goes to.
\<close>

definition without :: "nat \<Rightarrow> 'a list \<Rightarrow> 'a list" where
  "without i xs = take i xs @ drop (Suc i) xs"

definition spawn :: "nat \<Rightarrow> lookup \<Rightarrow> dht_node \<Rightarrow> lookup \<times> dht_node" where
  "spawn i lk n =
     (lk\<lparr>lk_spawned := without i (lk_spawned lk),
         lk_waiting := lk_waiting lk @ [length (replyChans n)]\<rparr>,
      query_peers (lk_hash lk) (lk_spawned lk ! i) n)"

definition answer :: "nat \<Rightarrow> message \<Rightarrow> lookup \<Rightarrow> lookup" where
  "answer i resp lk =
     lk\<lparr>lk_waiting := without i (lk_waiting lk), lk_roundResponses := lk_roundResponses lk + 1,
        lk_peers := lk_peers lk @ GetResponsePeers resp,
        lk_newNodes := lk_newNodes lk @ GetResponseNodes resp\<rparr>"

definition give_up :: "nat \<Rightarrow> lookup \<Rightarrow> lookup" where
  "give_up i lk = lk\<lparr>lk_waiting := without i (lk_waiting lk)\<rparr>"

definition end_round :: "int \<Rightarrow> lookup \<Rightarrow> dht_node \<Rightarrow> lookup \<times> dht_node" where
  "end_round now lk n =
     (let lk1 = lk\<lparr>lk_totalResponses := lk_totalResponses lk + lk_roundResponses lk\<rparr> in
      if length (lk_peers lk1) > 0 then (lk1\<lparr>lk_phase := Returned\<rparr>, n)
      else
        (lk1\<lparr>lk_round := lk_round lk1 + 1, lk_phase := (if lk_round lk1 + 1 < 3 then Top else Returned)\<rparr>,
         insert_all now (lk_newNodes lk1) n))"

section \<open>Interleaving\<close>

text \<open>
  A step carries a label: what the lookup itself did, or that the node did something else or the
  other nodes that share its event channel changed that. No other party reads the reply channels
  of the lookup.
\<close>

datatype label = Own | Got message | Other

inductive lookup_step :: "lookup \<times> dht_node \<Rightarrow> label \<Rightarrow> lookup \<times> dht_node \<Rightarrow> bool" where
  Start: "lk_phase lk = Top \<Longrightarrow> lookup_step (lk, n) Own (start_round n lk, n)"
| Spawn: "lk_phase lk = InRound \<Longrightarrow> i < length (lk_spawned lk) \<Longrightarrow> lookup_step (lk, n) Own (spawn i lk n)"
| Answer: "lk_phase lk = InRound \<Longrightarrow> i < length (lk_waiting lk) \<Longrightarrow>
    recv (replyChans n ! (lk_waiting lk ! i)) = (Some resp, c) \<Longrightarrow>
    lookup_step (lk, n) (Got resp)
      (answer i resp lk, n\<lparr>replyChans := (replyChans n)[lk_waiting lk ! i := c]\<rparr>)"
| Expire: "lk_phase lk = InRound \<Longrightarrow> i < length (lk_waiting lk) \<Longrightarrow> lookup_step (lk, n) Own (give_up i lk, n)"
| Finish: "lk_phase lk = InRound \<Longrightarrow> lk_spawned lk = [] \<Longrightarrow> lk_waiting lk = [] \<Longrightarrow>
    lookup_step (lk, n) Own (end_round now lk n)"
| Env: "exec op n = Inr n' \<Longrightarrow> op_ok op \<Longrightarrow> (\<forall>k \<in> set (lk_waiting lk). op \<noteq> TakeReply k) \<Longrightarrow>
    lookup_step (lk, n) Other (lk, n')"
| Shared: "chan_ok c \<Longrightarrow> lookup_step (lk, n) Other (lk, n\<lparr>eventChan := c\<rparr>)"

inductive_cases lookup_stepE: "lookup_step s l s'"

inductive lookup_run :: "lookup \<times> dht_node \<Rightarrow> label list \<Rightarrow> lookup \<times> dht_node \<Rightarrow> bool" where
  Stop: "lookup_run s [] s"
| Step: "lookup_run s ls s1 \<Longrightarrow> lookup_step s1 l s2 \<Longrightarrow> lookup_run s (ls @ [l]) s2"

fun replies :: "label list \<Rightarrow> message list" where
  "replies [] = []"
| "replies (Got m # ls) = m # replies ls"
| "replies (_ # ls) = replies ls"

definition own_steps :: "label list \<Rightarrow> nat" where
  "own_steps ls = length (filter (\<lambda>l. l \<noteq> Other) ls)"

lemma replies_snoc: "replies (ls @ [l]) = replies ls @ replies [l]"
  by (induction ls rule: replies.induct) simp_all

lemma length_without [simp]: "i < length xs \<Longrightarrow> length (without i xs) = length xs - 1"
  by (simp add: without_def min_def)

section \<open>The invariant\<close>

text \<open>
  Rounds ask at most \<open>K\<close> nodes and no node twice; the peers are those of the replies taken.
\<close>

definition lookup_ok :: "lookup \<Rightarrow> bool" where
  "lookup_ok lk \<longleftrightarrow> distinct (lk_queried lk) \<and> length (lk_queried lk) = lk_totalQueried lk
     \<and> lk_round lk \<le> 3 \<and> (lk_phase lk \<noteq> Returned \<longrightarrow> lk_round lk < 3)
     \<and> lk_totalQueried lk \<le> 8 * (lk_round lk + (if lk_phase lk = Top then 0 else 1))
     \<and> lk_totalQueried lk \<le> 24
     \<and> length (lk_spawned lk) + length (lk_waiting lk) \<le> 8
     \<and> (lk_phase lk \<noteq> InRound \<longrightarrow> lk_spawned lk = [] \<and> lk_waiting lk = [])
     \<and> (lk_phase lk = Top \<longrightarrow> lk_peers lk = [])"

lemma lookup_ok_begin: "lookup_ok (begin_lookup h)"
  by (simp add: lookup_ok_def begin_lookup_def)

lemma pick_nodes_fields [simp]:
  "lk_phase (pick_nodes ns lk) = lk_phase lk" "lk_round (pick_nodes ns lk) = lk_round lk"
  "lk_waiting (pick_nodes ns lk) = lk_waiting lk" "lk_peers (pick_nodes ns lk) = lk_peers lk"
  by (induction ns arbitrary: lk) (simp_all add: Let_def)

lemma pick_nodes_counts:
  "distinct (lk_queried lk) \<Longrightarrow> length (lk_queried lk) = lk_totalQueried lk \<Longrightarrow>
   distinct (lk_queried (pick_nodes ns lk))
   \<and> length (lk_queried (pick_nodes ns lk)) = lk_totalQueried (pick_nodes ns lk)
   \<and> lk_totalQueried (pick_nodes ns lk) \<le> lk_totalQueried lk + length ns
   \<and> length (lk_spawned (pick_nodes ns lk)) \<le> length (lk_spawned lk) + length ns"
proof (induction ns arbitrary: lk)
  case (Cons node ns)
  show ?case
  proof (cases "Hex (rn_ID node) \<in> set (lk_queried lk)")
    case True
    then show ?thesis using Cons.IH [OF Cons.prems] by (simp add: Let_def)
  next
    case False
    let ?lk = "lk\<lparr>lk_queried := lk_queried lk @ [Hex (rn_ID node)], lk_totalQueried := lk_totalQueried lk + 1,
            lk_spawned := lk_spawned lk @ [node]\<rparr>"
    have "distinct (lk_queried ?lk)" "length (lk_queried ?lk) = lk_totalQueried ?lk"
      using Cons.prems False by simp_all
    from Cons.IH [OF this] show ?thesis using False by (simp add: Let_def)
  qed
qed simp

lemma K_8: "length (FindClosest rt x K) \<le> 8"
  by (simp add: length_FindClosest K_def)

lemma lookup_ok_start:
  assumes "lookup_ok lk" and "lk_phase lk = Top"
  shows "lookup_ok (start_round n lk)"
proof (cases "FindClosest (routingTable n) (lk_target lk) K")
  case Nil
  then show ?thesis using assms by (simp add: start_round_def lookup_ok_def)
next
  case (Cons a ns)
  let ?lk = "lk\<lparr>lk_phase := InRound, lk_newNodes := [], lk_roundResponses := 0\<rparr>"
  have "length (a # ns) \<le> 8" using K_8 Cons by metis
  moreover have "distinct (lk_queried ?lk)" "length (lk_queried ?lk) = lk_totalQueried ?lk"
    using assms by (simp_all add: lookup_ok_def)
  note pick_nodes_counts [OF this, of "a # ns"]
  ultimately have "lookup_ok (pick_nodes (a # ns) ?lk)"
    using assms by (simp only: lookup_ok_def pick_nodes_fields) simp
  then show ?thesis by (simp add: start_round_def Cons Let_def)
qed

lemma lookup_ok_step:
  assumes "lookup_step (lk, n) l (lk', n')" and "lookup_ok lk"
  shows "lookup_ok lk'"
  using assms(1)
proof (cases rule: lookup_step.cases)
  case Start
  then show ?thesis using lookup_ok_start assms(2) by auto
next
  case (Finish now)
  then show ?thesis using assms(2)
    by (auto simp: lookup_ok_def end_round_def Let_def split: if_splits)
qed (use assms(2) in \<open>auto simp: lookup_ok_def spawn_def answer_def give_up_def\<close>)

lemma wf_node_chan: "wf_node n \<Longrightarrow> chan_ok c \<Longrightarrow> wf_node (n\<lparr>eventChan := c\<rparr>)"
  by (simp add: wf_node_def wf_replies_def)

lemma wf_step:
  assumes "lookup_step (lk, n) l (lk', n')" and "wf_node n"
  shows "wf_node n'"
  using assms(1)
proof (cases rule: lookup_step.cases)
  case (Spawn i)
  then show ?thesis using assms(2) by (auto simp: spawn_def intro: wf_query_peers)
next
  case (Answer i resp c)
  let ?k = "lk_waiting lk ! i"
  have "exec (TakeReply ?k) n = Inr n'" using Answer by simp
  then show ?thesis by (rule exec_wf [OF assms(2), rotated]) simp
next
  case (Finish now)
  then show ?thesis using assms(2) by (auto simp: end_round_def Let_def wf_insert_all split: if_splits)
next
  case (Env op)
  then show ?thesis using exec_wf [OF assms(2)] by blast
qed (use assms wf_node_chan in auto)

section \<open>Progress\<close>

text \<open>An upper bound of the steps a lookup has left.\<close>

definition rank :: "lookup \<Rightarrow> nat" where
  "rank lk =
     (case lk_phase lk of
        Top \<Rightarrow> 18 * (3 - lk_round lk)
      | InRound \<Rightarrow> 18 * (2 - lk_round lk) + 2 * length (lk_spawned lk) + length (lk_waiting lk) + 1
      | Returned \<Rightarrow> 0)"

lemma rank_step:
  assumes "lookup_step (lk, n) l (lk', n')" and "lookup_ok lk"
  shows "l = Other \<and> lk' = lk \<or> l \<noteq> Other \<and> rank lk' < rank lk"
  using assms(1)
proof (cases rule: lookup_step.cases)
  case Start
  have r: "lk_round lk < 3" using assms(2) Start by (simp add: lookup_ok_def)
  have ok: "lookup_ok lk'" using lookup_ok_step assms by blast
  consider "lk_phase lk' = Returned" | "lk_phase lk' = InRound" "lk_round lk' = lk_round lk" "lk_waiting lk' = []"
    using Start assms(2) by (auto simp: start_round_def lookup_ok_def Let_def split: if_splits)
  then show ?thesis
  proof cases
    case 2
    then have "length (lk_spawned lk') \<le> 8" using ok by (simp add: lookup_ok_def)
    with 2 r Start show ?thesis by (simp add: rank_def)
  qed (use Start r in \<open>simp add: rank_def\<close>)
next
  case (Finish now)
  then show ?thesis using assms(2)
    by (auto simp: rank_def end_round_def lookup_ok_def Let_def split: if_splits)
qed (use assms(2) in \<open>auto simp: rank_def spawn_def answer_def give_up_def lookup_ok_def\<close>)

lemma enabled:
  assumes "lookup_ok lk" and "lk_phase lk \<noteq> Returned"
  shows "\<exists>lk' n'. lookup_step (lk, n) Own (lk', n')"
proof (cases "lk_phase lk")
  case Top
  then show ?thesis using lookup_step.Start by blast
next
  case InRound
  consider "lk_spawned lk \<noteq> []" | "lk_waiting lk \<noteq> []" | "lk_spawned lk = []" "lk_waiting lk = []" by blast
  then show ?thesis
  proof cases
    case 1
    then have "lookup_step (lk, n) Own (spawn 0 lk n)" by (intro lookup_step.Spawn InRound) simp
    then show ?thesis by (cases "spawn 0 lk n") auto
  next
    case 2
    then have "lookup_step (lk, n) Own (give_up 0 lk, n)" by (intro lookup_step.Expire InRound) simp
    then show ?thesis by blast
  next
    case 3
    then have "lookup_step (lk, n) Own (end_round 0 lk n)" by (intro lookup_step.Finish InRound)
    then show ?thesis by (cases "end_round 0 lk n") auto
  qed
qed (use assms in simp)

lemma run_ok:
  assumes "lookup_run s ls s'" and "lookup_ok (fst s)" and "wf_node (snd s)"
  shows "lookup_ok (fst s') \<and> wf_node (snd s') \<and> own_steps ls + rank (fst s') \<le> rank (fst s)"
  using assms
proof (induction rule: lookup_run.induct)
  case (Stop s)
  then show ?case by (simp add: own_steps_def)
next
  case (Step s ls s1 l s2)
  obtain lk1 n1 lk2 n2 where s: "s1 = (lk1, n1)" "s2 = (lk2, n2)" by (cases s1; cases s2) auto
  have st: "lookup_step (lk1, n1) l (lk2, n2)" using Step.hyps(2) s by simp
  have ih: "lookup_ok lk1" "wf_node n1" "own_steps ls + rank lk1 \<le> rank (fst s)"
    using Step.IH Step.prems s by simp_all
  show ?case using rank_step [OF st ih(1)] lookup_ok_step [OF st ih(1)] wf_step [OF st ih(2)] ih(3) s
    by (auto simp: own_steps_def)
qed

lemma run_peers:
  "lookup_run s ls s' \<Longrightarrow> lk_peers (fst s') = lk_peers (fst s) @ concat (map GetResponsePeers (replies ls))"
proof (induction rule: lookup_run.induct)
  case (Step s ls s1 l s2)
  have "lk_peers (fst s2) = lk_peers (fst s1) @ concat (map GetResponsePeers (replies [l]))"
    using Step.hyps(2)
    by (cases rule: lookup_step.cases)
      (auto simp: start_round_def spawn_def answer_def give_up_def end_round_def Let_def)
  then show ?case using Step.IH by (simp add: replies_snoc)
qed simp

text \<open>
  A transaction is forgotten by the handler of its response only: a lookup that gives up leaves
  it registered.
\<close>

lemma lookup_keeps_transactions:
  assumes "lookup_step (lk, n) l (lk', n')" and "l \<noteq> Other"
  shows "dom (pendingTxns n) \<subseteq> dom (pendingTxns n')"
  using assms(1)
proof (cases rule: lookup_step.cases)
  case (Spawn i)
  then show ?thesis
    by (auto simp: spawn_def query_peers_def nextTxnID_def WriteToUDP_def Let_def)
qed (use assms(2) in \<open>auto simp: end_round_def Let_def split: if_splits\<close>)

section \<open>Properties\<close>

text \<open>C16: A lookup always returns, and stays within its budget. However its goroutines, the
  handlers, the periodic work and other lookups interleave, at most 54 steps are its own (three
  rounds of at most eight nodes), it asks no node twice and at most 24 in all, the node keeps its
  invariant, and as long as it has not returned it can go on, whatever peers answer or do not.\<close>

theorem find_peers_returns:
  assumes "lookup_run (begin_lookup h, n) ls (lk, n')" and "wf_node n"
  shows "own_steps ls \<le> 54 \<and> distinct (lk_queried lk) \<and> length (lk_queried lk) \<le> 24 \<and> wf_node n'
    \<and> (lk_phase lk \<noteq> Returned \<longrightarrow> (\<exists>s. lookup_step (lk, n') Own s))
    \<and> lk_peers lk = concat (map GetResponsePeers (replies ls))"
proof -
  have "rank (begin_lookup h) = 54" "lk_peers (begin_lookup h) = []"
    by (simp_all add: rank_def begin_lookup_def)
  then show ?thesis
    using run_ok [OF assms(1)] run_peers [OF assms(1)] lookup_ok_begin [of h] assms(2) enabled [of lk n']
    by (auto simp: lookup_ok_def)
qed

definition sample_table_node :: dht_node where
  "sample_table_node =
     (NewNode (replicate 16 7) zeroID 6881 (make_chan 2) [])
       \<lparr>routingTable := snd (Insert (NewRoutingTable zeroID) (arr20_of [1]) [10, 0, 0, 1] 6881 0)\<rparr>"

definition sample_lookup :: lookup where
  "sample_lookup = start_round sample_table_node (begin_lookup (arr20_of [2]))"

lemma sample_closest: "map rn_ID (FindClosest (routingTable sample_table_node) (arr20_of [2]) K) = [arr20_of [1]]"
  by code_simp

lemma sample_lookup_fields:
  "lk_phase sample_lookup = InRound" "length (lk_spawned sample_lookup) = 1" "lk_waiting sample_lookup = []"
  "lk_queried sample_lookup = [Hex (arr20_of [1])]"
proof -
  obtain x where x: "FindClosest (routingTable sample_table_node) (arr20_of [2]) K = [x]" "rn_ID x = arr20_of [1]"
    using sample_closest by (auto simp: map_eq_Cons_conv)
  have t: "lk_target (begin_lookup (arr20_of [2])) = arr20_of [2]"
    unfolding begin_lookup_def lookup.simps FromBytes_hash ..
  show "lk_phase sample_lookup = InRound" "length (lk_spawned sample_lookup) = 1" "lk_waiting sample_lookup = []"
    "lk_queried sample_lookup = [Hex (arr20_of [1])]"
    unfolding sample_lookup_def start_round_def t x
    by (simp_all add: x begin_lookup_def)
qed

lemma wf_sample_table_node: "wf_node sample_table_node"
proof -
  have "wf_node (insert_node 0 (arr20_of [1]) [10, 0, 0, 1] 6881
      (NewNode (replicate 16 7) zeroID 6881 (make_chan 2) []))"
    by (intro wf_insert_node wf_NewNode) simp_all
  then show ?thesis
    by (simp add: insert_node_def sample_table_node_def NewNode_def)
qed

lemma sample_run:
  "\<exists>lk n'. lookup_run (begin_lookup (arr20_of [2]), sample_table_node) [Own, Own, Own] (lk, n')
     \<and> lk_phase lk = InRound \<and> lk_queried lk = [Hex (arr20_of [1])]"
proof -
  let ?lk1 = "fst (spawn 0 sample_lookup sample_table_node)"
  let ?n1 = "snd (spawn 0 sample_lookup sample_table_node)"
  have "lookup_step (begin_lookup (arr20_of [2]), sample_table_node) Own (sample_lookup, sample_table_node)"
    unfolding sample_lookup_def by (rule lookup_step.Start) (simp add: begin_lookup_def)
  moreover have "lookup_step (sample_lookup, sample_table_node) Own (?lk1, ?n1)"
    using lookup_step.Spawn [of sample_lookup 0 sample_table_node] sample_lookup_fields by simp
  moreover have "lookup_step (?lk1, ?n1) Own (give_up 0 ?lk1, ?n1)"
    by (rule lookup_step.Expire) (simp_all add: spawn_def sample_lookup_fields)
  ultimately have "lookup_run (begin_lookup (arr20_of [2]), sample_table_node) ((([] @ [Own]) @ [Own]) @ [Own])
      (give_up 0 ?lk1, ?n1)"
    by (intro lookup_run.Step [OF lookup_run.Step [OF lookup_run.Step [OF lookup_run.Stop]]])
  then show ?thesis
    by (intro exI conjI) (auto simp: spawn_def give_up_def sample_lookup_fields)
qed

theorem find_peers_returns_witness:
  "\<exists>lk n'. lookup_run (begin_lookup (arr20_of [2]), sample_table_node) [Own, Own, Own] (lk, n')
     \<and> lk_queried lk = [Hex (arr20_of [1])] \<and> wf_node n' \<and> (\<exists>s. lookup_step (lk, n') Own s)"
proof -
  obtain lk n' where r: "lookup_run (begin_lookup (arr20_of [2]), sample_table_node) [Own, Own, Own] (lk, n')"
    "lk_phase lk = InRound" "lk_queried lk = [Hex (arr20_of [1])]" using sample_run by blast
  then show ?thesis using find_peers_returns [OF r(1) wf_sample_table_node] by auto
qed

end
