(* ===== verification/Net_Addr.thy ===== *)
theory Net_Addr
  imports KRPC
begin

text \<open>
  Peer addresses as text, \<open>fmt.Sprintf("%s:%d", ip, port)\<close>, which the node pool uses as a key and
  the crawler as the address to dial. \<open>net.IP.String\<close> writes four bytes (also in their 16-byte
  form) in dotted decimal; \<open>v6\<close> is its text for the other lengths, an argument because no address
  of a peer that was decoded from a reply has one.
\<close>

definition dotted :: "bytes \<Rightarrow> bytes" where
  "dotted a = dec_nat (unat (a ! 0)) @ ch CHR ''.'' # dec_nat (unat (a ! 1)) @ ch CHR ''.'' #
     dec_nat (unat (a ! 2)) @ ch CHR ''.'' # dec_nat (unat (a ! 3))"

definition ip_string :: "(bytes \<Rightarrow> bytes) \<Rightarrow> bytes \<Rightarrow> bytes" where
  "ip_string v6 ip =
     (if length ip = 0 then bs ''<nil>''
      else if length (To4 ip) = 4 then dotted (To4 ip) else v6 ip)"

definition addr_string :: "(bytes \<Rightarrow> bytes) \<Rightarrow> bytes \<Rightarrow> int \<Rightarrow> bytes" where
  "addr_string v6 ip port = ip_string v6 ip @ ch CHR '':'' # fmt_int port"

lemma dec_nat_inject: "m < 2 ^ 64 \<Longrightarrow> n < 2 ^ 64 \<Longrightarrow> dec_nat m = dec_nat n \<longleftrightarrow> m = n"
  using parse_digits_dec_nat [of m] parse_digits_dec_nat [of n] by (metis sum.inject(2))

text \<open>A separator that neither part holds splits a text in one way only.\<close>

lemma split_unique:
  "c \<notin> set a \<Longrightarrow> c \<notin> set a' \<Longrightarrow> a @ c # r = a' @ c # r' \<longleftrightarrow> a = a' \<and> r = r'"
proof (induction a arbitrary: a')
  case Nil
  then show ?case by (cases a') auto
next
  case (Cons x a)
  then show ?case by (cases a') auto
qed

lemma dec_nat_no [simp]:
  "46 \<notin> set (dec_nat n)" "58 \<notin> set (dec_nat n)"
  using dec_nat_digits [of n] by (auto simp: is_digit_def)

lemma dotted_inject:
  assumes "length a = 4" and "length b = 4"
  shows "dotted a = dotted b \<longleftrightarrow> a = b"
proof -
  have l: "unat (x :: byte) < 2 ^ 64" for x
  proof -
    have "unat x < 2 ^ LENGTH(8)" by (rule unsigned_less)
    then have "unat x < 256" by simp
    then show ?thesis by (rule less_trans) simp
  qed
  have i: "unat x = unat y \<longleftrightarrow> x = y" for x y :: byte by (simp add: word_unat_eq_iff)
  obtain a0 a1 a2 a3 where a: "a = [a0, a1, a2, a3]"
    using assms(1) by (auto simp: numeral_eq_Suc length_Suc_conv)
  obtain b0 b1 b2 b3 where b: "b = [b0, b1, b2, b3]"
    using assms(2) by (auto simp: numeral_eq_Suc length_Suc_conv)
  show ?thesis unfolding a b dotted_def
    by (simp add: split_unique dec_nat_inject [OF l l] i)
qed

lemma dotted_no_colon: "58 \<notin> set (dotted a)"
  by (simp add: dotted_def)

lemma addr_string_inject:
  assumes "length a = 4" and "length b = 4" and "0 \<le> p" "p < 65536" and "0 \<le> q" "q < 65536"
  shows "addr_string v6 a p = addr_string v6 b q \<longleftrightarrow> a = b \<and> p = q"
proof -
  have n: "nat p < 2 ^ 64" "nat q < 2 ^ 64" using assms(4,6) by simp_all
  have "ip_string v6 a = dotted a" "ip_string v6 b = dotted b"
    using assms(1,2) by (auto simp: ip_string_def To4_def)
  then show ?thesis
    using assms dec_nat_inject [OF n]
    by (auto simp: addr_string_def split_unique dotted_no_colon dotted_inject fmt_int_def)
qed

text \<open>A peer of a reply has four bytes and a port of 16 bits.\<close>

definition peer_ok :: "compact_peer \<Rightarrow> bool" where
  "peer_ok p \<longleftrightarrow> length (cp_IP p) = 4 \<and> 0 \<le> cp_Port p \<and> cp_Port p < 65536"

lemma peers_of_values_ok: "p \<in> set (peers_of_values vs) \<Longrightarrow> peer_ok p"
proof (induction vs rule: peers_of_values.induct)
  case (2 v vs)
  have "peer_ok q" if "DecodeCompactPeer b = Some q" for b q
  proof -
    have "uint (get_uint16 x y) < 65536" for x y
      using uint_lt2p [of "get_uint16 x y"] by simp
    then show ?thesis using that
      by (auto simp: DecodeCompactPeer_def peer_ok_def port_at_def split: if_splits)
  qed
  then show ?case using 2 by (auto split: gval.splits option.splits)
qed simp

lemma GetResponsePeers_ok: "p \<in> set (GetResponsePeers m) \<Longrightarrow> peer_ok p"
  using peers_of_values_ok by (auto simp: GetResponsePeers_def split: option.splits)

end
