(* ===== verification/Pool.thy ===== *)
theory Pool
  imports Node_Protocol Lookup Net_Addr Machine
begin

text \<open>
  \<open>internal/dht/pool.go\<close>: several nodes that share one event channel. The model keeps the channel
  in the pool and hands it to a node for the length of one operation (\<open>node_at\<close>, \<open>set_node\<close>), so
  that the operations of the nodes, the collector of statistics, the consumer of the events and
  \<open>Stop\<close> interleave on one channel. \<open>Start\<close> is in the theory \<open>Startup\<close>.
\<close>

section \<open>State\<close>

record pool_stats =
  ps_QueriesReceived :: uint64
  ps_QueriesSent :: uint64
  ps_GetPeersCount :: uint64
  ps_AnnounceCount :: uint64
  ps_TotalNodes :: nat
  ps_RoutingSize :: nat

record pool =
  p_nodes :: "dht_node list"
  p_eventChan :: "event chan"
  p_startPort :: int
  p_count :: int
  p_bootstraps :: "bytes list"
  p_stats :: "pool_stats option"

text \<open>
  \<open>secret i\<close> are the random bytes node \<open>i\<close> draws, \<open>draw\<close> the random numbers of the identifiers. An
  event has 64 bytes. With that many identifiers made, the size of the channel does not wrap around.
\<close>

definition NewPool ::
  "(nat \<Rightarrow> bytes) \<Rightarrow> (nat \<Rightarrow> nat \<Rightarrow> nat res) \<Rightarrow> int \<Rightarrow> int \<Rightarrow> bytes list \<Rightarrow> pool res" where
  "NewPool secret draw cnt startPort boots =
     (if cnt \<le> 0 then Inl (Err (ErrMessage ''node count must be positive''))
      else
        (case GenerateDistributedIDs draw cnt of
           Inl e \<Rightarrow> Inl e
         | Inr ids \<Rightarrow>
             let ec = make_chan (nat (cnt * 1000)) in
             if \<not> make_chan_ok 64 (cnt * 1000) then Inl (Panic MakeChanSize)
             else
             Inr \<lparr>p_nodes = map (\<lambda>i. NewNode (secret i) (ids ! i) (startPort + int i) ec boots) [0..<nat cnt],
                  p_eventChan = ec, p_startPort = startPort, p_count = cnt, p_bootstraps = boots,
                  p_stats = None\<rparr>))"

section \<open>Operations\<close>

definition node_at :: "pool \<Rightarrow> nat \<Rightarrow> dht_node" where
  "node_at p i = (p_nodes p ! i)\<lparr>eventChan := p_eventChan p\<rparr>"

definition set_node :: "nat \<Rightarrow> dht_node \<Rightarrow> pool \<Rightarrow> pool" where
  "set_node i n p = p\<lparr>p_nodes := (p_nodes p)[i := n], p_eventChan := eventChan n\<rparr>"

definition NodeCount :: "pool \<Rightarrow> nat" where
  "NodeCount p = length (p_nodes p)"

definition zero_stats :: pool_stats where
  "zero_stats = \<lparr>ps_QueriesReceived = 0, ps_QueriesSent = 0, ps_GetPeersCount = 0,
     ps_AnnounceCount = 0, ps_TotalNodes = 0, ps_RoutingSize = 0\<rparr>"

text \<open>One tick of \<open>collectStats\<close>; \<open>Stats\<close> reads what the last tick stored.\<close>

definition add_stats :: "pool_stats \<Rightarrow> dht_node \<Rightarrow> pool_stats" where
  "add_stats st n =
     (case Stats n of (recvd, snt, getPeers, announces, routing) \<Rightarrow>
        st\<lparr>ps_QueriesReceived := ps_QueriesReceived st + recvd, ps_QueriesSent := ps_QueriesSent st + snt,
           ps_GetPeersCount := ps_GetPeersCount st + getPeers,
           ps_AnnounceCount := ps_AnnounceCount st + announces,
           ps_RoutingSize := ps_RoutingSize st + routing\<rparr>)"

definition collect_stats :: "pool \<Rightarrow> pool" where
  "collect_stats p =
     p\<lparr>p_stats := Some (foldl add_stats (zero_stats\<lparr>ps_TotalNodes := length (p_nodes p)\<rparr>) (p_nodes p))\<rparr>"

definition Stats_pool :: "pool \<Rightarrow> pool_stats" where
  "Stats_pool p = (case p_stats p of None \<Rightarrow> zero_stats | Some s \<Rightarrow> s)"

definition Stop_pool :: "pool \<Rightarrow> pool res" where
  "Stop_pool p = (case close_chan (p_eventChan p) of Inl e \<Rightarrow> Inl e | Inr c \<Rightarrow> Inr (p\<lparr>p_eventChan := c\<rparr>))"

text \<open>
  \<open>FindPeers\<close>: the lookups of the first nodes run concurrently; \<open>order\<close> is the order in which
  they end and \<open>found i\<close> what node \<open>i\<close> found.
\<close>

fun unique_peers :: "(bytes \<Rightarrow> bytes) \<Rightarrow> bytes list \<Rightarrow> compact_peer list \<Rightarrow> compact_peer list" where
  "unique_peers v6 seen [] = []"
| "unique_peers v6 seen (peer # peers) =
     (let key = addr_string v6 (cp_IP peer) (cp_Port peer) in
      if key \<in> set seen then unique_peers v6 seen peers
      else peer # unique_peers v6 (key # seen) peers)"

definition nodesToQuery :: "pool \<Rightarrow> nat" where
  "nodesToQuery p = (if length (p_nodes p) < 5 then length (p_nodes p) else 5)"

definition FindPeers :: "(bytes \<Rightarrow> bytes) \<Rightarrow> nat list \<Rightarrow> (nat \<Rightarrow> compact_peer list) \<Rightarrow> compact_peer list" where
  "FindPeers v6 order found = unique_peers v6 [] (concat (map found order))"

section \<open>The pool as a system\<close>

datatype pool_op =
    OnNode nat node_op
  | CollectStats
  | NextEvent
  | StopPool

fun pool_exec :: "pool_op \<Rightarrow> pool \<Rightarrow> pool res" where
  "pool_exec (OnNode i op) p =
     (case exec op (node_at p i) of Inl e \<Rightarrow> Inl e | Inr n \<Rightarrow> Inr (set_node i n p))"
| "pool_exec CollectStats p = Inr (collect_stats p)"
| "pool_exec NextEvent p = Inr (p\<lparr>p_eventChan := snd (recv (p_eventChan p))\<rparr>)"
| "pool_exec StopPool p = Stop_pool p"

abbreviation pool_run :: "pool_op list \<Rightarrow> pool \<Rightarrow> pool res" where
  "pool_run \<equiv> run_ops pool_exec"

fun pool_op_ok :: "nat \<Rightarrow> pool_op \<Rightarrow> bool" where
  "pool_op_ok k (OnNode i op) = (i < k \<and> op_ok op)"
| "pool_op_ok k _ = True"

definition wf_pool :: "pool \<Rightarrow> bool" where
  "wf_pool p \<longleftrightarrow> (\<forall>i < length (p_nodes p). wf_node (node_at p i)) \<and> chan_ok (p_eventChan p)
     \<and> ch_cap (p_eventChan p) = 1000 * length (p_nodes p)"

section \<open>The shared channel\<close>

text \<open>No operation of a node changes the capacity of the event channel, or closes it.\<close>

definition same_chan :: "'a chan \<Rightarrow> 'a chan \<Rightarrow> bool" where
  "same_chan c c' \<longleftrightarrow> ch_cap c' = ch_cap c \<and> ch_closed c' = ch_closed c"

lemma same_chan_simps [simp]: "same_chan c c" "same_chan c (c\<lparr>ch_buf := b\<rparr>)" "same_chan c (snd (recv c))"
  by (simp_all add: same_chan_def)

lemma handleMessage_chan:
  assumes "handleMessage now data addr n = Inr n'"
  shows "same_chan (eventChan n) (eventChan n')"
proof -
  have deliver: "eventChan n2 = eventChan n1" if "deliver m n1 = Inr n2" for m n1 n2
    using deliver_fields [OF that] by simp
  have replied: "eventChan (replied now m addr n1) = eventChan n1" for m n1
    by (cases rule: replied_cases [of now m addr n1]) simp_all
  have greet: "eventChan (greeted now m addr n1) = eventChan n1" for m n1
    by (simp add: greeted_def split: option.split)
  have "same_chan (eventChan n1) (eventChan n')" if "handleResponse now m addr n1 = Inr n'" for m n1
    using that deliver replied by (auto simp: handleResponse_replied split: sum.splits)
  moreover have "same_chan (eventChan n1) (eventChan n')" if "handleQuery now m addr n1 = Inr n'" for m n1
    using that greet [of m n1]
    by (auto simp: handleQuery_greeted handlePing_def handleFindNode_def handleGetPeers_def try_send_Inr
        handleAnnouncePeer_def WriteToUDP_def Let_def split: if_splits option.splits sum.splits bool.splits)
  ultimately have "same_chan (eventChan n1) (eventChan n')"
    if "handleResponse now m addr n1 = Inr n' \<or> handleQuery now m addr n1 = Inr n'" for m n1
    using that by blast
  then show ?thesis
    using assms by (fastforce simp: handleMessage_def Let_def split: if_splits sum.splits fault.splits)
qed

lemma exec_chan:
  assumes "exec op n = Inr n'"
  shows "same_chan (eventChan n) (eventChan n')"
proof (cases op)
  case (Receive now data addr)
  then show ?thesis using assms handleMessage_chan by simp
next
  case (QueryPeers h node)
  then show ?thesis using assms by (auto simp: query_peers_def nextTxnID_def WriteToUDP_def Let_def)
next
  case (ActiveQuery h)
  then show ?thesis using assms sends_ops(1) [of n h] sends_fields(4) by fastforce
next
  case (Refresh rnd)
  then show ?thesis using assms sends_ops(2) [of n rnd] sends_fields(4) by fastforce
next
  case (BootstrapContact resolve rnd)
  then show ?thesis using assms sends_ops(3) [of n resolve rnd] sends_fields(4) by fastforce
next
  case (BootstrapRound rnd)
  then show ?thesis using assms sends_ops(4) [of n rnd] sends_fields(4) by fastforce
qed (use assms in \<open>auto simp: rotateSecrets_def\<close>)

section \<open>The invariant\<close>

lemma node_at_set_node:
  assumes "i < length (p_nodes p)" and "j < length (p_nodes p)"
  shows "node_at (set_node i n p) j = (if j = i then n else (p_nodes p ! j)\<lparr>eventChan := eventChan n\<rparr>)"
  using assms by (simp add: node_at_def set_node_def)

lemma wf_pool_step:
  assumes "wf_pool p" and "pool_op_ok (length (p_nodes p)) op" and "pool_exec op p = Inr p'"
  shows "wf_pool p' \<and> map ID (p_nodes p') = map ID (p_nodes p)"
proof (cases op)
  case (OnNode i nop)
  then obtain n where n: "exec nop (node_at p i) = Inr n" "p' = set_node i n p"
    using assms(3) by (auto split: sum.splits)
  have i: "i < length (p_nodes p)" "op_ok nop" using assms(2) OnNode by simp_all
  have w: "wf_node (node_at p i)" using assms(1) i by (simp add: wf_pool_def)
  have wn: "wf_node n" by (rule exec_wf [OF w i(2) n(1)])
  then have c: "chan_ok (eventChan n)" by (simp add: wf_node_def)
  have cap: "ch_cap (eventChan n) = ch_cap (p_eventChan p)"
    using exec_chan [OF n(1)] by (simp add: same_chan_def node_at_def)
  have "wf_node (node_at p' j)" if j: "j < length (p_nodes p)" for j
  proof (cases "j = i")
    case False
    have "wf_node ((node_at p j)\<lparr>eventChan := eventChan n\<rparr>)"
      using assms(1) j c by (intro wf_node_chan) (simp_all add: wf_pool_def)
    with False i j n(2) show ?thesis by (simp add: node_at_set_node) (simp add: node_at_def)
  qed (use i wn n(2) in \<open>simp add: node_at_set_node\<close>)
  moreover have "ID n = ID (p_nodes p ! i)" using exec_keeps [OF n(1)] by (simp add: node_at_def)
  then have "map ID ((p_nodes p)[i := n]) = map ID (p_nodes p)"
    by (simp add: map_update) (metis i(1) list_update_id nth_map)
  ultimately show ?thesis using assms(1) c cap n(2) by (simp add: wf_pool_def set_node_def)
next
  case NextEvent
  let ?c = "snd (recv (p_eventChan p))"
  have c: "chan_ok ?c" using assms(1) by (simp add: wf_pool_def chan_ok_recv)
  have "wf_node ((node_at p j)\<lparr>eventChan := ?c\<rparr>)" if "j < length (p_nodes p)" for j
    using assms(1) that c by (intro wf_node_chan) (simp_all add: wf_pool_def)
  then show ?thesis using assms NextEvent c by (auto simp: wf_pool_def node_at_def)
next
  case StopPool
  then obtain c where p': "p' = p\<lparr>p_eventChan := c\<rparr>" "c = (p_eventChan p)\<lparr>ch_closed := True\<rparr>"
    using assms(3) by (auto simp: Stop_pool_def close_chan_def split: if_splits)
  have c: "chan_ok c" using assms(1) p' by (simp add: wf_pool_def chan_ok_def)
  have "wf_node ((node_at p j)\<lparr>eventChan := c\<rparr>)" if "j < length (p_nodes p)" for j
    using assms(1) that c by (intro wf_node_chan) (simp_all add: wf_pool_def)
  then show ?thesis using assms(1) p' c by (auto simp: wf_pool_def node_at_def)
qed (use assms in \<open>auto simp: wf_pool_def node_at_def collect_stats_def\<close>)

interpretation pool: machine pool_exec "\<lambda>p. wf_pool p \<and> map ID (p_nodes p) = ids" "pool_op_ok (length ids)"
  for ids
  by unfold_locales (use wf_pool_step in \<open>fastforce dest: map_eq_imp_length_eq\<close>)

lemma wf_pool_run:
  "pool_run ops p = Inr p' \<Longrightarrow> wf_pool p \<Longrightarrow> list_all (pool_op_ok (length (p_nodes p))) ops \<Longrightarrow>
    wf_pool p' \<and> map ID (p_nodes p') = map ID (p_nodes p)"
  using pool.run_keeps [of ops p p' "map ID (p_nodes p)"] by simp

lemma wf_NewPool:
  assumes "NewPool secret draw cnt startPort boots = Inr p" and "\<forall>i. length (secret i) = 16"
  shows "wf_pool p" and "length (p_nodes p) = nat cnt" and "0 < cnt"
    and "GenerateDistributedIDs draw cnt = Inr ids \<Longrightarrow> length ids = nat cnt \<Longrightarrow> map ID (p_nodes p) = ids"
    and "\<not> ch_closed (p_eventChan p)"
proof -
  obtain ids' where p: "0 < cnt" "GenerateDistributedIDs draw cnt = Inr ids'"
    "p_nodes p = map (\<lambda>i. NewNode (secret i) (ids' ! i) (startPort + int i) (make_chan (nat (cnt * 1000))) boots) [0..<nat cnt]"
    "p_eventChan p = make_chan (nat (cnt * 1000))"
    using assms(1) by (auto simp: NewPool_def Let_def split: if_splits sum.splits)
  show l: "length (p_nodes p) = nat cnt" "0 < cnt" using p by simp_all
  have "node_at p i = NewNode (secret i) (ids' ! i) (startPort + int i) (make_chan (nat (cnt * 1000))) boots"
    if "i < nat cnt" for i using that by (simp add: node_at_def p(3,4) NewNode_def)
  then show "wf_pool p" using assms(2) p(1,4) l(1)
    by (auto simp: wf_pool_def wf_NewNode nat_mult_distrib)
  show "map ID (p_nodes p) = ids" if "GenerateDistributedIDs draw cnt = Inr ids" "length ids = nat cnt"
    using that p(2,3) by (auto simp: NewNode_def list_eq_iff_nth_eq)
  show "\<not> ch_closed (p_eventChan p)" using p(4) by simp
qed

section \<open>Stopping\<close>

text \<open>
  \<open>Stop\<close> closes the event channel while read loops may still be handling a datagram: the next
  \<open>get_peers\<close> query is a send on a closed channel.
\<close>

lemma query_after_stop_panics:
  assumes "wf_pool p" and "Stop_pool p = Inr p'" and "i < length (p_nodes p)"
    and "DecodeMessage data = Inr m" and "Type m = MsgTypeQuery" and "Query m = QueryGetPeers"
    and "GetInfoHash m = Some h" and "ua_IP addr \<noteq> []"
  shows "pool_exec (OnNode i (Receive now data addr)) p' = Inl (Panic SendOnClosed)"
proof -
  have "pool_exec StopPool p = Inr p'" using assms(2) by simp
  from wf_pool_step [OF assms(1) _ this] have w: "wf_pool p'" by simp
  have p': "p_nodes p' = p_nodes p" "ch_closed (p_eventChan p')"
    using assms(2) by (auto simp: Stop_pool_def close_chan_def split: if_splits)
  then have wn: "wf_node (node_at p' i)" "ch_closed (eventChan (node_at p' i))"
    using w assms(3) by (simp_all add: wf_pool_def node_at_def)
  let ?n = "greeted now m addr ((node_at p' i)\<lparr>queriesReceived := queriesReceived (node_at p' i) + 1\<rparr>)"
  have "wf_node ?n" by (rule wf_node_received [OF wn(1)])
  moreover have "ch_closed (eventChan ?n)" using wn(2) by (simp add: greeted_def split: option.split)
  ultimately show ?thesis
    using handleMessage_get_peers [OF wn(1) assms(8,4,5,6)] handleGetPeers_value [of ?n addr m] assms(7,8)
    by simp
qed

text \<open>The event of an announcement reaches the crawler through the shared channel.\<close>

lemma pool_announce:
  assumes "wf_pool p" and "i < length (p_nodes p)" and "\<not> ch_closed (p_eventChan p)"
    and "length (ch_buf (p_eventChan p)) < ch_cap (p_eventChan p)" and "ua_IP addr \<noteq> []"
    and "int (length tid) \<le> maxAlloc"
    and "query_ok (AnnouncePeerQ h port token)"
    and "encode_query tid nid (AnnouncePeerQ h port token) = Inr data"
    and "token_valid (tokenSecret (p_nodes p ! i)) (lastSecret (p_nodes p ! i)) token (ua_IP addr)"
  shows "\<exists>p'. pool_exec (OnNode i (Receive now data addr)) p = Inr p'
    \<and> ch_buf (p_eventChan p') = ch_buf (p_eventChan p) @
        [\<lparr>ev_Type = EventAnnounce, ev_InfoHash = h, ev_PeerIP = ua_IP addr,
          ev_PeerPort = (case port of None \<Rightarrow> ua_Port addr | Some q \<Rightarrow> q)\<rparr>]"
proof -
  have w: "wf_node (node_at p i)"
    using assms(1,2) by (auto simp: wf_pool_def)
  moreover have n: "eventChan (node_at p i) = p_eventChan p"
    "tokenSecret (node_at p i) = tokenSecret (p_nodes p ! i)" "lastSecret (node_at p i) = lastSecret (p_nodes p ! i)"
    by (simp_all add: node_at_def)
  ultimately obtain n' where "handleMessage now data addr (node_at p i) = Inr n'"
    "ch_buf (eventChan n') = ch_buf (p_eventChan p) @ [\<lparr>ev_Type = EventAnnounce, ev_InfoHash = h, ev_PeerIP = ua_IP addr,
          ev_PeerPort = (case port of None \<Rightarrow> ua_Port addr | Some q \<Rightarrow> q)\<rparr>]"
    using announce_accepted [OF w assms(5) _ assms(6-8), of now] assms(3,4,9) by auto
  then show ?thesis by (simp add: set_node_def)
qed

section \<open>Merging the lookups\<close>

lemma unique_peers_spec:
  "\<forall>p \<in> set ps. peer_ok p \<Longrightarrow>
    set (unique_peers v6 seen ps) = {p \<in> set ps. addr_string v6 (cp_IP p) (cp_Port p) \<notin> set seen}
    \<and> distinct (unique_peers v6 seen ps)"
proof (induction ps arbitrary: seen)
  case (Cons p ps)
  let ?key = "\<lambda>p. addr_string v6 (cp_IP p) (cp_Port p)"
  have inj: "?key q = ?key p \<longleftrightarrow> q = p" if "q \<in> set ps" for q
  proof -
    have "peer_ok q" "peer_ok p" using that Cons.prems by auto
    then show ?thesis
      using addr_string_inject [of "cp_IP q" "cp_IP p" "cp_Port q" "cp_Port p" v6]
      by (cases q; cases p) (simp add: peer_ok_def)
  qed
  note ih = Cons.IH [of seen] Cons.IH [of "?key p # seen"]
  show ?case
  proof (cases "?key p \<in> set seen")
    case True
    then show ?thesis using ih(1) Cons.prems by (auto simp: Let_def)
  next
    case False
    have "set (unique_peers v6 (?key p # seen) ps)
        = {q \<in> set ps. ?key q \<notin> set seen \<and> q \<noteq> p}" "distinct (unique_peers v6 (?key p # seen) ps)"
      using ih(2) Cons.prems inj by auto
    with False show ?thesis by (auto simp: Let_def)
  qed
qed simp

text \<open>A lookup of a node of the pool that has returned.\<close>

definition lookup_found :: "pool \<Rightarrow> info_hash \<Rightarrow> nat \<Rightarrow> message list \<Rightarrow> compact_peer list \<Rightarrow> bool" where
  "lookup_found p h i ms peers \<longleftrightarrow>
     (\<exists>ls lk n'. lookup_run (begin_lookup h, node_at p i) ls (lk, n') \<and> lk_phase lk = Returned
        \<and> ms = replies ls \<and> peers = lk_peers lk)"

section \<open>Properties\<close>

text \<open>C36: The pool's search. Whatever the lookups of the first five nodes received and in
  whatever order they end, \<open>FindPeers\<close> returns every peer of every reply they took and nothing
  else, each address once.\<close>

theorem pool_find_peers:
  assumes "set order = {..<nodesToQuery p}" and "\<forall>i < nodesToQuery p. lookup_found p h i (ms i) (found i)"
  shows "distinct (FindPeers v6 order found) \<and>
    set (FindPeers v6 order found) = (\<Union>i < nodesToQuery p. \<Union>m \<in> set (ms i). set (GetResponsePeers m))"
proof -
  have f: "found i = concat (map GetResponsePeers (ms i))" if "i < nodesToQuery p" for i
    using assms(2) that run_peers by (fastforce simp: lookup_found_def begin_lookup_def)
  have "\<forall>q \<in> set (concat (map found order)). peer_ok q"
    using assms(1) f GetResponsePeers_ok by auto
  from unique_peers_spec [OF this, of v6 "[]"] show ?thesis
    using assms(1) f by (auto simp: FindPeers_def)
qed

definition sample_pool :: pool where
  "sample_pool =
     (let ec = make_chan 1000 in
      \<lparr>p_nodes = [NewNode (replicate 16 7) (id_of_big 5) 6881 ec []], p_eventChan = ec,
       p_startPort = 6881, p_count = 1, p_bootstraps = [], p_stats = None\<rparr>)"

lemma NewPool_sample: "NewPool (\<lambda>_. replicate 16 7) (\<lambda>_ _. Inr 5) 1 6881 [] = Inr sample_pool"
  using gen_loop.simps(2) [of "\<lambda>_ _. Inr 5" _ _ 0]
  by (simp add: NewPool_def GenerateDistributedIDs_def make_ok_def make_chan_ok_def maxAlloc_def IDLength_def
      sample_pool_def Let_def)

text \<open>A pool whose node knows one other node, and a lookup of it that this node answers.\<close>

definition searching_node :: dht_node where
  "searching_node = sample_table_node\<lparr>eventChan := make_chan 1000\<rparr>"

definition searching_pool :: pool where
  "searching_pool = sample_pool\<lparr>p_nodes := [searching_node]\<rparr>"

lemma node_at_searching: "node_at searching_pool 0 = searching_node"
  by (simp add: node_at_def searching_pool_def searching_node_def sample_pool_def Let_def)

lemma searching_query:
  "pendingTxns (query_peers h x searching_node) = [put_uint16 1 \<mapsto> 0]"
  "map ch_buf (replyChans (query_peers h x searching_node)) = [[]]"
  "length (replyChans searching_node) = 0"
  by (simp_all add: query_peers_def nextTxnID_def WriteToUDP_def searching_node_def sample_table_node_def
      NewNode_def Let_def)

lemma answered_lookup:
  "\<exists>m. lookup_found searching_pool (arr20_of [2]) 0 [m] (GetResponsePeers m)
     \<and> GetResponsePeers m = [\<lparr>cp_IP = [10, 0, 0, 9], cp_Port = 6889\<rparr>]"
proof -
  let ?h = "arr20_of [2]" and ?peer = "\<lparr>cp_IP = [10, 0, 0, 9], cp_Port = 6889\<rparr> :: compact_peer"
  let ?lk1 = "fst (spawn 0 sample_lookup searching_node)" and ?n1 = "snd (spawn 0 sample_lookup searching_node)"
  have wf: "wf_node searching_node"
    unfolding searching_node_def by (rule wf_node_chan [OF wf_sample_table_node]) simp
  have n1: "?n1 = query_peers (lk_hash sample_lookup) (lk_spawned sample_lookup ! 0) searching_node"
    by (simp add: spawn_def)
  have lk1: "lk_phase ?lk1 = InRound" "lk_spawned ?lk1 = []" "lk_waiting ?lk1 = [0]" "lk_peers ?lk1 = []"
    using sample_lookup_fields searching_query(3)
    by (auto simp: spawn_def without_def sample_lookup_def start_round_def begin_lookup_def length_Suc_conv Let_def)
  obtain data m where d: "DecodeMessage data = Inr m" "TransactionID m = put_uint16 1"
      "Type m = MsgTypeResponse" "reply_read (PeersReply [1] [?peer]) m"
    using reply_roundtrip [of "put_uint16 1" "PeersReply [1] [?peer]" zeroID] by (auto simp: maxAlloc_def)
  have peers: "GetResponsePeers m = [?peer]" using d(4) by (simp add: wire_peer_def ip4_field_def To4_def)
  have "wf_node ?n1" unfolding n1 by (rule wf_query_peers [OF wf])
  from reply_delivered [OF this d(1,3), of 0 sample_addr] obtain n2 where
    n2: "handleMessage 0 data sample_addr ?n1 = Inr n2" "map ch_buf (replyChans n2) = [[m]]"
    unfolding n1 searching_query using d(2) by auto
  then obtain c where c: "replyChans n2 = [c]" "ch_buf c = [m]" by auto
  let ?lk2 = "answer 0 m ?lk1" and ?n3 = "n2\<lparr>replyChans := (replyChans n2)[0 := c\<lparr>ch_buf := []\<rparr>]\<rparr>"
  let ?last = "end_round 0 ?lk2 ?n3"
  have s: "lookup_step (begin_lookup ?h, searching_node) Own (sample_lookup, searching_node)"
    using lookup_step.Start [of "begin_lookup ?h" searching_node]
    by (simp add: begin_lookup_def sample_lookup_def start_round_def searching_node_def)
  have t: "lookup_step (sample_lookup, searching_node) Own (?lk1, ?n1)"
    using lookup_step.Spawn [of sample_lookup 0 searching_node] sample_lookup_fields by simp
  have u: "lookup_step (?lk1, ?n1) Other (?lk1, n2)"
    by (rule lookup_step.Env [of "Receive 0 data sample_addr"]) (use n2 in \<open>simp_all add: sample_addr_def\<close>)
  have v: "lookup_step (?lk1, n2) (Got m) (?lk2, ?n3)"
    using lookup_step.Answer [of ?lk1 0 n2 m "c\<lparr>ch_buf := []\<rparr>"] lk1 c by (simp add: recv_def)
  have w: "lookup_step (?lk2, ?n3) Own ?last"
    by (rule lookup_step.Finish) (use lk1 in \<open>simp_all add: answer_def without_def\<close>)
  have "lookup_run (begin_lookup ?h, searching_node) ((((([] @ [Own]) @ [Own]) @ [Other]) @ [Got m]) @ [Own]) ?last"
    by (intro lookup_run.Step [OF lookup_run.Step [OF lookup_run.Step [OF lookup_run.Step [OF lookup_run.Step
      [OF lookup_run.Stop s] t] u] v] w])
  moreover have "lk_phase (fst ?last) = Returned" "lk_peers (fst ?last) = GetResponsePeers m"
    using lk1 peers by (auto simp: end_round_def answer_def Let_def)
  ultimately have "lookup_found searching_pool ?h 0 [m] (GetResponsePeers m)"
    unfolding lookup_found_def node_at_searching
    by (intro exI [of _ "[Own, Own, Other, Got m, Own]"] exI [of _ "fst ?last"] exI [of _ "snd ?last"]) simp
  with peers show ?thesis by blast
qed

theorem pool_find_peers_witness:
  "\<exists>m. lookup_found searching_pool (arr20_of [2]) 0 [m] (GetResponsePeers m)
     \<and> set (FindPeers (\<lambda>_. []) [0] (\<lambda>_. GetResponsePeers m)) = {\<lparr>cp_IP = [10, 0, 0, 9], cp_Port = 6889\<rparr>}"
proof -
  obtain m where m: "lookup_found searching_pool (arr20_of [2]) 0 [m] (GetResponsePeers m)"
      "GetResponsePeers m = [\<lparr>cp_IP = [10, 0, 0, 9], cp_Port = 6889\<rparr>]"
    using answered_lookup by blast
  have n: "nodesToQuery searching_pool = 1" by (simp add: nodesToQuery_def searching_pool_def)
  have o: "set [0] = {..<nodesToQuery searching_pool}" unfolding n by auto
  have f: "\<forall>i < nodesToQuery searching_pool.
      lookup_found searching_pool (arr20_of [2]) i ((\<lambda>_. [m]) i) ((\<lambda>_. GetResponsePeers m) i)"
    unfolding n using m(1) by simp
  from pool_find_peers [OF o f, of "\<lambda>_. []"]
  have "set (FindPeers (\<lambda>_. []) [0] (\<lambda>_. GetResponsePeers m)) = set (GetResponsePeers m)"
    unfolding n by (auto simp: lessThan_Suc)
  with m show ?thesis by (intro exI [of _ m]) simp
qed

text \<open>The pool's invariant. From the pool that \<open>NewPool\<close> made, whatever its nodes handle
  and send, the collector, the consumer of the events and \<open>Stop\<close> do, in any order, every node keeps
  its invariant under the one shared event channel, whose capacity stays a thousand per node, and
  its generated identifier.\<close>

lemma pool_invariant:
  assumes "NewPool secret draw cnt startPort boots = Inr p" and "\<forall>i. length (secret i) = 16"
    and "list_all (pool_op_ok (nat cnt)) ops" and "pool_run ops p = Inr p'"
  shows "length (p_nodes p') = nat cnt \<and> (\<forall>i < nat cnt. wf_node (node_at p' i))
    \<and> map ID (p_nodes p') = map ID (p_nodes p)
    \<and> length (ch_buf (p_eventChan p')) \<le> 1000 * nat cnt"
proof -
  note new = wf_NewPool [OF assms(1,2)]
  have r: "wf_pool p' \<and> map ID (p_nodes p') = map ID (p_nodes p)"
    using wf_pool_run [OF assms(4) new(1)] assms(3) new(2) by simp
  moreover have "length (p_nodes p') = nat cnt" using r new(2) by (metis length_map)
  ultimately show ?thesis by (auto simp: wf_pool_def chan_ok_def)
qed

lemma pool_invariant_witness:
  "\<exists>p'. pool_run [CollectStats, OnNode 0 (Rotate (replicate 16 9)), StopPool, NextEvent] sample_pool = Inr p'
     \<and> wf_node (node_at p' 0)"
proof -
  let ?ops = "[CollectStats, OnNode 0 (Rotate (replicate 16 9)), StopPool, NextEvent]"
  obtain p' where r: "pool_run ?ops sample_pool = Inr p'"
    by (simp add: Stop_pool_def close_chan_def collect_stats_def set_node_def node_at_def sample_pool_def
        rotateSecrets_def NewNode_def make_chan_def Let_def)
  with pool_invariant [OF NewPool_sample _ _ r] show ?thesis by simp
qed

end
