(* ===== verification/Worker.thy ===== *)
theory Worker
  imports Metadata Pool Download_Queue Machine
begin

text \<open>
  \<open>internal/crawler/worker.go\<close>: the pool of download workers. A feeder moves items of the download
  queue into the job channel, workers take jobs from it, and each job tries peers until one
  delivers the metadata, stores it and drops the pending hash. The queue and the database are
  shared with the rest of the crawler: the operations take the database and return it.
\<close>

section \<open>State\<close>

record download_job =
  j_infoHash :: bytes
  j_peerAddr :: bytes

record worker_pool =
  wp_numWorkers :: int
  wp_perWorker :: int
  wp_queue :: download_queue
  wp_downloader :: downloader
  wp_jobs :: "download_job chan"
  wp_successCount :: uint64
  wp_failCount :: uint64
  wp_downloading :: "32 word"

text \<open>A job is two strings, 32 bytes.\<close>

definition NewWorkerPool :: "int \<Rightarrow> int \<Rightarrow> download_queue \<Rightarrow> worker_pool res" where
  "NewWorkerPool numWorkers perWorker queue =
     (let cap = wrap64 (numWorkers * perWorker) in
      if \<not> make_chan_ok 32 cap then Inl (Panic MakeChanSize)
      else Inr \<lparr>wp_numWorkers = numWorkers, wp_perWorker = perWorker, wp_queue = queue,
             wp_downloader = NewMetadataDownloader, wp_jobs = make_chan (nat cap),
             wp_successCount = 0, wp_failCount = 0, wp_downloading = 0\<rparr>)"

definition Submit :: "int \<Rightarrow> bytes \<Rightarrow> bytes \<Rightarrow> worker_pool \<Rightarrow> bool \<times> worker_pool" where
  "Submit now infoHash peerAddr p =
     (let (ok, q) = Add now infoHash peerAddr (wp_queue p) in (ok, p\<lparr>wp_queue := q\<rparr>))"

definition Stats_workers :: "worker_pool \<Rightarrow> uint64 \<times> uint64 \<times> int \<times> nat" where
  "Stats_workers p = (wp_successCount p, wp_failCount p, sint (wp_downloading p), Size_queue (wp_queue p))"

definition complete :: "bytes \<Rightarrow> worker_pool \<Rightarrow> worker_pool" where
  "complete h p = p\<lparr>wp_queue := Complete h (wp_queue p)\<rparr>"

section \<open>The feeder\<close>

text \<open>
  One iteration of \<open>feedQueue\<close> up to the send: the job it is about to send, if any. \<open>err\<close> is the
  outcome of the database query.
\<close>

definition feed :: "go_error option \<Rightarrow> storage \<Rightarrow> worker_pool \<Rightarrow> download_job option \<times> worker_pool" where
  "feed err s p =
     (case Get (wp_queue p) of
        (None, q) \<Rightarrow> (None, p\<lparr>wp_queue := q\<rparr>)
      | (Some item, q) \<Rightarrow>
          let infoHash = di_infoHash item; peerAddr = di_peerAddr item; p = p\<lparr>wp_queue := q\<rparr> in
          if peerAddr = [] then (None, complete infoHash p)
          else
            (case TorrentExists err infoHash s of
               Inl e \<Rightarrow> (None, complete infoHash p)
             | Inr exists \<Rightarrow>
                 if exists then (None, complete infoHash p)
                 else (Some \<lparr>j_infoHash = infoHash, j_peerAddr = peerAddr\<rparr>, p)))"

section \<open>A job\<close>

text \<open>
  What a job meets: \<open>je_found\<close> is what the search of the DHT pool returns, \<open>je_dial i addr\<close> the
  connection attempt \<open>i\<close> gets, \<open>je_cancelled i\<close> whether the context is done before it, \<open>je_busy i\<close>
  the number of downloads counted when it fails, then the outcomes of the two statements.
\<close>

record job_env =
  je_found :: "compact_peer list"
  je_dial :: "nat \<Rightarrow> bytes \<Rightarrow> conn res"
  je_cancelled :: "nat \<Rightarrow> bool"
  je_busy :: "nat \<Rightarrow> 32 word"
  je_insert_err :: "go_error option"
  je_delete_err :: "go_error option"
  je_now :: int

datatype attempt = Cancelled | NoMeta "go_error option" | Fetched torrent_meta

text \<open>\<open>job.infoHash[:8]\<close>, evaluated wherever a line is logged.\<close>

definition log8 :: "bytes \<Rightarrow> bytes res" where
  "log8 h = (if length h < 8 then Inl (Panic SliceBounds) else Inr (take 8 h))"

fun try_peers ::
  "(bytes \<Rightarrow> info_hash) \<Rightarrow> downloader \<Rightarrow> bytes \<Rightarrow> info_hash \<Rightarrow> job_env \<Rightarrow> nat \<Rightarrow> go_error option
    \<Rightarrow> bytes list \<Rightarrow> attempt res" where
  "try_peers sha1 d hex infoHash env i lastErr [] = Inr (NoMeta lastErr)"
| "try_peers sha1 d hex infoHash env i lastErr (peerAddr # peers) =
     (if je_cancelled env i then Inr Cancelled
      else
        (case Download sha1 d infoHash (je_dial env i peerAddr) of
           Inr meta \<Rightarrow> (case log8 hex of Inl f \<Rightarrow> Inl f | Inr _ \<Rightarrow> Inr (Fetched meta))
         | Inl (Panic x) \<Rightarrow> Inl (Panic x)
         | Inl (Err e) \<Rightarrow>
             if i < 2 \<and> sint (je_busy env i) < 10 then
               (case log8 hex of
                  Inl f \<Rightarrow> Inl f
                | Inr _ \<Rightarrow> try_peers sha1 d hex infoHash env (i + 1) (Some e) peers)
             else try_peers sha1 d hex infoHash env (i + 1) (Some e) peers))"

definition record_of_meta :: "bytes \<Rightarrow> int \<Rightarrow> torrent_meta \<Rightarrow> torrent_record" where
  "record_of_meta hex now meta =
     \<lparr>InfoHash = hex, Name = tm_Name meta, TorrentSize = sint (tm_Size meta),
      Files = map (\<lambda>f. \<lparr>Path = fi_Path f, FileSize = sint (fi_Size f)\<rparr>) (tm_Files meta),
      FileCount = int (length (tm_Files meta)), CreatedAt = now, ReqCount = 1\<rparr>"

definition start_job :: "worker_pool \<Rightarrow> worker_pool" where
  "start_job p = p\<lparr>wp_downloading := wp_downloading p + 1\<rparr>"

text \<open>The deferred calls of \<open>processJob\<close>.\<close>

definition deferred :: "bytes \<Rightarrow> worker_pool \<Rightarrow> worker_pool" where
  "deferred hex p = complete hex (p\<lparr>wp_downloading := wp_downloading p - 1\<rparr>)"

definition fail :: "worker_pool \<Rightarrow> worker_pool" where
  "fail p = p\<lparr>wp_failCount := wp_failCount p + 1\<rparr>"

definition job_peers :: "(bytes \<Rightarrow> bytes) \<Rightarrow> job_env \<Rightarrow> download_job \<Rightarrow> bytes list" where
  "job_peers v6 env job =
     (let peers = (if j_peerAddr job \<noteq> [] then [j_peerAddr job] else []) in
      if length peers = 0 then map (\<lambda>peer. addr_string v6 (cp_IP peer) (cp_Port peer)) (je_found env)
      else peers)"

definition save :: "job_env \<Rightarrow> bytes \<Rightarrow> torrent_meta \<Rightarrow> worker_pool \<Rightarrow> storage \<Rightarrow> worker_pool \<times> storage" where
  "save env hex meta p s =
     (case InsertTorrent (je_insert_err env) (record_of_meta hex (je_now env) meta) s of
        (Some e, s) \<Rightarrow> (fail p, s)
      | (None, s) \<Rightarrow>
          let (_, s) = DeleteHash (je_delete_err env) hex s in
          (p\<lparr>wp_successCount := wp_successCount p + 1\<rparr>, s))"

definition finish_job ::
  "(bytes \<Rightarrow> info_hash) \<Rightarrow> (bytes \<Rightarrow> bytes) \<Rightarrow> job_env \<Rightarrow> download_job \<Rightarrow> worker_pool \<Rightarrow> storage
    \<Rightarrow> (worker_pool \<times> storage) res" where
  "finish_job sha1 v6 env job p s =
     (case hex_decode (j_infoHash job) of
        Inl e \<Rightarrow> Inr (deferred (j_infoHash job) (fail p), s)
      | Inr hashBytes \<Rightarrow>
          let infoHash = arr20_of hashBytes; peers = job_peers v6 env job in
          if length peers = 0 then Inr (deferred (j_infoHash job) (fail p), s)
          else
            (case try_peers sha1 (wp_downloader p) (j_infoHash job) infoHash env 0 None peers of
               Inl f \<Rightarrow> Inl f
             | Inr Cancelled \<Rightarrow> Inr (deferred (j_infoHash job) p, s)
             | Inr (NoMeta lastErr) \<Rightarrow>
                 if lastErr \<noteq> None \<and> wp_failCount p mod 100 = 0 then
                   (case log8 (j_infoHash job) of
                      Inl f \<Rightarrow> Inl f | Inr _ \<Rightarrow> Inr (deferred (j_infoHash job) (fail p), s))
                 else Inr (deferred (j_infoHash job) (fail p), s)
             | Inr (Fetched meta) \<Rightarrow>
                 let (p, s) = save env (j_infoHash job) meta p s in
                 Inr (deferred (j_infoHash job) p, s)))"

definition processJob ::
  "(bytes \<Rightarrow> info_hash) \<Rightarrow> (bytes \<Rightarrow> bytes) \<Rightarrow> job_env \<Rightarrow> download_job \<Rightarrow> worker_pool \<Rightarrow> storage
    \<Rightarrow> (worker_pool \<times> storage) res" where
  "processJob sha1 v6 env job p s = finish_job sha1 v6 env job (start_job p) s"

section \<open>The pipeline\<close>

text \<open>
  The goroutines around the pool as a system: the job the feeder holds at its blocking send, the
  jobs workers hold at their semaphores, those whose goroutine has started but not counted itself,
  and those being processed, each with its worker. \<open>PSubmit\<close> is any caller of \<open>Submit\<close>; \<open>PSend\<close> is a send
  into the buffer of the job channel and \<open>PHand\<close> one that a waiting worker receives directly.
  After the end of the context (\<open>PCancel\<close>) the feeder and the workers may return with what they
  hold, and \<open>Start\<close> closes the job channel, once (\<open>PClose\<close>).
\<close>

record pipeline =
  pl_pool :: worker_pool
  pl_storage :: storage
  pl_feeding :: "download_job option"
  pl_held :: "(nat \<times> download_job) list"
  pl_spawned :: "(nat \<times> download_job) list"
  pl_active :: "(nat \<times> download_job) list"
  pl_exited :: "nat list"
  pl_feeder_gone :: bool
  pl_done :: bool

datatype pipe_op =
    PSubmit int bytes bytes
  | PFeed "go_error option"
  | PSend
  | PHand nat
  | PTake nat
  | PAcquire nat
  | PStart nat
  | PFinish nat job_env
  | PCancel
  | PClose
  | PReturn nat
  | PFeederStops

definition remove_nth :: "nat \<Rightarrow> 'a list \<Rightarrow> 'a list" where
  "remove_nth i xs = take i xs @ drop (Suc i) xs"

text \<open>A worker of \<open>Start\<close> that waits for a job; the downloads in a worker's semaphore.\<close>

definition may_take :: "nat \<Rightarrow> pipeline \<Rightarrow> bool" where
  "may_take w pl \<longleftrightarrow> int w < wp_numWorkers (pl_pool pl) \<and> w \<notin> set (map fst (pl_held pl))
     \<and> w \<notin> set (pl_exited pl)"

definition downloads_of :: "nat \<Rightarrow> pipeline \<Rightarrow> nat" where
  "downloads_of w pl = length (filter (\<lambda>x. fst x = w) (pl_spawned pl @ pl_active pl))"

fun pipe_exec :: "(bytes \<Rightarrow> info_hash) \<Rightarrow> (bytes \<Rightarrow> bytes) \<Rightarrow> pipe_op \<Rightarrow> pipeline \<Rightarrow> pipeline res" where
  "pipe_exec sha1 v6 (PSubmit now h peer) pl = Inr (pl\<lparr>pl_pool := snd (Submit now h peer (pl_pool pl))\<rparr>)"
| "pipe_exec sha1 v6 (PFeed err) pl =
     (if pl_feeding pl \<noteq> None \<or> pl_feeder_gone pl then Inr pl
      else let (j, p) = feed err (pl_storage pl) (pl_pool pl) in Inr (pl\<lparr>pl_pool := p, pl_feeding := j\<rparr>))"
| "pipe_exec sha1 v6 PSend pl =
     (case pl_feeding pl of
        None \<Rightarrow> Inr pl
      | Some j \<Rightarrow>
          (case try_send j (wp_jobs (pl_pool pl)) of
             Inl f \<Rightarrow> Inl f
           | Inr (ok, c) \<Rightarrow>
               Inr (pl\<lparr>pl_pool := (pl_pool pl)\<lparr>wp_jobs := c\<rparr>, pl_feeding := (if ok then None else Some j)\<rparr>)))"
| "pipe_exec sha1 v6 (PHand w) pl =
     (case pl_feeding pl of
        None \<Rightarrow> Inr pl
      | Some j \<Rightarrow>
          if ch_closed (wp_jobs (pl_pool pl)) then Inl (Panic SendOnClosed)
          else if may_take w pl \<and> ch_buf (wp_jobs (pl_pool pl)) = []
          then Inr (pl\<lparr>pl_feeding := None, pl_held := pl_held pl @ [(w, j)]\<rparr>)
          else Inr pl)"
| "pipe_exec sha1 v6 (PTake w) pl =
     (if may_take w pl then
        (case recv (wp_jobs (pl_pool pl)) of
           (None, c) \<Rightarrow> Inr pl
         | (Some j, c) \<Rightarrow> Inr (pl\<lparr>pl_pool := (pl_pool pl)\<lparr>wp_jobs := c\<rparr>, pl_held := pl_held pl @ [(w, j)]\<rparr>))
      else Inr pl)"
| "pipe_exec sha1 v6 (PAcquire i) pl =
     (if i < length (pl_held pl) \<and> int (downloads_of (fst (pl_held pl ! i)) pl) < wp_perWorker (pl_pool pl)
      then Inr (pl\<lparr>pl_held := remove_nth i (pl_held pl), pl_spawned := pl_spawned pl @ [pl_held pl ! i]\<rparr>)
      else Inr pl)"
| "pipe_exec sha1 v6 (PStart i) pl =
     (if i < length (pl_spawned pl)
      then Inr (pl\<lparr>pl_pool := start_job (pl_pool pl), pl_spawned := remove_nth i (pl_spawned pl),
                  pl_active := pl_active pl @ [pl_spawned pl ! i]\<rparr>)
      else Inr pl)"
| "pipe_exec sha1 v6 (PFinish i env) pl =
     (if i < length (pl_active pl) then
        (case finish_job sha1 v6 env (snd (pl_active pl ! i)) (pl_pool pl) (pl_storage pl) of
           Inl f \<Rightarrow> Inl f
         | Inr (p, s) \<Rightarrow> Inr (pl\<lparr>pl_pool := p, pl_storage := s, pl_active := remove_nth i (pl_active pl)\<rparr>))
      else Inr pl)"
| "pipe_exec sha1 v6 PCancel pl = Inr (pl\<lparr>pl_done := True\<rparr>)"
| "pipe_exec sha1 v6 PClose pl =
     (if pl_done pl \<and> \<not> ch_closed (wp_jobs (pl_pool pl)) then
        (case close_chan (wp_jobs (pl_pool pl)) of
           Inl f \<Rightarrow> Inl f
         | Inr c \<Rightarrow> Inr (pl\<lparr>pl_pool := (pl_pool pl)\<lparr>wp_jobs := c\<rparr>\<rparr>))
      else Inr pl)"
| "pipe_exec sha1 v6 (PReturn i) pl =
     (if pl_done pl \<and> i < length (pl_held pl)
      then Inr (pl\<lparr>pl_held := remove_nth i (pl_held pl), pl_exited := fst (pl_held pl ! i) # pl_exited pl\<rparr>)
      else Inr pl)"
| "pipe_exec sha1 v6 PFeederStops pl =
     (if pl_done pl then Inr (pl\<lparr>pl_feeding := None, pl_feeder_gone := True\<rparr>) else Inr pl)"

abbreviation pipe_run :: "(bytes \<Rightarrow> info_hash) \<Rightarrow> (bytes \<Rightarrow> bytes) \<Rightarrow> pipe_op list \<Rightarrow> pipeline \<Rightarrow> pipeline res" where
  "pipe_run sha1 v6 \<equiv> run_ops (pipe_exec sha1 v6)"

definition new_pipeline :: "worker_pool \<Rightarrow> storage \<Rightarrow> pipeline" where
  "new_pipeline p s = \<lparr>pl_pool = p, pl_storage = s, pl_feeding = None, pl_held = [], pl_spawned = [],
     pl_active = [], pl_exited = [], pl_feeder_gone = False, pl_done = False\<rparr>"

text \<open>
  Every hash in flight is at one place: queued, held by the feeder, sent, held by a worker, or in a
  download.
\<close>

definition job_hashes :: "(nat \<times> download_job) list \<Rightarrow> bytes list" where
  "job_hashes xs = map (\<lambda>x. j_infoHash (snd x)) xs"

definition tokens :: "pipeline \<Rightarrow> bytes list" where
  "tokens pl =
     map di_infoHash (q_items (wp_queue (pl_pool pl)))
     @ (case pl_feeding pl of None \<Rightarrow> [] | Some j \<Rightarrow> [j_infoHash j])
     @ map j_infoHash (ch_buf (wp_jobs (pl_pool pl)))
     @ job_hashes (pl_held pl) @ job_hashes (pl_spawned pl) @ job_hashes (pl_active pl)"

definition pipe_ok :: "pipeline \<Rightarrow> bool" where
  "pipe_ok pl \<longleftrightarrow> distinct (tokens pl) \<and> set (tokens pl) \<subseteq> inFlight (wp_queue (pl_pool pl))
     \<and> (\<not> pl_done pl \<longrightarrow> set (tokens pl) = inFlight (wp_queue (pl_pool pl)))
     \<and> chan_ok (wp_jobs (pl_pool pl))"

text \<open>The semaphores hold, and the counter of running downloads counts them.\<close>

definition workers_ok :: "pipeline \<Rightarrow> bool" where
  "workers_ok pl \<longleftrightarrow>
     (\<forall>x \<in> set (pl_held pl @ pl_spawned pl @ pl_active pl). int (fst x) < wp_numWorkers (pl_pool pl))
     \<and> distinct (map fst (pl_held pl))
     \<and> (\<forall>w. 0 < downloads_of w pl \<longrightarrow> int (downloads_of w pl) \<le> wp_perWorker (pl_pool pl))
     \<and> wp_downloading (pl_pool pl) = of_nat (length (pl_active pl))"

section \<open>The outcome of a job\<close>

lemma try_peers_Fetched:
  "try_peers sha1 d hex h env i e peers = Inr (Fetched meta) \<Longrightarrow>
    8 \<le> length hex \<and> (\<exists>k addr. addr \<in> set peers \<and> Download sha1 d h (je_dial env k addr) = Inr meta)"
proof (induction peers arbitrary: i e)
  case (Cons addr peers)
  consider "Download sha1 d h (je_dial env i addr) = Inr meta" "8 \<le> length hex"
    | e' where "try_peers sha1 d hex h env (i + 1) (Some e') peers = Inr (Fetched meta)"
    using Cons.prems by (auto simp: log8_def split: if_splits sum.splits fault.splits)
  then show ?case
  proof cases
    case 2
    then show ?thesis using Cons.IH [OF 2] by auto
  qed auto
qed simp

lemma deferred_fields [simp]:
  "wp_successCount (deferred h p) = wp_successCount p" "wp_failCount (deferred h p) = wp_failCount p"
  "wp_downloading (deferred h p) = wp_downloading p - 1" "wp_jobs (deferred h p) = wp_jobs p"
  "wp_queue (deferred h p) = Complete h (wp_queue p)" "wp_downloader (deferred h p) = wp_downloader p"
  by (simp_all add: deferred_def complete_def)

lemma fail_fields [simp]:
  "wp_successCount (fail p) = wp_successCount p" "wp_failCount (fail p) = wp_failCount p + 1"
  "wp_downloading (fail p) = wp_downloading p" "wp_jobs (fail p) = wp_jobs p" "wp_queue (fail p) = wp_queue p"
  by (simp_all add: fail_def)

lemma finish_job_cases:
  assumes "finish_job sha1 v6 env job p s = Inr (p', s')"
  obtains (failed) "p' = deferred (j_infoHash job) (fail p)" "s' = s"
  | (stopped) "p' = deferred (j_infoHash job) p" "s' = s"
  | (fetched) b meta addr k q where "hex_decode (j_infoHash job) = Inr b" "addr \<in> set (job_peers v6 env job)"
      "Download sha1 (wp_downloader p) (arr20_of b) (je_dial env k addr) = Inr meta"
      "(q, s') = save env (j_infoHash job) meta p s" "p' = deferred (j_infoHash job) q"
  using assms
  by (auto simp: finish_job_def Let_def dest!: try_peers_Fetched
      split: sum.splits if_splits attempt.splits prod.splits)

lemma save_cases:
  assumes "save env hex meta p s = (q, s')"
  obtains (failed) "q = fail p" "s' = s" "je_insert_err env \<noteq> None"
  | (stored) "q = p\<lparr>wp_successCount := wp_successCount p + 1\<rparr>"
      "GetTorrent None hex s' \<noteq> Inr None" "TorrentExists None hex s' = Inr True"
      "je_delete_err env = None \<longrightarrow> hex \<notin> h_InfoHash ` set (hashes s')"
      "s' = snd (DeleteHash (je_delete_err env) hex (snd (InsertTorrent None (record_of_meta hex (je_now env) meta) s)))"
proof (cases "je_insert_err env")
  case (Some e)
  then have "q = fail p \<and> s' = s" using assms by (simp add: save_def InsertTorrent_def Let_def)
  then show thesis using failed Some by blast
next
  case None
  let ?s1 = "snd (InsertTorrent None (record_of_meta hex (je_now env) meta) s)"
  have i: "InsertTorrent None (record_of_meta hex (je_now env) meta) s = (None, ?s1)"
    by (simp add: InsertTorrent_def Let_def)
  have q: "q = p\<lparr>wp_successCount := wp_successCount p + 1\<rparr>" and s': "s' = snd (DeleteHash (je_delete_err env) hex ?s1)"
    using assms None i by (auto simp: save_def Let_def split: prod.splits)
  have t: "torrents s' = torrents ?s1" by (simp add: s' DeleteHash_def split: option.split)
  have "t_info_hash ` set (torrents ?s1) = insert hex (t_info_hash ` set (torrents s))"
    by (auto simp: InsertTorrent_def record_of_meta_def Let_def)
  then have "hex \<in> t_info_hash ` set (torrents s')" by (simp add: t)
  then have "find (\<lambda>r. t_info_hash r = hex) (torrents s') \<noteq> None"
    by (auto simp: find_None_iff)
  then have "GetTorrent None hex s' \<noteq> Inr None" "TorrentExists None hex s' = Inr True"
    by (simp_all add: GetTorrent_def TorrentExists_def)
  moreover have "je_delete_err env = None \<longrightarrow> hex \<notin> h_InfoHash ` set (hashes s')"
    by (auto simp: s' DeleteHash_def)
  ultimately show thesis by (rule stored [OF q _ _ _ s'])
qed

text \<open>A job whose first peer delivers.\<close>

lemma finish_job_success:
  assumes "hex_decode (j_infoHash job) = Inr b" and "8 \<le> length (j_infoHash job)" and "j_peerAddr job \<noteq> []"
    and "\<not> je_cancelled env 0" and "je_insert_err env = None"
    and "Download sha1 (wp_downloader p) (arr20_of b) (je_dial env 0 (j_peerAddr job)) = Inr meta"
  shows "\<exists>p' s' row. finish_job sha1 v6 env job p s = Inr (p', s')
    \<and> wp_queue p' = Complete (j_infoHash job) (wp_queue p)
    \<and> TorrentExists None (j_infoHash job) s' = Inr True
    \<and> row \<in> set (torrents s') \<and> t_info_hash row = j_infoHash job \<and> t_name row = tm_Name meta
    \<and> t_size row = sint (tm_Size meta)"
proof -
  obtain q s' where q: "save env (j_infoHash job) meta p s = (q, s')" by force
  have t: "try_peers sha1 (wp_downloader p) (j_infoHash job) (arr20_of b) env 0 None [j_peerAddr job] = Inr (Fetched meta)"
    using assms(2,4,6) by (simp add: log8_def)
  have f: "finish_job sha1 v6 env job p s = Inr (deferred (j_infoHash job) q, s')"
    using assms(1,3) t q by (simp add: finish_job_def job_peers_def Let_def)
  from q show ?thesis
  proof (cases rule: save_cases)
    case stored
    let ?row = "last (torrents (snd (InsertTorrent None (record_of_meta (j_infoHash job) (je_now env) meta) s)))"
    have "?row \<in> set (torrents s') \<and> t_info_hash ?row = j_infoHash job \<and> t_name ?row = tm_Name meta
        \<and> t_size ?row = sint (tm_Size meta)"
      by (simp add: stored(5) DeleteHash_def InsertTorrent_def record_of_meta_def Let_def split: option.split)
    moreover have "wp_queue q = wp_queue p" by (simp add: stored(1))
    ultimately show ?thesis using f stored(3)
      by (intro exI [of _ "deferred (j_infoHash job) q"] exI [of _ s'] exI [of _ ?row]) simp
  next
    case failed
    then show ?thesis using assms(5) by simp
  qed
qed

section \<open>The invariant of the pipeline\<close>

lemma mset_remove_nth: "i < length xs \<Longrightarrow> mset xs = add_mset (xs ! i) (mset (remove_nth i xs))"
  by (subst (1) id_take_nth_drop [of i xs]) (simp_all add: remove_nth_def)

lemma set_remove_nth: "set (remove_nth i xs) \<subseteq> set xs"
  by (auto simp: remove_nth_def dest: in_set_takeD in_set_dropD)

lemma mset_job_hashes: "mset (job_hashes xs) = image_mset (\<lambda>x. j_infoHash (snd x)) (mset xs)"
  by (simp add: job_hashes_def)

lemma job_hashes_append [simp]: "job_hashes (xs @ ys) = job_hashes xs @ job_hashes ys"
  by (simp add: job_hashes_def)

lemma job_hashes_remove:
  "i < length xs \<Longrightarrow> mset (job_hashes xs) = add_mset (j_infoHash (snd (xs ! i))) (mset (job_hashes (remove_nth i xs)))"
  by (simp add: mset_job_hashes mset_remove_nth)

lemma finish_job_queue:
  assumes "finish_job sha1 v6 env job p s = Inr (p', s')"
  shows "wp_queue p' = Complete (j_infoHash job) (wp_queue p) \<and> wp_jobs p' = wp_jobs p
    \<and> wp_downloading p' = wp_downloading p - 1 \<and> wp_numWorkers p' = wp_numWorkers p
    \<and> wp_perWorker p' = wp_perWorker p \<and> wp_downloader p' = wp_downloader p"
  using assms
proof (cases rule: finish_job_cases)
  case (fetched b meta addr k q)
  from fetched(4) [symmetric] have "wp_queue q = wp_queue p \<and> wp_jobs q = wp_jobs p
      \<and> wp_downloading q = wp_downloading p \<and> wp_numWorkers q = wp_numWorkers p
      \<and> wp_perWorker q = wp_perWorker p \<and> wp_downloader q = wp_downloader p"
    by (cases rule: save_cases) (simp_all add: fail_def)
  with fetched(5) show ?thesis by (simp add: deferred_def complete_def)
qed (simp_all add: deferred_def complete_def fail_def)

lemma feed_cases:
  assumes "feed err s p = (j, p')"
  obtains (empty) "j = None" "p' = p" "q_items (wp_queue p) = []"
  | (dropped) x xs where "j = None" "q_items (wp_queue p) = x # xs"
      "p' = complete (di_infoHash x) (p\<lparr>wp_queue := (wp_queue p)\<lparr>q_items := xs\<rparr>\<rparr>)"
  | (job) x xs where "j = Some \<lparr>j_infoHash = di_infoHash x, j_peerAddr = di_peerAddr x\<rparr>"
      "q_items (wp_queue p) = x # xs" "p' = p\<lparr>wp_queue := (wp_queue p)\<lparr>q_items := xs\<rparr>\<rparr>"
      "di_peerAddr x \<noteq> []" "TorrentExists err (di_infoHash x) s = Inr False"
  using assms
  by (cases "q_items (wp_queue p)")
    (auto simp: feed_def Get_def Let_def split: if_splits sum.splits)

text \<open>What a step does to the tokens: it moves one, adds one or removes one.\<close>

lemma pipe_ok_moved:
  assumes "pipe_ok pl" and "mset (tokens pl') = mset (tokens pl)"
    and "inFlight (wp_queue (pl_pool pl')) = inFlight (wp_queue (pl_pool pl))"
    and "pl_done pl \<longrightarrow> pl_done pl'" and "chan_ok (wp_jobs (pl_pool pl'))"
  shows "pipe_ok pl'"
  using assms mset_eq_setD [OF assms(2)] mset_eq_imp_distinct_iff [OF assms(2)]
  unfolding pipe_ok_def by auto

lemma pipe_ok_added:
  assumes "pipe_ok pl" and "mset (tokens pl') = add_mset h (mset (tokens pl))"
    and "h \<notin> inFlight (wp_queue (pl_pool pl))"
    and "inFlight (wp_queue (pl_pool pl')) = insert h (inFlight (wp_queue (pl_pool pl)))"
    and "pl_done pl' = pl_done pl" and "chan_ok (wp_jobs (pl_pool pl'))"
  shows "pipe_ok pl'"
proof -
  have m: "mset (tokens pl') = mset (h # tokens pl)" using assms(2) by simp
  from mset_eq_setD [OF m] mset_eq_imp_distinct_iff [OF m] assms(1,3-6) show ?thesis
    unfolding pipe_ok_def by (simp only: set_simps distinct.simps) blast
qed

lemma pipe_ok_removed:
  assumes "pipe_ok pl" and "mset (tokens pl) = add_mset h (mset (tokens pl'))"
    and "inFlight (wp_queue (pl_pool pl')) = inFlight (wp_queue (pl_pool pl)) - {h}
      \<or> pl_done pl' \<and> inFlight (wp_queue (pl_pool pl')) = inFlight (wp_queue (pl_pool pl))"
    and "pl_done pl' = pl_done pl" and "chan_ok (wp_jobs (pl_pool pl'))"
  shows "pipe_ok pl'"
proof -
  have m: "mset (tokens pl) = mset (h # tokens pl')" using assms(2) by simp
  from mset_eq_setD [OF m] mset_eq_imp_distinct_iff [OF m] assms(1,3-5) show ?thesis
    unfolding pipe_ok_def by (simp only: set_simps distinct.simps) blast
qed

lemma pipe_ok_step:
  assumes "pipe_ok pl" and "pipe_exec sha1 v6 op pl = Inr pl'"
  shows "pipe_ok pl'"
proof -
  have ch: "chan_ok (wp_jobs (pl_pool pl))" using assms(1) by (simp add: pipe_ok_def)
  note moved = pipe_ok_moved [OF assms(1), of pl'] and added = pipe_ok_added [OF assms(1), of pl']
    and removed = pipe_ok_removed [OF assms(1), of _ pl']
  show ?thesis
  proof (cases "pl' = pl")
    case False
    note changed = this
    show ?thesis
    proof (cases op)
      case (PSubmit now h peer)
      let ?q = "wp_queue (pl_pool pl)"
      have e: "pl' = pl\<lparr>pl_pool := (pl_pool pl)\<lparr>wp_queue := snd (Add now h peer ?q)\<rparr>\<rparr>"
        using assms(2) PSubmit by (auto simp: Submit_def split: prod.splits)
      show ?thesis
      proof (cases rule: Add_cases [of now h peer ?q])
        case (2 x)
        show ?thesis by (rule added [of h]) (simp_all add: e 2 ch tokens_def)
      qed (use e changed in simp)
    next
      case (PFeed err)
      then have n: "pl_feeding pl = None" "\<not> pl_feeder_gone pl" using assms(2) changed by (auto split: if_splits)
      obtain j p where f: "feed err (pl_storage pl) (pl_pool pl) = (j, p)" by force
      then have e: "pl' = pl\<lparr>pl_pool := p, pl_feeding := j\<rparr>" using assms(2) PFeed n by simp
      from f show ?thesis
      proof (cases rule: feed_cases)
        case empty
        then show ?thesis using e n changed by simp
      next
        case (dropped x xs)
        show ?thesis
          by (rule removed [of "di_infoHash x"]) (simp_all add: e dropped n ch tokens_def complete_def Complete_def)
      next
        case (job x xs)
        show ?thesis by (rule moved) (simp_all add: e job n ch tokens_def)
      qed
    next
      case PSend
      then obtain j ok c where j: "pl_feeding pl = Some j"
        and t: "try_send j (wp_jobs (pl_pool pl)) = Inr (ok, c)"
        and e: "pl' = pl\<lparr>pl_pool := (pl_pool pl)\<lparr>wp_jobs := c\<rparr>, pl_feeding := (if ok then None else Some j)\<rparr>"
        using assms(2) changed by (auto split: sum.splits option.splits)
      have b: "ch_buf c = ch_buf (wp_jobs (pl_pool pl)) @ (if ok then [j] else [])"
        using t by (simp add: try_send_Inr)
      show ?thesis using chan_ok_try_send [OF ch t] by (intro moved) (simp_all add: e b tokens_def j)
    next
      case (PHand w)
      then obtain j where "pl_feeding pl = Some j"
        and e: "pl' = pl\<lparr>pl_feeding := None, pl_held := pl_held pl @ [(w, j)]\<rparr>"
        using assms(2) changed by (auto split: option.splits if_splits)
      then show ?thesis using ch by (intro moved) (simp_all add: tokens_def job_hashes_def)
    next
      case (PTake w)
      then obtain j js where b: "ch_buf (wp_jobs (pl_pool pl)) = j # js"
        using assms(2) changed by (auto simp: recv_def split: if_splits list.splits)
      then have e: "pl' = pl\<lparr>pl_pool := (pl_pool pl)\<lparr>wp_jobs := (wp_jobs (pl_pool pl))\<lparr>ch_buf := js\<rparr>\<rparr>,
          pl_held := pl_held pl @ [(w, j)]\<rparr>"
        using assms(2) PTake changed by (auto simp: recv_def split: if_splits)
      show ?thesis using ch by (intro moved) (simp_all add: e tokens_def b chan_ok_def job_hashes_def)
    next
      case (PAcquire i)
      then have i: "i < length (pl_held pl)"
        and e: "pl' = pl\<lparr>pl_held := remove_nth i (pl_held pl), pl_spawned := pl_spawned pl @ [pl_held pl ! i]\<rparr>"
        using assms(2) changed by (auto split: if_splits)
      show ?thesis using ch job_hashes_remove [OF i] by (intro moved) (simp_all add: e tokens_def job_hashes_def)
    next
      case (PStart i)
      then have i: "i < length (pl_spawned pl)"
        and e: "pl' = pl\<lparr>pl_pool := start_job (pl_pool pl), pl_spawned := remove_nth i (pl_spawned pl),
            pl_active := pl_active pl @ [pl_spawned pl ! i]\<rparr>"
        using assms(2) changed by (auto split: if_splits)
      show ?thesis using ch job_hashes_remove [OF i]
        by (intro moved) (simp_all add: e tokens_def start_job_def job_hashes_def)
    next
      case (PFinish i env)
      then obtain p s where i: "i < length (pl_active pl)"
        and f: "finish_job sha1 v6 env (snd (pl_active pl ! i)) (pl_pool pl) (pl_storage pl) = Inr (p, s)"
        and e: "pl' = pl\<lparr>pl_pool := p, pl_storage := s, pl_active := remove_nth i (pl_active pl)\<rparr>"
        using assms(2) changed by (auto split: sum.splits if_splits)
      show ?thesis using job_hashes_remove [OF i] finish_job_queue [OF f] ch
        by (intro removed [of "j_infoHash (snd (pl_active pl ! i))"] disjI1)
          (simp_all add: e tokens_def Complete_def)
    next
      case PCancel
      then show ?thesis using assms(2) ch by (intro moved) (auto simp: tokens_def)
    next
      case PClose
      then have e: "pl' = pl\<lparr>pl_pool := (pl_pool pl)\<lparr>wp_jobs := (wp_jobs (pl_pool pl))\<lparr>ch_closed := True\<rparr>\<rparr>\<rparr>"
        using assms(2) changed by (auto simp: close_chan_def split: if_splits)
      show ?thesis using ch by (intro moved) (simp_all add: e tokens_def chan_ok_def)
    next
      case (PReturn i)
      then have i: "pl_done pl" "i < length (pl_held pl)"
        and e: "pl' = pl\<lparr>pl_held := remove_nth i (pl_held pl), pl_exited := fst (pl_held pl ! i) # pl_exited pl\<rparr>"
        using assms(2) changed by (auto split: if_splits)
      show ?thesis using ch i job_hashes_remove [OF i(2)]
        by (intro removed [of "j_infoHash (snd (pl_held pl ! i))"]) (simp_all add: e tokens_def)
    next
      case PFeederStops
      then have d: "pl_done pl" and e: "pl' = pl\<lparr>pl_feeding := None, pl_feeder_gone := True\<rparr>"
        using assms(2) changed by (auto split: if_splits)
      show ?thesis
      proof (cases "pl_feeding pl")
        case None
        then show ?thesis using ch by (intro moved) (simp_all add: e tokens_def)
      next
        case (Some j)
        then show ?thesis using ch d by (intro removed [of "j_infoHash j"]) (simp_all add: e tokens_def)
      qed
    qed
  qed (use assms in simp)
qed

interpretation pipe: machine "pipe_exec sha1 v6" pipe_ok "\<lambda>_. True" for sha1 v6
  by unfold_locales (rule pipe_ok_step)

section \<open>The workers\<close>

lemma downloads_of_mset:
  "downloads_of w pl = size (filter_mset (\<lambda>x. fst x = w) (mset (pl_spawned pl) + mset (pl_active pl)))"
  by (simp add: downloads_of_def flip: size_mset)

lemma downloads_of_remove_spawned:
  "i < length (pl_spawned pl) \<Longrightarrow>
    mset (pl_spawned pl) + A = mset (remove_nth i (pl_spawned pl)) + add_mset (pl_spawned pl ! i) A"
  by (simp add: mset_remove_nth)

lemma length_remove_nth [simp]: "i < length xs \<Longrightarrow> length (remove_nth i xs) = length xs - 1"
  by (simp add: remove_nth_def min_def)

lemma distinct_remove_nth: "i < length xs \<Longrightarrow> distinct (map f xs) \<Longrightarrow> distinct (map f (remove_nth i xs))"
  by (subst (asm) (2) id_take_nth_drop [of i xs]) (auto simp: remove_nth_def)

lemma feed_config:
  assumes "feed err s p = (j, p')"
  shows "wp_numWorkers p' = wp_numWorkers p \<and> wp_perWorker p' = wp_perWorker p
    \<and> wp_downloading p' = wp_downloading p \<and> wp_downloader p' = wp_downloader p"
  using assms by (cases rule: feed_cases) (simp_all add: complete_def)

lemma pipe_exec_config:
  assumes "pipe_exec sha1 v6 op pl = Inr pl'"
  shows "wp_numWorkers (pl_pool pl') = wp_numWorkers (pl_pool pl) \<and> wp_perWorker (pl_pool pl') = wp_perWorker (pl_pool pl)
    \<and> wp_downloader (pl_pool pl') = wp_downloader (pl_pool pl)"
proof (cases op)
  case (PFeed err)
  then show ?thesis using assms feed_config by (auto split: if_splits prod.splits)
next
  case (PFinish i env)
  show ?thesis
  proof (cases "i < length (pl_active pl)")
    case True
    then obtain p s where "finish_job sha1 v6 env (snd (pl_active pl ! i)) (pl_pool pl) (pl_storage pl) = Inr (p, s)"
      "pl_pool pl' = p" using assms PFinish by (auto split: sum.splits)
    then show ?thesis using finish_job_queue by blast
  qed (use assms PFinish in simp)
next
  case (PSubmit now h peer)
  then show ?thesis using assms by (auto simp: Submit_def split: prod.splits)
next
  case PSend
  then show ?thesis using assms by (auto split: option.splits sum.splits)
next
  case (PHand w)
  then show ?thesis using assms by (auto split: option.splits if_splits)
next
  case (PTake w)
  then show ?thesis using assms by (auto split: option.splits if_splits prod.splits)
next
  case (PAcquire i)
  have "pl' = pl \<or> pl' = pl\<lparr>pl_held := remove_nth i (pl_held pl), pl_spawned := pl_spawned pl @ [pl_held pl ! i]\<rparr>"
    using assms PAcquire by (simp split: if_splits)
  then show ?thesis by (elim disjE) simp_all
next
  case (PStart i)
  then show ?thesis using assms by (auto simp: start_job_def split: if_splits)
next
  case PCancel
  then show ?thesis using assms by auto
next
  case PClose
  then show ?thesis using assms by (auto split: if_splits sum.splits)
next
  case (PReturn i)
  then show ?thesis using assms by (auto split: if_splits)
next
  case PFeederStops
  then show ?thesis using assms by (auto split: if_splits)
qed

lemma workers_ok_same:
  assumes "workers_ok pl" and "pl_held pl' = pl_held pl" and "pl_spawned pl' = pl_spawned pl"
    and "pl_active pl' = pl_active pl" and "wp_numWorkers (pl_pool pl') = wp_numWorkers (pl_pool pl)"
    and "wp_perWorker (pl_pool pl') = wp_perWorker (pl_pool pl)"
    and "wp_downloading (pl_pool pl') = wp_downloading (pl_pool pl)"
  shows "workers_ok pl'"
  using assms by (simp add: workers_ok_def downloads_of_def)

lemma workers_ok_held:
  assumes "workers_ok pl" and "may_take w pl"
  shows "workers_ok (pl\<lparr>pl_pool := (pl_pool pl)\<lparr>wp_jobs := c\<rparr>, pl_feeding := j, pl_held := pl_held pl @ [(w, x)]\<rparr>)"
  using assms by (simp add: workers_ok_def downloads_of_def may_take_def)

lemma workers_ok_changed:
  assumes "workers_ok pl" and "distinct (map fst (pl_held pl'))"
    and "set (pl_held pl' @ pl_spawned pl' @ pl_active pl') \<subseteq> set (pl_held pl @ pl_spawned pl @ pl_active pl)"
    and "wp_numWorkers (pl_pool pl') = wp_numWorkers (pl_pool pl)"
    and "wp_perWorker (pl_pool pl') = wp_perWorker (pl_pool pl)"
    and "wp_downloading (pl_pool pl') = of_nat (length (pl_active pl'))"
    and "\<And>w. downloads_of w pl' \<le> downloads_of w pl \<or> int (downloads_of w pl') \<le> wp_perWorker (pl_pool pl)"
  shows "workers_ok pl'"
proof -
  have "int (fst x) < wp_numWorkers (pl_pool pl')" if "x \<in> set (pl_held pl' @ pl_spawned pl' @ pl_active pl')" for x
  proof -
    have "x \<in> set (pl_held pl @ pl_spawned pl @ pl_active pl)" using subsetD [OF assms(3) that] .
    moreover have "\<forall>x \<in> set (pl_held pl @ pl_spawned pl @ pl_active pl). int (fst x) < wp_numWorkers (pl_pool pl)"
      using assms(1) unfolding workers_ok_def by blast
    ultimately show ?thesis unfolding assms(4) by blast
  qed
  then have "\<forall>x \<in> set (pl_held pl' @ pl_spawned pl' @ pl_active pl'). int (fst x) < wp_numWorkers (pl_pool pl')"
    by blast
  moreover have "int (downloads_of w pl') \<le> wp_perWorker (pl_pool pl')" if "0 < downloads_of w pl'" for w
  proof (cases "downloads_of w pl' \<le> downloads_of w pl")
    case True
    with that have "int (downloads_of w pl) \<le> wp_perWorker (pl_pool pl)"
      using assms(1) by (simp add: workers_ok_def)
    with True assms(5) show ?thesis by linarith
  qed (use assms(5) assms(7) [of w] in simp)
  ultimately show ?thesis using assms(2,6) by (simp add: workers_ok_def)
qed

lemma workers_ok_step:
  assumes "workers_ok pl" and "pipe_exec sha1 v6 op pl = Inr pl'"
  shows "workers_ok pl'"
proof (cases "pl' = pl")
  case False
  note changed = this
  note same = workers_ok_same [OF assms(1), of pl'] and rest = workers_ok_changed [OF assms(1), of pl']
  have d: "distinct (map fst (pl_held pl))" "wp_downloading (pl_pool pl) = of_nat (length (pl_active pl))"
    using assms(1) by (simp_all add: workers_ok_def)
  show ?thesis
  proof (cases op)
    case (PSubmit now h peer)
    then show ?thesis using assms(2) by (intro same) (auto simp: Submit_def split: prod.splits)
  next
    case (PFeed err)
    then obtain j p where "feed err (pl_storage pl) (pl_pool pl) = (j, p)" "pl' = pl\<lparr>pl_pool := p, pl_feeding := j\<rparr>"
      using assms(2) changed by (auto split: prod.splits if_splits)
    then show ?thesis using feed_config by (intro same) auto
  next
    case PSend
    then show ?thesis using assms(2) by (intro same) (auto split: option.splits sum.splits)
  next
    case (PHand w)
    then obtain j where t: "may_take w pl" and e: "pl' = pl\<lparr>pl_feeding := None, pl_held := pl_held pl @ [(w, j)]\<rparr>"
      using assms(2) changed by (auto split: option.splits if_splits)
    show ?thesis using workers_ok_held [OF assms(1) t, where c = "wp_jobs (pl_pool pl)" and j = None and x = j] e by simp
  next
    case (PTake w)
    then obtain j c where t: "may_take w pl"
      and e: "pl' = pl\<lparr>pl_pool := (pl_pool pl)\<lparr>wp_jobs := c\<rparr>, pl_held := pl_held pl @ [(w, j)]\<rparr>"
      using assms(2) changed by (auto split: option.splits if_splits prod.splits)
    show ?thesis using workers_ok_held [OF assms(1) t, where c = c and j = "pl_feeding pl" and x = j] e by simp
  next
    case (PAcquire i)
    let ?x = "pl_held pl ! i"
    have i: "i < length (pl_held pl)" "int (downloads_of (fst ?x) pl) < wp_perWorker (pl_pool pl)"
      and e: "pl' = pl\<lparr>pl_held := remove_nth i (pl_held pl), pl_spawned := pl_spawned pl @ [?x]\<rparr>"
      using assms(2) PAcquire changed by (auto split: if_splits)
    have "downloads_of w pl' = downloads_of w pl + (if fst ?x = w then 1 else 0)" for w
      by (simp add: e downloads_of_mset)
    moreover have "?x \<in> set (pl_held pl)" using i by simp
    ultimately show ?thesis using i d set_remove_nth [of i "pl_held pl"]
      by (intro rest) (auto simp: e distinct_remove_nth)
  next
    case (PStart i)
    then have i: "i < length (pl_spawned pl)"
      and e: "pl' = pl\<lparr>pl_pool := start_job (pl_pool pl), pl_spawned := remove_nth i (pl_spawned pl),
          pl_active := pl_active pl @ [pl_spawned pl ! i]\<rparr>"
      using assms(2) changed by (auto split: if_splits)
    have "downloads_of w pl' = downloads_of w pl" for w
      using downloads_of_remove_spawned [OF i, of "mset (pl_active pl)"] by (simp add: e downloads_of_mset)
    moreover have "pl_spawned pl ! i \<in> set (pl_spawned pl)" using i by simp
    ultimately show ?thesis using d set_remove_nth [of i "pl_spawned pl"]
      by (intro rest) (auto simp: e start_job_def)
  next
    case (PFinish i env)
    then obtain p s where i: "i < length (pl_active pl)"
      and f: "finish_job sha1 v6 env (snd (pl_active pl ! i)) (pl_pool pl) (pl_storage pl) = Inr (p, s)"
      and e: "pl' = pl\<lparr>pl_pool := p, pl_storage := s, pl_active := remove_nth i (pl_active pl)\<rparr>"
      using assms(2) changed by (auto split: sum.splits if_splits)
    have n: "downloads_of w pl' \<le> downloads_of w pl" for w
      using mset_remove_nth [OF i] by (simp add: e downloads_of_mset)
    have "wp_downloading p = of_nat (length (remove_nth i (pl_active pl)))"
      using finish_job_queue [OF f] d i by (simp add: of_nat_diff)
    then show ?thesis using d n set_remove_nth [of i "pl_active pl"] finish_job_queue [OF f]
      by (intro rest) (auto simp: e)
  next
    case PCancel
    then show ?thesis using assms(2) by (intro same) auto
  next
    case PClose
    then show ?thesis using assms(2) by (intro same) (auto split: if_splits sum.splits)
  next
    case (PReturn i)
    then have i: "i < length (pl_held pl)"
      and e: "pl' = pl\<lparr>pl_held := remove_nth i (pl_held pl), pl_exited := fst (pl_held pl ! i) # pl_exited pl\<rparr>"
      using assms(2) changed by (auto split: if_splits)
    then show ?thesis using d set_remove_nth [of i "pl_held pl"]
      by (intro rest) (auto simp: downloads_of_def distinct_remove_nth)
  next
    case PFeederStops
    then show ?thesis using assms(2) by (intro same) (auto split: if_splits)
  qed
qed (use assms in simp)

interpretation workers: machine "pipe_exec sha1 v6" workers_ok "\<lambda>_. True" for sha1 v6
  by unfold_locales (rule workers_ok_step)

lemma length_by_class:
  "\<forall>x \<in> set xs. f x < (n::nat) \<Longrightarrow> length xs = (\<Sum>w<n. length (filter (\<lambda>x. f x = w) xs))"
proof (induction xs)
  case (Cons x xs)
  have "(\<Sum>w<n. length (filter (\<lambda>x. f x = w) (x # xs)))
      = (\<Sum>w<n. length (filter (\<lambda>x. f x = w) xs) + (if w = f x then 1 else 0))"
    by (intro sum.cong) auto
  also have "\<dots> = length xs + (\<Sum>w<n. if w = f x then 1 else 0)" using Cons by (simp add: sum.distrib)
  also have "(\<Sum>w<n. if w = f x then 1 else 0) = (1::nat)" using Cons.prems by (subst sum.delta) auto
  finally show ?case by simp
qed simp

lemma workers_ok_bound:
  assumes "workers_ok pl" and "0 \<le> wp_numWorkers (pl_pool pl)" and "0 \<le> wp_perWorker (pl_pool pl)"
  shows "int (length (pl_spawned pl @ pl_active pl)) \<le> wp_numWorkers (pl_pool pl) * wp_perWorker (pl_pool pl)"
proof -
  let ?n = "nat (wp_numWorkers (pl_pool pl))" and ?k = "nat (wp_perWorker (pl_pool pl))"
  have "fst x < ?n" if "x \<in> set (pl_spawned pl @ pl_active pl)" for x
  proof -
    have "int (fst x) < wp_numWorkers (pl_pool pl)" using assms(1) that by (simp add: workers_ok_def)
    then show ?thesis by linarith
  qed
  then have "\<forall>x \<in> set (pl_spawned pl @ pl_active pl). fst x < ?n" by blast
  from length_by_class [OF this]
  have "length (pl_spawned pl @ pl_active pl) = (\<Sum>w<?n. downloads_of w pl)" by (simp add: downloads_of_def)
  also have "\<dots> \<le> (\<Sum>w<?n. ?k)"
  proof (intro sum_mono)
    fix w
    show "downloads_of w pl \<le> ?k"
      using assms(1,3) by (cases "downloads_of w pl = 0") (auto simp: workers_ok_def le_nat_iff)
  qed
  finally have "length (pl_spawned pl @ pl_active pl) \<le> ?n * ?k" by simp
  then show ?thesis using assms(2,3) by (metis nat_mult_distrib of_nat_le_iff nat_0_le mult_nonneg_nonneg of_nat_mult)
qed

text \<open>\<open>Start\<close> closes the job channel while the feeder may be at its send.\<close>

lemma send_after_close_panics:
  assumes "pipe_exec sha1 v6 PClose pl = Inr pl'" and "pl_done pl" and "pl_feeding pl = Some j"
  shows "pipe_exec sha1 v6 PSend pl' = Inl (Panic SendOnClosed)"
  using assms by (auto simp: close_chan_def try_send_closed split: if_splits)

text \<open>A job always names a peer, so the search for peers inside \<open>processJob\<close> is never reached.\<close>

lemma feed_names_a_peer: "feed err s p = (Some j, p') \<Longrightarrow> j_peerAddr j \<noteq> []"
  by (cases rule: feed_cases) auto

section \<open>Properties\<close>

text \<open>C15: What a finished job leaves. It counts exactly one success, and then the database holds
  the torrent whose metadata hashed to the job's info hash, and the pending entry for it is removed if the
  statement that deletes it works and stays if it fails, which the code ignores; or it counts
  one failure, or was cancelled, and the database is as before. In every case the hash is no longer
  in flight, and the number of running downloads is what it was.\<close>

theorem process_job_outcome:
  assumes "processJob sha1 v6 env job p s = Inr (p', s')"
  shows "wp_queue p' = Complete (j_infoHash job) (wp_queue p) \<and> wp_downloading p' = wp_downloading p
    \<and> (wp_successCount p' = wp_successCount p + 1 \<and> wp_failCount p' = wp_failCount p
         \<and> TorrentExists None (j_infoHash job) s' = Inr True
         \<and> (je_delete_err env = None \<longrightarrow> j_infoHash job \<notin> h_InfoHash ` set (hashes s'))
         \<and> (je_delete_err env \<noteq> None \<longrightarrow> hashes s' = hashes s)
         \<and> (\<exists>b meta. hex_decode (j_infoHash job) = Inr b \<and> sha1 (tm_RawInfo meta) = arr20_of b
              \<and> parseMetadata (arr20_of b) (tm_RawInfo meta) = Inr meta
              \<and> torrents s' = torrents (snd (InsertTorrent None (record_of_meta (j_infoHash job) (je_now env) meta) s)))
       \<or> wp_successCount p' = wp_successCount p \<and> wp_failCount p' \<in> {wp_failCount p, wp_failCount p + 1} \<and> s' = s)"
proof -
  have f: "finish_job sha1 v6 env job (start_job p) s = Inr (p', s')" using assms by (simp add: processJob_def)
  have st: "wp_queue (start_job p) = wp_queue p" "wp_downloading (start_job p) = wp_downloading p + 1"
    "wp_successCount (start_job p) = wp_successCount p" "wp_failCount (start_job p) = wp_failCount p"
    by (simp_all add: start_job_def)
  from f show ?thesis
  proof (cases rule: finish_job_cases)
    case (fetched b meta addr k q)
    from Download_Inr [OF fetched(3)] have v: "sha1 (tm_RawInfo meta) = arr20_of b"
      "parseMetadata (arr20_of b) (tm_RawInfo meta) = Inr meta" by metis+
    from fetched(4) [symmetric] show ?thesis
    proof (cases rule: save_cases)
      case stored
      have "torrents s' = torrents (snd (InsertTorrent None (record_of_meta (j_infoHash job) (je_now env) meta) s))"
        by (simp add: stored(5) DeleteHash_def split: option.split)
      moreover have "hashes s' = hashes s" if "je_delete_err env \<noteq> None"
        using that by (auto simp: stored(5) DeleteHash_def InsertTorrent_def Let_def split: option.split)
      ultimately show ?thesis using stored v fetched(1,5) st by auto
    qed (use fetched(5) st in simp)
  qed (simp_all add: st)
qed

definition sample_env :: job_env where
  "sample_env = \<lparr>je_found = [], je_dial = (\<lambda>_ _. Inr (sample_peer 22)), je_cancelled = (\<lambda>_. False),
     je_busy = (\<lambda>_. 1), je_insert_err = None, je_delete_err = None, je_now = 0\<rparr>"

definition sample_job :: download_job where
  "sample_job = \<lparr>j_infoHash = Hex zeroID, j_peerAddr = bs ''10.0.0.1:6881''\<rparr>"

definition sample_workers :: worker_pool where
  "sample_workers = \<lparr>wp_numWorkers = 1, wp_perWorker = 1,
     wp_queue = \<lparr>q_items = [], q_maxSize = 2, inFlight = {Hex zeroID}\<rparr>,
     wp_downloader = NewMetadataDownloader, wp_jobs = make_chan 1, wp_successCount = 0,
     wp_failCount = 0, wp_downloading = 0\<rparr>"

lemma sample_processJob:
  "\<exists>p' s'. processJob (\<lambda>_. zeroID) (\<lambda>_. []) sample_env sample_job sample_workers (New False) = Inr (p', s')
     \<and> wp_successCount p' = 1"
proof -
  have h: "hex_decode (Hex zeroID) = Inr (arr_bytes zeroID)" "arr20_of (arr_bytes zeroID) = zeroID"
    using id_conversions_roundtrip [of zeroID] by (simp_all add: Hex_def hex_decode_encode arr_bytes_inject flip: arr_bytes_inject)
  have l: "log8 (Hex zeroID) = Inr (take 8 (Hex zeroID))"
    using id_conversions_roundtrip [of zeroID] by (simp add: log8_def)
  show ?thesis
    by (simp add: processJob_def finish_job_def sample_job_def h l job_peers_def bs_def sample_env_def
        start_job_def sample_workers_def sample_download sample_parse save_def InsertTorrent_def
        DeleteHash_def Let_def)
qed

theorem process_job_outcome_witness:
  "\<exists>p' s'. processJob (\<lambda>_. zeroID) (\<lambda>_. []) sample_env sample_job sample_workers (New False) = Inr (p', s')
     \<and> TorrentExists None (Hex zeroID) s' = Inr True \<and> inFlight (wp_queue p') = {}"
proof -
  obtain p' s' where r: "processJob (\<lambda>_. zeroID) (\<lambda>_. []) sample_env sample_job sample_workers (New False) = Inr (p', s')"
    "wp_successCount p' = 1" using sample_processJob by blast
  from process_job_outcome [OF r(1)] r show ?thesis
    by (auto simp: sample_workers_def sample_job_def Complete_def)
qed

lemma pipe_ok_new:
  assumes "NewDownloadQueue m = Inr q" and "NewWorkerPool workers per q = Inr p"
  shows "pipe_ok (new_pipeline p s)"
  using assms
  by (auto simp: pipe_ok_def tokens_def new_pipeline_def job_hashes_def NewDownloadQueue_def NewWorkerPool_def Let_def
      split: if_splits)

lemma run_config:
  "pipe_run sha1 v6 ops pl = Inr pl' \<Longrightarrow>
    wp_numWorkers (pl_pool pl') = wp_numWorkers (pl_pool pl) \<and> wp_perWorker (pl_pool pl') = wp_perWorker (pl_pool pl)"
proof (induction ops arbitrary: pl)
  case (Cons op ops)
  then obtain pl1 where "pipe_exec sha1 v6 op pl = Inr pl1" "pipe_run sha1 v6 ops pl1 = Inr pl'"
    by (auto split: sum.splits)
  with Cons.IH pipe_exec_config show ?case by metis
qed simp

lemma sint_of_nat_32: "n < 2 ^ 31 \<Longrightarrow> sint (of_nat n :: 32 word) = int n"
  by (simp add: sint_uint unsigned_of_nat take_bit_nat_eq_self signed_take_bit_int_eq_self)

definition sample_pipe_pool :: worker_pool where
  "sample_pipe_pool = \<lparr>wp_numWorkers = 1, wp_perWorker = 2,
     wp_queue = \<lparr>q_items = [], q_maxSize = 4, inFlight = {}\<rparr>,
     wp_downloader = NewMetadataDownloader, wp_jobs = make_chan 2, wp_successCount = 0,
     wp_failCount = 0, wp_downloading = 0\<rparr>"

definition sample_pipe_ops :: "pipe_op list" where
  "sample_pipe_ops = [PSubmit 0 [1] [7], PSubmit 0 [1] [8], PSubmit 0 [2] [7], PFeed None, PSend, PTake 0]"

lemma sample_pipe_pool:
  "NewDownloadQueue 4 = Inr (wp_queue sample_pipe_pool)"
  "NewWorkerPool 1 2 (wp_queue sample_pipe_pool) = Inr sample_pipe_pool"
  by (simp_all add: sample_pipe_pool_def NewDownloadQueue_def make_ok_def NewWorkerPool_def make_chan_ok_def wrap64_def
      maxAlloc_def)

lemma sample_pipe_run:
  "\<exists>pl. pipe_run (\<lambda>_. zeroID) (\<lambda>_. []) sample_pipe_ops (new_pipeline sample_pipe_pool (New False)) = Inr pl
     \<and> set (tokens pl) = {[1], [2]} \<and> \<not> pl_done pl \<and> pl_held pl \<noteq> []"
  by (simp add: sample_pipe_ops_def sample_pipe_pool_def new_pipeline_def Submit_def Add_def feed_def Get_def
      TorrentExists_def New_def try_send_def recv_def make_chan_def tokens_def job_hashes_def may_take_def
      insert_commute)

text \<open>C9: The pipeline loses no hash and works on none twice. However submissions, the feeder, the
  workers and the end of the context interleave, the hashes queued, held by the feeder, sent and
  being processed are pairwise different and in flight; and until the context ends they are all the
  hashes in flight, so none stays blocked without a job that will complete it. A submission is one step, its
  reservation and its place in the queue together (see \<open>Download_Queue\<close>).\<close>

theorem pipeline_invariant:
  assumes "NewDownloadQueue m = Inr q" and "NewWorkerPool workers per q = Inr p"
    and "pipe_run sha1 v6 ops (new_pipeline p s) = Inr pl"
  shows "distinct (tokens pl) \<and> set (tokens pl) \<subseteq> inFlight (wp_queue (pl_pool pl))
    \<and> (\<not> pl_done pl \<longrightarrow> set (tokens pl) = inFlight (wp_queue (pl_pool pl)))"
  using pipe.run_keeps [OF assms(3)] pipe_ok_new [OF assms(1,2)] by (simp add: pipe_ok_def list_all_iff)

theorem pipeline_invariant_witness:
  "\<exists>q p pl. NewDownloadQueue 4 = Inr q \<and> NewWorkerPool 1 2 q = Inr p
     \<and> pipe_run (\<lambda>_. zeroID) (\<lambda>_. []) [PSubmit 0 [1] [7], PSubmit 0 [1] [8], PSubmit 0 [2] [7], PFeed None, PSend, PTake 0]
         (new_pipeline p (New False)) = Inr pl
     \<and> inFlight (wp_queue (pl_pool pl)) = set (tokens pl) \<and> set (tokens pl) = {[1], [2]}"
proof -
  obtain pl where r: "pipe_run (\<lambda>_. zeroID) (\<lambda>_. []) sample_pipe_ops (new_pipeline sample_pipe_pool (New False)) = Inr pl"
    and pl: "set (tokens pl) = {[1], [2]}" "\<not> pl_done pl"
    using sample_pipe_run by blast
  from pipeline_invariant [OF sample_pipe_pool r] show ?thesis using sample_pipe_pool r pl
    by (auto simp: sample_pipe_ops_def)
qed

text \<open>Downloads stay within the configuration. However the goroutines interleave, no worker runs
  more downloads than its semaphore admits and all of them together at most the number of workers
  times the downloads per worker; the counter shown in the statistics is the number of jobs that are
  being processed.\<close>

lemma downloads_bounded:
  assumes "NewDownloadQueue m = Inr q" and "NewWorkerPool workers per q = Inr p"
    and "0 \<le> workers" and "0 \<le> per" and "pipe_run sha1 v6 ops (new_pipeline p s) = Inr pl"
  shows "int (downloads_of w pl) \<le> per
    \<and> int (length (pl_spawned pl @ pl_active pl)) \<le> workers * per
    \<and> wp_downloading (pl_pool pl) = of_nat (length (pl_active pl))
    \<and> (workers * per < 2 ^ 31 \<longrightarrow> (\<exists>a b d. Stats_workers (pl_pool pl) = (a, b, int (length (pl_active pl)), d)))"
proof -
  have new: "workers_ok (new_pipeline p s)" "wp_numWorkers p = workers" "wp_perWorker p = per"
    using assms(2) by (auto simp: NewWorkerPool_def new_pipeline_def workers_ok_def downloads_of_def Let_def split: if_splits)
  have ok: "workers_ok pl" using workers.run_keeps [OF assms(5) new(1)] by (simp add: list_all_iff)
  have cfg: "wp_numWorkers (pl_pool pl) = workers \<and> wp_perWorker (pl_pool pl) = per"
    using run_config [OF assms(5)] new(2,3) by (simp add: new_pipeline_def)
  have bound: "int (length (pl_spawned pl @ pl_active pl)) \<le> workers * per"
    using workers_ok_bound [OF ok] cfg assms(3,4) by simp
  have "int (downloads_of w pl) \<le> per"
    using ok cfg assms(4) by (cases "downloads_of w pl = 0") (auto simp: workers_ok_def)
  moreover have d: "wp_downloading (pl_pool pl) = of_nat (length (pl_active pl))" using ok by (simp add: workers_ok_def)
  moreover have "sint (wp_downloading (pl_pool pl)) = int (length (pl_active pl))" if "workers * per < 2 ^ 31"
    unfolding d using bound that by (subst sint_of_nat_32) simp_all
  ultimately show ?thesis using bound by (simp add: Stats_workers_def)
qed

lemma downloads_bounded_witness:
  "\<exists>pl. pipe_run (\<lambda>_. zeroID) (\<lambda>_. []) sample_pipe_ops (new_pipeline sample_pipe_pool (New False)) = Inr pl
     \<and> pl_held pl \<noteq> [] \<and> int (downloads_of 0 pl) \<le> 2"
proof -
  obtain pl where r: "pipe_run (\<lambda>_. zeroID) (\<lambda>_. []) sample_pipe_ops (new_pipeline sample_pipe_pool (New False)) = Inr pl"
    and pl: "pl_held pl \<noteq> []"
    using sample_pipe_run by blast
  from downloads_bounded [OF sample_pipe_pool _ _ r, of 0] r pl show ?thesis by simp
qed

end
