(* ===== verification/Crawler.thy ===== *)
theory Crawler
  imports Worker Hash_Cache
begin

text \<open>
  \<open>internal/crawler/crawler.go\<close>: the orchestrator. It takes the events of the DHT pool one by one,
  counts their hashes in the cache, submits download jobs, and starts a search of the DHT for each
  \<open>get_peers\<close> event, at most ten of which run at a time. The search is a goroutine: its admission
  and its end are two steps.
\<close>

section \<open>Configuration\<close>

record config =
  NodeCount_cfg :: int
  StartPort :: int
  Bootstraps_cfg :: "bytes list"
  CacheMaxSize :: int
  CacheFlushInterval :: int
  DownloadWorkers :: int
  DownloadPerWorker :: int
  DownloadTimeout :: int
  DBPath :: bytes
  WebPort :: int
  WebEnabled :: bool

definition Second :: int where
  "Second = 1000000000"

definition DefaultConfig :: config where
  "DefaultConfig =
     \<lparr>NodeCount_cfg = 50, StartPort = 6881,
      Bootstraps_cfg = [bs ''router.bittorrent.com:6881'', bs ''dht.transmissionbt.com:6881'',
        bs ''router.utorrent.com:6881''],
      CacheMaxSize = 1000, CacheFlushInterval = 30 * Second,
      DownloadWorkers = 4, DownloadPerWorker = 100, DownloadTimeout = 15 * Second,
      DBPath = bs ''crawler.db'', WebPort = 8085, WebEnabled = True\<rparr>"

section \<open>State\<close>

record crawler_stats =
  DHTNodesActive :: nat
  DHTQueriesRecv :: uint64
  DHTQueriesSent :: uint64
  DHTGetPeers :: uint64
  DHTAnnounces :: uint64
  DHTRoutingSize :: nat
  CacheHashesAdded :: uint64
  CacheHashesFlushed :: uint64
  CacheCurrent :: nat
  DownloadSuccess :: uint64
  DownloadFail :: uint64
  DownloadInProgress :: int
  DownloadQueued :: nat
  TotalHashes :: nat
  TotalTorrents :: nat
  Uptime :: int

text \<open>
  The worker pool holds the download queue; \<open>c_searches\<close> is \<open>searchLimiter\<close>, the number of free
  slots of a channel filled with ten values.
\<close>

record crawler =
  c_config :: config
  c_dhtPool :: pool
  c_hashCache :: hash_cache
  c_workerPool :: worker_pool
  c_storage :: storage
  c_startTime :: int
  c_getPeersProcessed :: uint64
  c_announcesProcessed :: uint64
  c_searches :: nat

text \<open>\<open>store\<close> is what opening the database returns.\<close>

definition NewCrawler ::
  "storage res \<Rightarrow> (nat \<Rightarrow> bytes) \<Rightarrow> (nat \<Rightarrow> nat \<Rightarrow> nat res) \<Rightarrow> int \<Rightarrow> config \<Rightarrow> crawler res" where
  "NewCrawler store secret draw now cfg =
     (case store of
        Inl e \<Rightarrow> Inl e
      | Inr s \<Rightarrow>
     (case NewPool secret draw (NodeCount_cfg cfg) (StartPort cfg) (Bootstraps_cfg cfg) of
        Inl e \<Rightarrow> Inl e
      | Inr dhtPool \<Rightarrow>
          let hashCache = NewHashCache (CacheMaxSize cfg) in
     (case NewDownloadQueue (wrap64 (DownloadWorkers cfg * DownloadPerWorker cfg * 2)) of
        Inl e \<Rightarrow> Inl e
      | Inr queue \<Rightarrow>
     (case NewWorkerPool (DownloadWorkers cfg) (DownloadPerWorker cfg) queue of
        Inl e \<Rightarrow> Inl e
      | Inr workers \<Rightarrow>
          Inr \<lparr>c_config = cfg, c_dhtPool = dhtPool, c_hashCache = hashCache, c_workerPool = workers,
               c_storage = s, c_startTime = now, c_getPeersProcessed = 0, c_announcesProcessed = 0,
               c_searches = 10\<rparr>))))"

section \<open>Events\<close>

text \<open>\<open>flush_env\<close> and \<open>ord\<close> are those of a flush the addition may trigger.\<close>

definition cache_add ::
  "tx_env \<Rightarrow> int \<Rightarrow> ((bytes \<times> int) list \<Rightarrow> (bytes \<times> int) list) \<Rightarrow> bytes \<Rightarrow> crawler \<Rightarrow> crawler" where
  "cache_add env now ord infoHash c =
     (let (hc, s) = Add_cache env now ord infoHash (c_hashCache c) (c_storage c) in
      c\<lparr>c_hashCache := hc, c_storage := s\<rparr>)"

definition submit :: "int \<Rightarrow> bytes \<Rightarrow> bytes \<Rightarrow> crawler \<Rightarrow> crawler" where
  "submit now infoHash peerAddr c =
     c\<lparr>c_workerPool := snd (Submit now infoHash peerAddr (c_workerPool c))\<rparr>"

fun submit_ports :: "(bytes \<Rightarrow> bytes) \<Rightarrow> int \<Rightarrow> bytes \<Rightarrow> bytes \<Rightarrow> int \<Rightarrow> int list \<Rightarrow> crawler \<Rightarrow> crawler" where
  "submit_ports v6 now infoHash ip eventPort [] c = c"
| "submit_ports v6 now infoHash ip eventPort (port # ports) c =
     submit_ports v6 now infoHash ip eventPort ports
       (if port \<noteq> eventPort then submit now infoHash (addr_string v6 ip port) c else c)"

definition common_ports :: "int list" where
  "common_ports = [6881, 6882, 51413, 16881]"

text \<open>
  The result tells whether a search is started for the hash. This is the function by itself, with nothing
  between its calls. The code holds no lock across them; theory \<open>Crawl_System\<close> runs the same calls as separate
  steps of the loop between which all other goroutines may act, and \<open>Event_Flow\<close> shows what they do there.
\<close>

definition processEvent ::
  "(bytes \<Rightarrow> bytes) \<Rightarrow> tx_env \<Rightarrow> int \<Rightarrow> ((bytes \<times> int) list \<Rightarrow> (bytes \<times> int) list) \<Rightarrow> event \<Rightarrow> crawler
    \<Rightarrow> info_hash option \<times> crawler" where
  "processEvent v6 env now ord event c =
     (let infoHash = hex_encode (arr_bytes (ev_InfoHash event)) in
      case ev_Type event of
        EventGetPeers \<Rightarrow>
          let c = cache_add env now ord infoHash c;
              c = c\<lparr>c_getPeersProcessed := c_getPeersProcessed c + 1\<rparr>;
              c = submit now infoHash (addr_string v6 (ev_PeerIP event) (ev_PeerPort event)) c;
              c = submit_ports v6 now infoHash (ev_PeerIP event) (ev_PeerPort event) common_ports c in
          (Some (ev_InfoHash event), c)
      | EventAnnounce \<Rightarrow>
          let c = cache_add env now ord infoHash c;
              c = c\<lparr>c_announcesProcessed := c_announcesProcessed c + 1\<rparr> in
          (None, submit now infoHash (addr_string v6 (ev_PeerIP event) (ev_PeerPort event)) c))"

section \<open>Searches\<close>

definition search_begin :: "go_error option \<Rightarrow> info_hash \<Rightarrow> crawler \<Rightarrow> bool \<times> crawler" where
  "search_begin err infoHash c =
     (if c_searches c = 0 then (False, c)
      else
        let c1 = c\<lparr>c_searches := c_searches c - 1\<rparr>;
            exists = (case TorrentExists err (hex_encode (arr_bytes infoHash)) (c_storage c1) of
                        Inl _ \<Rightarrow> False | Inr b \<Rightarrow> b) in
        if exists then (False, c1\<lparr>c_searches := c_searches c1 + 1\<rparr>) else (True, c1))"

fun submit_peers :: "(bytes \<Rightarrow> bytes) \<Rightarrow> int \<Rightarrow> bytes \<Rightarrow> nat \<Rightarrow> compact_peer list \<Rightarrow> worker_pool \<Rightarrow> nat \<times> worker_pool" where
  "submit_peers v6 now hex submitted [] p = (submitted, p)"
| "submit_peers v6 now hex submitted (peer # peers) p =
     (let (ok, p) = Submit now hex (addr_string v6 (cp_IP peer) (cp_Port peer)) p in
      if ok then (if submitted + 1 \<ge> 3 then (submitted + 1, p) else submit_peers v6 now hex (submitted + 1) peers p)
      else submit_peers v6 now hex submitted peers p)"

definition search_end :: "(bytes \<Rightarrow> bytes) \<Rightarrow> int \<Rightarrow> info_hash \<Rightarrow> compact_peer list \<Rightarrow> crawler \<Rightarrow> crawler" where
  "search_end v6 now infoHash peers c =
     (let (_, p) = submit_peers v6 now (hex_encode (arr_bytes infoHash)) 0 peers (c_workerPool c) in
      c\<lparr>c_workerPool := p, c_searches := c_searches c + 1\<rparr>)"

section \<open>The loop\<close>

text \<open>One turn of the loop of \<open>Run\<close> on a live context; nothing happens on an empty channel.\<close>

definition run_turn ::
  "(bytes \<Rightarrow> bytes) \<Rightarrow> tx_env \<Rightarrow> int \<Rightarrow> ((bytes \<times> int) list \<Rightarrow> (bytes \<times> int) list) \<Rightarrow> crawler
    \<Rightarrow> info_hash option \<times> crawler" where
  "run_turn v6 env now ord c =
     (case recv (p_eventChan (c_dhtPool c)) of
        (None, _) \<Rightarrow> (None, c)
      | (Some event, rest) \<Rightarrow>
          processEvent v6 env now ord event (c\<lparr>c_dhtPool := (c_dhtPool c)\<lparr>p_eventChan := rest\<rparr>\<rparr>))"

definition shutdown :: "tx_env \<Rightarrow> int \<Rightarrow> ((bytes \<times> int) list \<Rightarrow> (bytes \<times> int) list) \<Rightarrow> crawler \<Rightarrow> crawler res" where
  "shutdown env now ord c =
     (let (_, hc, s) = Flush env now ord (c_hashCache c) (c_storage c) in
      case Stop_pool (c_dhtPool c) of
        Inl e \<Rightarrow> Inl e
      | Inr p \<Rightarrow> Inr (c\<lparr>c_hashCache := hc, c_storage := s, c_dhtPool := p\<rparr>))"

definition Stats_crawler :: "go_error option \<Rightarrow> go_error option \<Rightarrow> int \<Rightarrow> crawler \<Rightarrow> crawler_stats" where
  "Stats_crawler err1 err2 now c =
     (let dhtStats = Stats_pool (c_dhtPool c);
          (cacheAdded, cacheFlushed, cacheSize) = Stats_cache (c_hashCache c);
          (dlSuccess, dlFail, dlActive, dlQueued) = Stats_workers (c_workerPool c);
          (hashCount, torrentCount, _) = DbStats err1 err2 (c_storage c) in
      \<lparr>DHTNodesActive = ps_TotalNodes dhtStats, DHTQueriesRecv = ps_QueriesReceived dhtStats,
       DHTQueriesSent = ps_QueriesSent dhtStats, DHTGetPeers = ps_GetPeersCount dhtStats,
       DHTAnnounces = ps_AnnounceCount dhtStats, DHTRoutingSize = ps_RoutingSize dhtStats,
       CacheHashesAdded = cacheAdded, CacheHashesFlushed = cacheFlushed, CacheCurrent = cacheSize,
       DownloadSuccess = dlSuccess, DownloadFail = dlFail, DownloadInProgress = dlActive,
       DownloadQueued = dlQueued, TotalHashes = hashCount, TotalTorrents = torrentCount,
       Uptime = now - c_startTime c\<rparr>)"

section \<open>One submission per hash\<close>

text \<open>
  Whatever a submission returns, submitting the same hash again at once changes nothing: it is in
  flight now, or the queue is full.
\<close>

lemma Submit_again: "Submit now' h peer' (snd (Submit now h peer p)) = (False, snd (Submit now h peer p))"
proof (cases rule: Add_cases [of now h peer "wp_queue p"])
  case 1
  then have "Add now' h peer' (wp_queue p) = (False, wp_queue p)"
    by (cases rule: Add_cases [of now' h peer' "wp_queue p"]) auto
  with 1 show ?thesis by (simp add: Submit_def)
next
  case (2 x)
  then show ?thesis by (simp add: Submit_def) (simp add: Add_def)
qed

lemma submit_ports_again:
  "c_workerPool c = snd (Submit now h peer p) \<Longrightarrow> submit_ports v6 now' h ip q ports c = c"
  by (induction ports arbitrary: c) (auto simp: submit_def Submit_again)

lemma submit_peers_again:
  "submit_peers v6 now' h k peers (snd (Submit now h peer p)) = (k, snd (Submit now h peer p))"
  by (induction peers) (simp_all add: Submit_again)

text \<open>A search gets at most one of the peers it found into the queue, when nothing comes between its submissions.\<close>

lemma search_submits_one: "fst (submit_peers v6 now h 0 peers p) \<le> 1"
proof (induction peers arbitrary: p)
  case (Cons peer peers)
  obtain ok p' where s: "Submit now h (addr_string v6 (cp_IP peer) (cp_Port peer)) p = (ok, p')" by force
  then have "submit_peers v6 now h 1 peers p' = (1, p')"
    using submit_peers_again [of v6 now h 1 peers now "addr_string v6 (cp_IP peer) (cp_Port peer)" p] by simp
  then show ?case using Cons s by (cases ok) simp_all
qed simp

section \<open>The cache under events\<close>

definition counted :: "crawler \<Rightarrow> bytes \<Rightarrow> int" where
  "counted c h = item_count (items (c_hashCache c)) h + db_count (c_storage c) h"

lemma cache_add_counted:
  assumes "distinct (map fst (items (c_hashCache c)))" and "\<And>xs. mset (ord xs) = mset xs"
  shows "counted (cache_add env now ord k c) h = counted c h + (if k = h then 1 else 0)"
    and "distinct (map fst (items (c_hashCache (cache_add env now ord k c))))"
proof -
  obtain hc s where a: "Add_cache env now ord k (c_hashCache c) (c_storage c) = (hc, s)" by force
  let ?y = "\<lparr>cache = c_hashCache c, in_hand = [], db = c_storage c\<rparr>"
  let ?ops = "AddHash now k # (if fst (add_locked now k (c_hashCache c)) then [TakeBatch, StoreBatch 0 env now ord] else [])"
  have ops: "list_all cache_op_ok ?ops" using assms(2) by simp
  have y: "fold cache_exec ?ops ?y = \<lparr>cache = hc, in_hand = [], db = s\<rparr>"
    by (rule Add_cache_steps [OF a, symmetric])
  have d: "distinct (map fst (items (cache ?y)))" using assms(1) by simp
  from cache_run_count [OF ops d, of h] have r: "distinct (map fst (items hc)) \<and> total_count \<lparr>cache = hc, in_hand = [], db = s\<rparr> h
      = total_count ?y h + int (adds_of h ?ops)" unfolding y by simp
  then show "counted (cache_add env now ord k c) h = counted c h + (if k = h then 1 else 0)"
    using a by (auto simp: counted_def cache_add_def total_count_def adds_of_def)
  show "distinct (map fst (items (c_hashCache (cache_add env now ord k c))))"
    using a r by (simp add: cache_add_def)
qed

lemma InsertHashes_torrents: "InsertHashes env now hcs s = (e, s') \<Longrightarrow> torrents s' = torrents s"
  by (auto simp: InsertHashes_def split: option.splits sum.splits)

lemma cache_add_torrents [simp]: "torrents (c_storage (cache_add env now ord k c)) = torrents (c_storage c)"
  using InsertHashes_torrents
  by (fastforce simp: cache_add_def Add_cache_def Flush_def flush_store_def Let_def
      split: prod.splits option.splits)

lemma cache_add_workers [simp]: "c_workerPool (cache_add env now ord k c) = c_workerPool c"
  "c_getPeersProcessed (cache_add env now ord k c) = c_getPeersProcessed c"
  "c_announcesProcessed (cache_add env now ord k c) = c_announcesProcessed c"
  by (simp_all add: cache_add_def split: prod.split)

lemma submit_fields [simp]:
  "c_workerPool (submit now h peer c) = snd (Submit now h peer (c_workerPool c))"
  "c_hashCache (submit now h peer c) = c_hashCache c" "c_storage (submit now h peer c) = c_storage c"
  "c_getPeersProcessed (submit now h peer c) = c_getPeersProcessed c"
  "c_announcesProcessed (submit now h peer c) = c_announcesProcessed c"
  by (simp_all add: submit_def)

lemma processEvent_value:
  "processEvent v6 env now ord ev c =
     (let h = hex_encode (arr_bytes (ev_InfoHash ev));
          c1 = cache_add env now ord h c;
          addr = addr_string v6 (ev_PeerIP ev) (ev_PeerPort ev) in
      case ev_Type ev of
        EventGetPeers \<Rightarrow> (Some (ev_InfoHash ev),
          submit now h addr (c1\<lparr>c_getPeersProcessed := c_getPeersProcessed c1 + 1\<rparr>))
      | EventAnnounce \<Rightarrow> (None, submit now h addr (c1\<lparr>c_announcesProcessed := c_announcesProcessed c1 + 1\<rparr>)))"
  by (auto simp: processEvent_def Let_def submit_ports_again split: event_type.split)

section \<open>Properties\<close>

text \<open>The event handler in one piece, with nothing in between; theory \<open>Event_Flow\<close> has the handler as the
  program interleaves it. The hash is counted once in the cache and the database together,
  whatever flush the count triggers and however that ends; the counter of its kind grows by one; and
  of the five submissions a \<open>get_peers\<close> event makes one after the other only the first can be accepted.\<close>

lemma process_event_effect:
  assumes "processEvent v6 env now ord ev c = (search, c')"
    and "distinct (map fst (items (c_hashCache c)))" and "\<And>xs. mset (ord xs) = mset xs"
  shows "counted c' k = counted c k + (if k = hex_encode (arr_bytes (ev_InfoHash ev)) then 1 else 0)
    \<and> wp_queue (c_workerPool c') = snd (Add now (hex_encode (arr_bytes (ev_InfoHash ev)))
         (addr_string v6 (ev_PeerIP ev) (ev_PeerPort ev)) (wp_queue (c_workerPool c)))
    \<and> c_getPeersProcessed c' = c_getPeersProcessed c + (if ev_Type ev = EventGetPeers then 1 else 0)
    \<and> c_announcesProcessed c' = c_announcesProcessed c + (if ev_Type ev = EventAnnounce then 1 else 0)
    \<and> search = (if ev_Type ev = EventGetPeers then Some (ev_InfoHash ev) else None)"
proof -
  let ?h = "hex_encode (arr_bytes (ev_InfoHash ev))"
  note cc = cache_add_counted(1) [of c ord env now ?h k, OF assms(2,3)]
  have q: "wp_queue (snd (Submit now h a p)) = snd (Add now h a (wp_queue p))" for h a p
    by (simp add: Submit_def split: prod.split)
  show ?thesis
    using assms(1) cc q by (cases "ev_Type ev") (auto simp: processEvent_value Let_def counted_def)
qed

definition sample_event :: event where
  "sample_event = \<lparr>ev_Type = EventGetPeers, ev_InfoHash = zeroID, ev_PeerIP = [10, 0, 0, 1], ev_PeerPort = 7000\<rparr>"

definition sample_crawler :: crawler where
  "sample_crawler = \<lparr>c_config = DefaultConfig, c_dhtPool = sample_pool, c_hashCache = NewHashCache 10,
     c_workerPool = complete (Hex zeroID) sample_workers, c_storage = New False, c_startTime = 0,
     c_getPeersProcessed = 0, c_announcesProcessed = 0, c_searches = 10\<rparr>"

lemma process_event_effect_witness:
  "\<exists>search c'. processEvent (\<lambda>_. []) no_failure 0 rev sample_event sample_crawler = (search, c')
     \<and> counted c' (Hex zeroID) = 1 \<and> length (q_items (wp_queue (c_workerPool c'))) = 1 \<and> search = Some zeroID"
proof -
  obtain search c' where r: "processEvent (\<lambda>_. []) no_failure 0 rev sample_event sample_crawler = (search, c')"
    by force
  have h: "hex_encode (arr_bytes zeroID) = Hex zeroID" by (simp add: Hex_def)
  have d: "distinct (map fst (items (c_hashCache sample_crawler)))"
    by (simp add: sample_crawler_def NewHashCache_def)
  have z: "counted sample_crawler (Hex zeroID) = 0"
    by (simp add: counted_def sample_crawler_def NewHashCache_def New_def db_count_def row_count_def)
  from process_event_effect [OF r d, of "Hex zeroID"] z show ?thesis using r
    by (simp add: sample_event_def h sample_crawler_def complete_def Complete_def sample_workers_def Add_def)
qed

end
