(* ===== verification/Go_Float.thy ===== *)
theory Go_Float
  imports Go_Strconv
begin

text \<open>
  The part of \<open>float64\<close> arithmetic and of its formatting the program uses, on non-negative values
  written as fractions of naturals.
\<close>

text \<open>
  The \<open>float64\<close> values the helpers print, as fractions of naturals: \<open>f64 a b\<close> is \<open>a / b\<close> rounded
  to 53 significant bits, halves to even, and \<open>fixed1\<close> is \<open>%.1f\<close>, the exact value rounded to
  tenths the same way. No value here is subnormal or too large.
\<close>

definition round_half_even :: "nat \<Rightarrow> nat \<Rightarrow> nat" where
  "round_half_even a b =
     (let q = a div b; r = a mod b in if 2 * r < b then q else if 2 * r > b then q + 1 else if even q then q else q + 1)"

fun num_bits :: "nat \<Rightarrow> nat" where
  "num_bits n = (if n = 0 then 0 else 1 + num_bits (n div 2))"

declare num_bits.simps [simp del]

definition f64 :: "nat \<Rightarrow> nat \<Rightarrow> nat \<times> nat" where
  "f64 a b =
     (if a = 0 then (0, 1)
      else
        let k = num_bits b + 53 - num_bits a; t = num_bits a - (num_bits b + 53);
            (k, t) = (if a * 2 ^ k < 2 ^ 53 * (b * 2 ^ t) then (k, t) else if k > 0 then (k - 1, t) else (k, t + 1)) in
        (round_half_even (a * 2 ^ k) (b * 2 ^ t) * 2 ^ t, 2 ^ k))"

definition fixed1 :: "nat \<times> nat \<Rightarrow> bytes" where
  "fixed1 v =
     (let t = round_half_even (10 * fst v) (snd v) in
      dec_nat (t div 10) @ [ch CHR ''.''] @ dec_nat (t mod 10))"

text \<open>\<open>float64(a) / float64(b)\<close> and \<open>float64\<close> of an integer.\<close>

definition div_f64 :: "nat \<Rightarrow> nat \<Rightarrow> nat \<times> nat" where
  "div_f64 a b = (case (f64 a 1, f64 b 1) of ((p, q), (r, s)) \<Rightarrow> f64 (p * s) (q * r))"

end
