(* ===== verification/Web.thy ===== *)
theory Web
  imports Crawler Go_Float "HOL-Library.Signed_Division"
begin

text \<open>
  \<open>internal/web/server.go\<close>: the handlers of the HTTP server, with their pagination, limits and
  status codes, the routes that lead to them, the choice of templates and the formatting helpers. A request is its path and the values
  of its query parameters; a response is a status or the data handed to a template or the JSON
  encoder. The text of the templates and the
  encoders are not modelled.
\<close>

section \<open>Requests and responses\<close>

record request =
  rq_Path :: bytes
  rq_Get :: "bytes \<Rightarrow> bytes"

datatype 'a response = HttpError nat | JsonError go_error nat | Rendered 'a | Json 'a

text \<open>
  \<open>strconv.Atoi\<close> with its error ignored: 0 for a syntax error, the nearest \<open>int\<close> when the number
  is out of range.
\<close>

definition atoi_value :: "bytes \<Rightarrow> int" where
  "atoi_value s =
     (case atoi s of
        Inr i \<Rightarrow> i
      | Inl (Err ErrRange) \<Rightarrow> (if hd s = 45 then - (2 ^ 63) else 2 ^ 63 - 1)
      | Inl _ \<Rightarrow> 0)"

definition TrimPrefix :: "bytes \<Rightarrow> bytes \<Rightarrow> bytes" where
  "TrimPrefix s p = (if take (length p) s = p then drop (length p) s else s)"

section \<open>Pagination\<close>

definition page_number :: "request \<Rightarrow> int" where
  "page_number r = (let page = atoi_value (rq_Get r (bs ''page'')) in if page < 1 then 1 else page)"

definition page_offset :: "int \<Rightarrow> int \<Rightarrow> int" where
  "page_offset perPage page = wrap64 ((page - 1) * perPage)"

definition total_pages :: "int \<Rightarrow> int \<Rightarrow> int" where
  "total_pages perPage tot = (tot + perPage - 1) sdiv perPage"

record 'a page_data =
  pd_Stats :: crawler_stats
  pd_Query :: bytes
  pd_Rows :: "'a list"
  pd_Total :: int
  pd_Page :: int
  pd_TotalPages :: int
  pd_HasPrev :: bool
  pd_HasNext :: bool
  pd_PrevPage :: int
  pd_NextPage :: int

definition make_page :: "crawler_stats \<Rightarrow> bytes \<Rightarrow> 'a list \<Rightarrow> int \<Rightarrow> int \<Rightarrow> int \<Rightarrow> 'a page_data" where
  "make_page stats query rows perPage tot page =
     (let totalPages = total_pages perPage tot in
      \<lparr>pd_Stats = stats, pd_Query = query, pd_Rows = rows, pd_Total = tot, pd_Page = page,
       pd_TotalPages = totalPages, pd_HasPrev = (page > 1), pd_HasNext = (page < totalPages),
       pd_PrevPage = page - 1, pd_NextPage = wrap64 (page + 1)\<rparr>)"

section \<open>Handlers\<close>

definition handleHome :: "crawler_stats \<Rightarrow> request \<Rightarrow> crawler_stats response" where
  "handleHome stats r = (if rq_Path r \<noteq> bs ''/'' then HttpError 404 else Rendered stats)"

text \<open>\<open>search\<close> is \<open>Storage.Search\<close> on the database of the moment.\<close>

definition handleSearch ::
  "(bytes \<Rightarrow> int \<Rightarrow> int \<Rightarrow> go_error + search_result list \<times> nat) \<Rightarrow> crawler_stats \<Rightarrow> request
    \<Rightarrow> search_result page_data response" where
  "handleSearch search stats r =
     (let query = rq_Get r (bs ''q''); page = page_number r; offset = page_offset 20 page;
          (results, tot) = (if query \<noteq> [] then (case search query 20 offset of Inl _ \<Rightarrow> ([], 0) | Inr p \<Rightarrow> p)
                              else ([], 0)) in
      Rendered (make_page stats query results 20 (int tot) page))"

record api_search =
  as_query :: bytes
  as_results :: "search_result list"
  as_total :: int
  as_page :: int
  as_per_page :: int
  as_total_pages :: int

definition handleAPISearch ::
  "(bytes \<Rightarrow> int \<Rightarrow> int \<Rightarrow> go_error + search_result list \<times> nat) \<Rightarrow> request \<Rightarrow> api_search response" where
  "handleAPISearch search r =
     (let query = rq_Get r (bs ''q''); page = page_number r; offset = page_offset 20 page in
      case search query 20 offset of
        Inl e \<Rightarrow> JsonError e 500
      | Inr (results, tot) \<Rightarrow>
          Json \<lparr>as_query = query, as_results = results, as_total = int tot, as_page = page,
                as_per_page = 20, as_total_pages = total_pages 20 (int tot)\<rparr>)"

definition handleAPIStats :: "crawler_stats \<Rightarrow> crawler_stats response" where
  "handleAPIStats stats = Json stats"

definition limit_of :: "request \<Rightarrow> int" where
  "limit_of r = (let limit = atoi_value (rq_Get r (bs ''limit'')) in if limit \<le> 0 \<or> limit > 100 then 20 else limit)"

definition handleAPIRecent ::
  "(torrent_row list \<Rightarrow> torrent_row list) \<Rightarrow> go_error option \<Rightarrow> storage \<Rightarrow> request \<Rightarrow> torrent_record list response" where
  "handleAPIRecent scan err s r =
     (case RecentTorrents scan err (limit_of r) s of Inl e \<Rightarrow> JsonError e 500 | Inr ts \<Rightarrow> Json ts)"

definition handleAPIPopular ::
  "(torrent_row list \<Rightarrow> torrent_row list) \<Rightarrow> go_error option \<Rightarrow> storage \<Rightarrow> request \<Rightarrow> torrent_record list response" where
  "handleAPIPopular scan err s r =
     (case PopularTorrents scan err (limit_of r) s of Inl e \<Rightarrow> JsonError e 500 | Inr ts \<Rightarrow> Json ts)"

text \<open>\<open>err\<close> is the outcome of the query for the rows, \<open>err1\<close> and \<open>err2\<close> those of the counts.\<close>

definition handleSitemap ::
  "(torrent_row list \<Rightarrow> torrent_row list) \<Rightarrow> go_error option \<Rightarrow> go_error option \<Rightarrow> go_error option
    \<Rightarrow> crawler_stats \<Rightarrow> storage \<Rightarrow> request \<Rightarrow> torrent_record page_data response" where
  "handleSitemap scan err err1 err2 stats s r =
     (let page = page_number r; offset = page_offset 50 page in
      case GetAllTorrents scan err 50 offset s of
        Inl e \<Rightarrow> HttpError 500
      | Inr rows \<Rightarrow>
          let (_, totalTorrents, _) = DbStats err1 err2 s in
          Rendered (make_page stats [] rows 50 (int totalTorrents) page))"

definition magnet_link :: "(bytes \<Rightarrow> bytes) \<Rightarrow> torrent_record \<Rightarrow> bytes" where
  "magnet_link escape t = bs ''magnet:?xt=urn:btih:'' @ InfoHash t @ bs ''&dn='' @ escape (Name t)"

definition handleTorrent ::
  "(bytes \<Rightarrow> bytes) \<Rightarrow> go_error option \<Rightarrow> crawler_stats \<Rightarrow> storage \<Rightarrow> request
    \<Rightarrow> (crawler_stats \<times> torrent_record \<times> bytes) response" where
  "handleTorrent escape err stats s r =
     (let hash = TrimPrefix (rq_Path r) (bs ''/torrent/'') in
      if hash = [] then HttpError 404
      else
        (case GetTorrent err hash s of
           Inl e \<Rightarrow> HttpError 500
         | Inr None \<Rightarrow> HttpError 404
         | Inr (Some torrent) \<Rightarrow> Rendered (stats, torrent, magnet_link escape torrent)))"

definition handleAPITorrent :: "go_error option \<Rightarrow> storage \<Rightarrow> request \<Rightarrow> torrent_record response" where
  "handleAPITorrent err s r =
     (let hash = TrimPrefix (rq_Path r) (bs ''/api/torrent/'') in
      if hash = [] then JsonError (ErrMessage ''missing hash'') 400
      else
        (case GetTorrent err hash s of
           Inl e \<Rightarrow> JsonError e 500
         | Inr None \<Rightarrow> JsonError (ErrMessage ''not found'') 404
         | Inr (Some torrent) \<Rightarrow> Json torrent))"

section \<open>The server\<close>

text \<open>
  \<open>NewServer\<close>: the templates of the embedded files, named after the files, or, when they do not
  parse, the default template under the name \<open>search\<close>; \<open>template.Must\<close> panics when that does not
  parse either. \<open>files\<close> are the names of the parsed files, \<open>dflt\<close> tells whether the default parses.
\<close>

record server =
  sv_addr :: bytes
  sv_templates :: "bytes list"

definition NewServer :: "bytes list option \<Rightarrow> bool \<Rightarrow> int \<Rightarrow> server res" where
  "NewServer files dflt port =
     (case files of
        Some names \<Rightarrow> Inr \<lparr>sv_addr = bs '':'' @ fmt_int port, sv_templates = names\<rparr>
      | None \<Rightarrow>
          if dflt then Inr \<lparr>sv_addr = bs '':'' @ fmt_int port, sv_templates = [bs ''search'']\<rparr>
          else Inl (Panic MustFailed))"

text \<open>
  \<open>renderTemplate\<close>: the associated template of that name, or the inline one when there is none or
  its execution fails; \<open>executes\<close> tells whether the execution of a template succeeds.
\<close>

datatype template_used = Associated bytes | SitemapTemplate | TorrentTemplate | DefaultTemplate

definition renderTemplate :: "(bytes \<Rightarrow> bool) \<Rightarrow> server \<Rightarrow> bytes \<Rightarrow> template_used" where
  "renderTemplate executes sv name =
     (if name \<in> set (sv_templates sv) \<and> executes name then Associated name
      else if name = bs ''sitemap'' then SitemapTemplate
      else if name = bs ''torrent'' then TorrentTemplate
      else DefaultTemplate)"

text \<open>
  The repository embeds one template, in the file \<open>search.html\<close>; the handlers ask for \<open>search\<close>,
  \<open>sitemap\<close> and \<open>torrent\<close>, so it is never used.
\<close>

lemma embedded_template_unused:
  assumes "NewServer (Some [bs ''search.html'']) dflt port = Inr sv"
    and "name = bs ''search'' \<or> name = bs ''sitemap'' \<or> name = bs ''torrent''"
  shows "renderTemplate executes sv name \<noteq> Associated x"
  using assms by (auto simp: NewServer_def renderTemplate_def)

section \<open>Routes\<close>

text \<open>
  \<open>http.ServeMux\<close> with the patterns of \<open>Start\<close>: the path is cleaned first (\<open>path.Clean\<close>, keeping a
  slash at the end); a path whose pattern is only registered with a slash, or that was not clean, is
  redirected; otherwise the exact pattern is taken, or the longest pattern that ends in a slash and is
  a prefix. Requests with the method \<open>CONNECT\<close> are left out.
\<close>

datatype handler =
    OnHome | OnSearch | OnSitemap | OnTorrent | OnAPISearch | OnAPIStats | OnAPIRecent | OnAPIPopular | OnAPITorrent

definition patterns :: "(bytes \<times> handler) list" where
  "patterns =
     [(bs ''/'', OnHome), (bs ''/search'', OnSearch), (bs ''/sitemap'', OnSitemap), (bs ''/torrent/'', OnTorrent),
      (bs ''/api/search'', OnAPISearch), (bs ''/api/stats'', OnAPIStats), (bs ''/api/recent'', OnAPIRecent),
      (bs ''/api/popular'', OnAPIPopular), (bs ''/api/torrent/'', OnAPITorrent)]"

fun split_slash :: "bytes \<Rightarrow> bytes \<Rightarrow> bytes list" where
  "split_slash acc [] = [acc]"
| "split_slash acc (c # p) = (if c = 47 then acc # split_slash [] p else split_slash (acc @ [c]) p)"

definition clean_step :: "bytes list \<Rightarrow> bytes \<Rightarrow> bytes list" where
  "clean_step segs seg =
     (if seg = [] \<or> seg = bs ''.'' then segs else if seg = bs ''..'' then butlast segs else segs @ [seg])"

definition join_slash :: "bytes list \<Rightarrow> bytes" where
  "join_slash segs = (if segs = [] then [47] else concat (map (\<lambda>s. 47 # s) segs))"

definition clean_path :: "bytes \<Rightarrow> bytes" where
  "clean_path p0 =
     (if p0 = [] then [47]
      else
        let p = (if hd p0 = 47 then p0 else 47 # p0);
            np = join_slash (foldl clean_step [] (split_slash [] p)) in
        if last p = 47 \<and> np \<noteq> [47] then np @ [47] else np)"

definition match_pattern :: "bytes \<Rightarrow> handler option" where
  "match_pattern path =
     (case map_of patterns path of
        Some h \<Rightarrow> Some h
      | None \<Rightarrow>
          map_option snd (find (\<lambda>(pat, h). take (length pat) path = pat)
            (rev (sort_key (\<lambda>(pat, h). length pat) (filter (\<lambda>(pat, h). last pat = 47) patterns)))))"

datatype route = RedirectTo bytes | NotRouted | Serve handler

definition route :: "bytes \<Rightarrow> route" where
  "route path =
     (let p = clean_path path in
      if map_of patterns p = None \<and> map_of patterns (p @ [47]) \<noteq> None \<and> last p \<noteq> 47 then RedirectTo (p @ [47])
      else if p \<noteq> path then RedirectTo p
      else (case match_pattern path of None \<Rightarrow> NotRouted | Some h \<Rightarrow> Serve h))"

text \<open>A request from its path to the answer of its handler.\<close>

record web_env =
  we_search :: "bytes \<Rightarrow> int \<Rightarrow> int \<Rightarrow> go_error + search_result list \<times> nat"
  we_scan :: "torrent_row list \<Rightarrow> torrent_row list"
  we_err :: "go_error option"
  we_err1 :: "go_error option"
  we_err2 :: "go_error option"
  we_escape :: "bytes \<Rightarrow> bytes"

datatype content =
    HomePage crawler_stats
  | SearchPage "search_result page_data"
  | SitemapPage "torrent_record page_data"
  | TorrentPage "crawler_stats \<times> torrent_record \<times> bytes"
  | SearchJson api_search
  | StatsJson crawler_stats
  | TorrentsJson "torrent_record list"
  | TorrentJson torrent_record

datatype answer = Redirected bytes | Unrouted | Answered "content response"

fun handle :: "web_env \<Rightarrow> crawler_stats \<Rightarrow> storage \<Rightarrow> request \<Rightarrow> handler \<Rightarrow> content response" where
  "handle E stats s r OnHome = map_response HomePage (handleHome stats r)"
| "handle E stats s r OnSearch = map_response SearchPage (handleSearch (we_search E) stats r)"
| "handle E stats s r OnSitemap =
     map_response SitemapPage (handleSitemap (we_scan E) (we_err E) (we_err1 E) (we_err2 E) stats s r)"
| "handle E stats s r OnTorrent = map_response TorrentPage (handleTorrent (we_escape E) (we_err E) stats s r)"
| "handle E stats s r OnAPISearch = map_response SearchJson (handleAPISearch (we_search E) r)"
| "handle E stats s r OnAPIStats = map_response StatsJson (handleAPIStats stats)"
| "handle E stats s r OnAPIRecent = map_response TorrentsJson (handleAPIRecent (we_scan E) (we_err E) s r)"
| "handle E stats s r OnAPIPopular = map_response TorrentsJson (handleAPIPopular (we_scan E) (we_err E) s r)"
| "handle E stats s r OnAPITorrent = map_response TorrentJson (handleAPITorrent (we_err E) s r)"

definition serve :: "web_env \<Rightarrow> crawler_stats \<Rightarrow> storage \<Rightarrow> request \<Rightarrow> answer" where
  "serve E stats s r =
     (case route (rq_Path r) of
        RedirectTo p \<Rightarrow> Redirected p
      | NotRouted \<Rightarrow> Unrouted
      | Serve h \<Rightarrow> Answered (handle E stats s r h))"

section \<open>Formatting\<close>

function unit_loop :: "int \<Rightarrow> int \<Rightarrow> nat \<Rightarrow> int \<times> nat" where
  "unit_loop n dv exp = (if n \<ge> 1024 then unit_loop (n sdiv 1024) (dv * 1024) (exp + 1) else (dv, exp))"
  by pat_completeness auto
termination
  by (relation "measure (\<lambda>(n, _, _). nat n)") (auto simp: signed_divide_int_def)

declare unit_loop.simps [simp del]

definition formatSize :: "int64 \<Rightarrow> bytes res" where
  "formatSize b =
     (if sint b < 1024 then Inr (fmt_int (sint b) @ bs '' B'')
      else
        let (dv, exp) = unit_loop (sint b sdiv 1024) 1024 0 in
        if exp < 6 then
          Inr (fixed1 (div_f64 (nat (sint b)) (nat dv)) @ [32, bs ''KMGTPE'' ! exp] @ bs ''B'')
        else Inl (Panic IndexRange))"

definition formatInt :: "int64 \<Rightarrow> bytes" where
  "formatInt n =
     (if sint n < 1000 then fmt_int (sint n)
      else if sint n < 1000000 then fixed1 (div_f64 (nat (sint n)) 1000) @ bs ''K''
      else if sint n < 1000000000 then fixed1 (div_f64 (nat (sint n)) 1000000) @ bs ''M''
      else fixed1 (div_f64 (nat (sint n)) 1000000000) @ bs ''B'')"

datatype number = NInt int64 | NInt64 int64 | NUint64 uint64 | NOther bytes

fun formatNumber :: "number \<Rightarrow> bytes" where
  "formatNumber (NInt v) = formatInt v"
| "formatNumber (NInt64 v) = formatInt v"
| "formatNumber (NUint64 v) = formatInt v"
| "formatNumber (NOther printed) = printed"

text \<open>
  \<open>time.Duration\<close> as nanoseconds: \<open>Seconds\<close>, \<open>Minutes\<close> and \<open>Hours\<close> add the whole units and the
  rounded fraction; \<open>int(...)\<close> truncates.
\<close>

definition duration_in :: "int \<Rightarrow> int \<Rightarrow> nat \<times> nat" where
  "duration_in unit d =
     (let (p, q) = f64 (nat (\<bar>d\<bar> mod unit)) (nat unit) in f64 (nat (\<bar>d\<bar> div unit) * q + p) q)"

definition trunc_of :: "int \<Rightarrow> nat \<times> nat \<Rightarrow> int" where
  "trunc_of d v = sgn d * int (fst v div snd v)"

definition formatDuration :: "int64 \<Rightarrow> bytes" where
  "formatDuration w =
     (let d = sint w; minute = 60 * Second; hour = 3600 * Second in
      if d < minute then fmt_int (trunc_of d (duration_in Second d)) @ bs ''s''
      else if d < hour then fmt_int (trunc_of d (duration_in minute d)) @ bs ''m''
      else if d < 24 * hour then fmt_int (trunc_of d (duration_in hour d)) @ bs ''h''
      else fmt_int (trunc_of d (case duration_in hour d of (p, q) \<Rightarrow> f64 p (q * 24))) @ bs ''d'')"

section \<open>The units of \<open>formatSize\<close>\<close>

text \<open>The loop stops at the unit of the size, and six letters are enough for every \<open>int64\<close>.\<close>

lemma sdiv_1024: "0 \<le> n \<Longrightarrow> n sdiv 1024 = (n :: int) div 1024"
  by (cases "n = 0") (simp_all add: signed_divide_int_def)

lemma unit_loop_unit:
  "1 \<le> n \<Longrightarrow> n < 1024 ^ Suc j \<Longrightarrow>
    \<exists>i \<le> j. unit_loop n dv e = (dv * 1024 ^ i, e + i) \<and> 1024 ^ i \<le> n \<and> n < 1024 ^ Suc i"
proof (induction j arbitrary: n dv e)
  case 0
  then show ?case by (subst unit_loop.simps) simp
next
  case (Suc j)
  show ?case
  proof (cases "n \<ge> 1024")
    case False
    then show ?thesis using Suc.prems by (subst unit_loop.simps) (intro exI [of _ 0], simp)
  next
    case True
    have d: "n sdiv 1024 = n div 1024" using True by (simp add: sdiv_1024)
    have "1 \<le> n div 1024" "n div 1024 < 1024 ^ Suc j" using True Suc.prems(2) by simp_all
    from Suc.IH [OF this, of "dv * 1024" "Suc e"] obtain i where i: "i \<le> j"
      "unit_loop (n div 1024) (dv * 1024) (Suc e) = (dv * 1024 * 1024 ^ i, Suc e + i)"
      "1024 ^ i \<le> n div 1024" "n div 1024 < 1024 ^ Suc i" by blast
    have "unit_loop n dv e = (dv * 1024 ^ Suc i, e + Suc i)"
      using i(2) True d by (subst unit_loop.simps) simp
    moreover have "1024 ^ Suc i \<le> n" "n < 1024 ^ Suc (Suc i)" using i(3,4) by simp_all
    ultimately show ?thesis using i(1) by (intro exI [of _ "Suc i"]) simp
  qed
qed

lemma formatSize_total:
  assumes "1024 \<le> sint b"
  shows "\<exists>i < 6. 1024 ^ Suc i \<le> sint b \<and> sint b < 1024 ^ Suc (Suc i) \<and>
    formatSize b = Inr (fixed1 (div_f64 (nat (sint b)) (1024 ^ Suc i)) @ [32, bs ''KMGTPE'' ! i] @ bs ''B'')"
proof -
  have "sint b < 2 ^ 63" using sint_lt [of b] by simp
  then have "sint b div 1024 < 1024 ^ Suc 5" "1 \<le> sint b div 1024" using assms by simp_all
  from unit_loop_unit [OF this(2,1), of 1024 0] obtain i where i: "i \<le> 5"
    "unit_loop (sint b div 1024) 1024 0 = (1024 * 1024 ^ i, i)"
    "1024 ^ i \<le> sint b div 1024" "sint b div 1024 < 1024 ^ Suc i" by auto
  have "1024 ^ Suc i \<le> sint b" "sint b < 1024 ^ Suc (Suc i)" using i(3,4) by simp_all
  moreover have "nat (1024 * 1024 ^ i) = 1024 ^ Suc i" by (simp add: nat_mult_distrib nat_power_eq)
  ultimately show ?thesis
    using i(1,2) assms by (intro exI [of _ i]) (simp add: formatSize_def sdiv_1024)
qed

section \<open>Pages\<close>

lemma concat_pages: "concat (map (\<lambda>i. take k (drop (i * k) xs)) [0..<n]) = take (n * k) xs"
proof (induction n)
  case (Suc n)
  have "Suc n * k = n * k + k" by simp
  with Suc show ?case by (simp only: take_add) simp
qed simp

lemma total_pages_div: "0 < k \<Longrightarrow> total_pages (int k) (int t) = int ((t + k - 1) div k)"
proof -
  assume k: "0 < k"
  have e: "int t + int k - 1 = int (t + k - 1)" using k by simp
  show "total_pages (int k) (int t) = int ((t + k - 1) div k)"
    unfolding total_pages_def e using k
    by (cases "t + k - 1 = 0") (simp_all add: signed_divide_int_def zdiv_int)
qed

lemma wrap64_small: "- (2 ^ 63) \<le> i \<Longrightarrow> i < 2 ^ 63 \<Longrightarrow> wrap64 i = i"
  unfolding wrap64_def by (rule sint_int64_of_int)

definition page_request :: "bytes \<Rightarrow> nat \<Rightarrow> request" where
  "page_request path p =
     \<lparr>rq_Path = path, rq_Get = (\<lambda>name. if name = bs ''page'' then fmt_int (int p) else [])\<rparr>"

lemma page_number_request: "1 \<le> p \<Longrightarrow> p < 2 ^ 63 \<Longrightarrow> page_number (page_request path p) = int p"
proof -
  assume p: "1 \<le> p" "p < 2 ^ 63"
  have "int p < int (2 ^ 63)" using p(2) by (simp only: of_nat_less_iff)
  then have "atoi (fmt_int (int p)) = Inr (int p)"
    using parse_int_fmt_int [of "int p"] by (simp add: atoi_def)
  then show "page_number (page_request path p) = int p"
    using p(1) by (simp add: page_number_def page_request_def atoi_value_def)
qed

text \<open>The rows of the sitemap in the order of the query.\<close>

definition sitemap_rows :: "(torrent_row list \<Rightarrow> torrent_row list) \<Rightarrow> storage \<Rightarrow> torrent_record list" where
  "sitemap_rows scan s = map (record_of_row True) (sort_key (\<lambda>r. - t_created_at r) (scan (torrents s)))"

lemma handleSitemap_page:
  assumes "1 \<le> p" and "p < 2 ^ 57"
  shows "handleSitemap scan None None None stats s (page_request path p) =
    Rendered (make_page stats [] (take 50 (drop ((p - 1) * 50) (sitemap_rows scan s))) 50
      (int (length (torrents s))) (int p))"
proof -
  have p: "p < 2 ^ 63" using assms(2) by (rule less_trans) simp
  have "int (p - 1) * 50 < 2 ^ 63"
  proof -
    have "p - 1 < 2 ^ 57" using assms(2) by simp
    then have "int (p - 1) < int (2 ^ 57)" by (simp only: of_nat_less_iff)
    then show ?thesis by simp
  qed
  then have "page_offset 50 (int p) = int ((p - 1) * 50)"
    using assms(1) by (simp add: page_offset_def wrap64_small of_nat_diff)
  then show ?thesis
    using page_number_request [OF assms(1) p, of path]
    by (simp add: handleSitemap_def GetAllTorrents_def DbStats_def sitemap_rows_def sql_limit_def
        sql_offset_def take_map drop_map nat_mult_distrib)
qed

section \<open>Paths\<close>

definition clean_seg :: "bytes \<Rightarrow> bool" where
  "clean_seg s \<longleftrightarrow> s \<noteq> [] \<and> s \<noteq> bs ''.'' \<and> s \<noteq> bs ''..'' \<and> 47 \<notin> set s"

lemma split_slash_no_slash: "47 \<notin> set acc \<Longrightarrow> s \<in> set (split_slash acc p) \<Longrightarrow> 47 \<notin> set s"
  by (induction acc p rule: split_slash.induct) (auto split: if_splits)

lemma split_slash_seg: "47 \<notin> set s \<Longrightarrow> split_slash acc (s @ p) = split_slash (acc @ s) p"
  by (induction s arbitrary: acc) auto

lemma split_slash_join:
  "list_all clean_seg segs \<Longrightarrow>
    split_slash acc (concat (map (\<lambda>s. 47 # s) segs) @ e) =
      (if segs = [] then split_slash acc e else acc # butlast segs @ split_slash (last segs) e)"
proof (induction segs arbitrary: acc)
  case (Cons s segs)
  then have "47 \<notin> set s" by (simp add: clean_seg_def)
  with Cons show ?case by (simp add: split_slash_seg)
qed simp

lemma clean_step_clean:
  assumes "list_all clean_seg segs" and "47 \<notin> set s"
  shows "list_all clean_seg (clean_step segs s)"
proof -
  have "list_all clean_seg (butlast segs)" using assms(1) by (auto simp: list_all_iff dest: in_set_butlastD)
  with assms show ?thesis by (auto simp: clean_step_def clean_seg_def)
qed

lemma clean_steps_clean:
  "list_all clean_seg acc \<Longrightarrow> \<forall>s\<in>set ss. 47 \<notin> set s \<Longrightarrow> list_all clean_seg (foldl clean_step acc ss)"
  by (induction ss arbitrary: acc) (simp_all add: clean_step_clean)

lemma clean_steps_id: "list_all clean_seg segs \<Longrightarrow> foldl clean_step acc segs = acc @ segs"
  by (induction segs arbitrary: acc) (simp_all add: clean_step_def clean_seg_def)

lemma last_join_slash: "list_all clean_seg segs \<Longrightarrow> segs \<noteq> [] \<Longrightarrow> last (join_slash segs) \<noteq> 47"
proof -
  assume c: "list_all clean_seg segs" "segs \<noteq> []"
  then obtain init s where s: "segs = init @ [s]" by (metis append_butlast_last_id)
  then have "s \<noteq> []" "47 \<notin> set s" using c(1) by (simp_all add: clean_seg_def)
  then have "last s \<noteq> 47" using last_in_set by metis
  then show ?thesis using s \<open>s \<noteq> []\<close> by (simp add: join_slash_def)
qed

text \<open>A clean path is a slash, or its segments each after a slash, perhaps with a slash at the end.\<close>

definition path_of :: "bytes list \<Rightarrow> bool \<Rightarrow> bytes" where
  "path_of segs slash = (if segs = [] then [47] else concat (map (\<lambda>s. 47 # s) segs) @ (if slash then [47] else []))"

lemma clean_path_of:
  assumes "list_all clean_seg segs"
  shows "clean_path (path_of segs slash) = path_of segs slash"
proof (cases "segs = []")
  case True
  then show ?thesis by (simp add: path_of_def clean_path_def join_slash_def clean_step_def)
next
  case False
  let ?p = "path_of segs slash"
  have e: "?p = concat (map (\<lambda>s. 47 # s) segs) @ (if slash then [47] else [])" using False by (simp add: path_of_def)
  have h: "?p \<noteq> [] \<and> hd ?p = 47" using False by (cases segs) (simp_all add: path_of_def)
  have "split_slash [] ?p = [] # segs @ (if slash then [[]] else [])"
    unfolding e split_slash_join [OF assms] using False by simp
  then have f: "foldl clean_step [] (split_slash [] ?p) = segs"
    using clean_steps_id [OF assms, of "[]"] by (simp add: clean_step_def)
  have l: "last ?p = 47 \<longleftrightarrow> slash"
    using last_join_slash [OF assms False] unfolding e by (simp add: join_slash_def False)
  have n: "join_slash segs \<noteq> [47]" using last_join_slash [OF assms False] by fastforce
  have "clean_path ?p = (if slash then join_slash segs @ [47] else join_slash segs)"
    unfolding clean_path_def using h f l n by (cases slash) (simp_all add: Let_def)
  then show ?thesis unfolding e using False by (simp add: join_slash_def)
qed

lemma clean_path_form: "\<exists>segs slash. list_all clean_seg segs \<and> clean_path p = path_of segs slash"
proof (cases "p = []")
  case True
  then show ?thesis by (intro exI [of _ "[]"]) (simp add: clean_path_def path_of_def)
next
  case False
  let ?p = "if hd p = 47 then p else 47 # p"
  let ?segs = "foldl clean_step [] (split_slash [] ?p)"
  have c: "list_all clean_seg ?segs" by (rule clean_steps_clean) (auto dest: split_slash_no_slash [rotated])
  have "clean_path p = path_of ?segs (last ?p = 47)"
  proof (cases "?segs = []")
    case True
    then show ?thesis using False by (simp add: clean_path_def path_of_def join_slash_def Let_def)
  next
    case ne: False
    then have "join_slash ?segs \<noteq> [47]" using last_join_slash [OF c] by fastforce
    then show ?thesis using False ne by (simp add: clean_path_def path_of_def join_slash_def Let_def)
  qed
  with c show ?thesis by blast
qed

lemma clean_path_idem: "clean_path (clean_path p) = clean_path p"
  using clean_path_form [of p] clean_path_of by metis

lemma clean_path_root: "\<exists>q. clean_path p = 47 # q"
proof -
  obtain segs slash where "clean_path p = path_of segs slash" using clean_path_form by blast
  then show ?thesis by (cases segs) (simp_all add: path_of_def)
qed

section \<open>Where requests go\<close>

lemma clean_path_seg:
  assumes "pre = path_of segs True" and "list_all clean_seg (segs @ [h])" and "segs \<noteq> []"
  shows "clean_path (pre @ h) = pre @ h"
proof -
  have "pre @ h = path_of (segs @ [h]) False" using assms(1,3) by (simp add: path_of_def)
  with clean_path_of [OF assms(2), of False] show ?thesis by simp
qed

lemma match_registered: "map_of patterns p = Some h \<Longrightarrow> match_pattern p = Some h"
  by (simp add: match_pattern_def)

lemma patterns_clean: "map_of patterns p \<noteq> None \<Longrightarrow> clean_path p = p"
proof -
  assume "map_of patterns p \<noteq> None"
  then have "p \<in> set (map fst patterns)" by (auto simp: map_of_eq_None_iff)
  then show "clean_path p = p"
    by (auto simp: patterns_def clean_path_def clean_step_def join_slash_def bs_def)
qed

text \<open>The pattern \<open>/\<close> is a prefix of every clean path.\<close>

lemma match_total: "\<exists>h. match_pattern (47 # q) = Some h"
proof (cases "map_of patterns (47 # q)")
  case None
  let ?es = "rev (sort_key (\<lambda>(pat, h). length pat) (filter (\<lambda>(pat, h). last pat = 47) patterns))"
  have "(bs ''/'', OnHome) \<in> set ?es" by (simp add: patterns_def) (simp add: bs_def)
  moreover have "take (length (bs ''/'')) (47 # q) = bs ''/''" by (simp add: bs_def)
  ultimately have "find (\<lambda>(pat, h). take (length pat) (47 # q) = pat) ?es \<noteq> None"
    unfolding find_None_iff by blast
  then show ?thesis using None by (auto simp: match_pattern_def)
qed (simp add: match_registered)

lemma route_clean:
  assumes "clean_path p = p" and "map_of patterns p \<noteq> None \<or> map_of patterns (p @ [47]) = None \<or> last p = 47"
  shows "\<exists>h. match_pattern p = Some h \<and> route p = Serve h"
proof -
  obtain q where "clean_path p = 47 # q" using clean_path_root by blast
  then obtain h where "match_pattern p = Some h" using match_total [of q] assms(1) by auto
  then show ?thesis using assms by (auto simp: route_def)
qed

text \<open>Hashes in hexadecimal are clean segments, so the pages of a torrent are reached by its path.\<close>

lemma hex_encode_clean: "clean_seg (hex_encode b)" if "2 \<le> length b"
proof -
  have d: "47 \<notin> set (hex_byte c)" for c
  proof -
    have "from_hex_char 47 = None" by (simp add: from_hex_char_def)
    then have "hex_char x \<noteq> 47" if "unat x < 16" for x
      using from_hex_hex_char [OF that] by (metis option.distinct(1))
    then show ?thesis using nibble_bounds [of c] by (auto simp: hex_byte_def)
  qed
  have "4 \<le> length (hex_encode b)" using that by simp
  then have ne: "hex_encode b \<noteq> bs w" if "length w < 4" for w
    using that by (metis length_bs not_le)
  have "hex_encode b \<noteq> []" "hex_encode b \<noteq> bs ''.''" "hex_encode b \<noteq> bs ''..''"
    using ne [of "[]"] ne [of "''.''"] ne [of "''..''"] by simp_all
  then show ?thesis using d by (auto simp: clean_seg_def hex_encode_def)
qed

lemma torrent_paths_clean:
  assumes "clean_seg h"
  shows "clean_path (bs ''/torrent/'' @ h) = bs ''/torrent/'' @ h"
    and "clean_path (bs ''/api/torrent/'' @ h) = bs ''/api/torrent/'' @ h"
proof -
  have t: "bs ''/torrent/'' = path_of [bs ''torrent''] True" "list_all clean_seg ([bs ''torrent''] @ [h])"
    using assms by (simp_all add: path_of_def clean_seg_def) (simp_all add: bs_def)
  show "clean_path (bs ''/torrent/'' @ h) = bs ''/torrent/'' @ h" by (rule clean_path_seg [OF t]) simp
  have a: "bs ''/api/torrent/'' = path_of [bs ''api'', bs ''torrent''] True"
    "list_all clean_seg ([bs ''api'', bs ''torrent''] @ [h])"
    using assms by (simp_all add: path_of_def clean_seg_def) (simp_all add: bs_def)
  show "clean_path (bs ''/api/torrent/'' @ h) = bs ''/api/torrent/'' @ h" by (rule clean_path_seg [OF a]) simp
qed

lemma slash_patterns:
  "rev (sort_key (\<lambda>(pat, h). length pat) (filter (\<lambda>(pat, h). last pat = 47) patterns))
    = [(bs ''/api/torrent/'', OnAPITorrent), (bs ''/torrent/'', OnTorrent), (bs ''/'', OnHome)]"
proof -
  have "filter (\<lambda>(pat, h). last pat = 47) patterns
      = [(bs ''/'', OnHome), (bs ''/torrent/'', OnTorrent), (bs ''/api/torrent/'', OnAPITorrent)]"
    by (simp add: patterns_def) (simp add: bs_def)
  then show ?thesis by simp
qed

lemma route_torrent:
  assumes "clean_seg h"
  shows "route (bs ''/torrent/'' @ h) = Serve OnTorrent" and "route (bs ''/api/torrent/'' @ h) = Serve OnAPITorrent"
proof -
  have h: "h \<noteq> []" "47 \<notin> set h" using assms by (simp_all add: clean_seg_def)
  have t: "map_of patterns (bs ''/torrent/'' @ h) = None" "map_of patterns ((bs ''/torrent/'' @ h) @ [47]) = None"
    using h by (simp_all add: patterns_def) (auto simp: bs_def)
  have a: "map_of patterns (bs ''/api/torrent/'' @ h) = None" "map_of patterns ((bs ''/api/torrent/'' @ h) @ [47]) = None"
    using h by (simp_all add: patterns_def) (auto simp: bs_def)
  have mt: "match_pattern (bs ''/torrent/'' @ h) = Some OnTorrent"
    unfolding match_pattern_def slash_patterns t by (simp add: bs_def)
  have ma: "match_pattern (bs ''/api/torrent/'' @ h) = Some OnAPITorrent"
    unfolding match_pattern_def slash_patterns a by (simp add: bs_def)
  show "route (bs ''/torrent/'' @ h) = Serve OnTorrent"
    using t mt torrent_paths_clean(1) [OF assms] by (simp add: route_def)
  show "route (bs ''/api/torrent/'' @ h) = Serve OnAPITorrent"
    using a ma torrent_paths_clean(2) [OF assms] by (simp add: route_def)
qed

definition page_at :: "bytes \<Rightarrow> request" where
  "page_at path = \<lparr>rq_Path = path, rq_Get = (\<lambda>_. [])\<rparr>"

lemma serve_torrent:
  assumes "clean_seg h" and "we_err E = None" and "GetTorrent None h s = Inr t"
  shows "serve E stats s (page_at (bs ''/torrent/'' @ h)) = Answered
      (case t of None \<Rightarrow> HttpError 404 | Some t \<Rightarrow> Rendered (TorrentPage (stats, t, magnet_link (we_escape E) t)))"
    and "serve E stats s (page_at (bs ''/api/torrent/'' @ h)) = Answered
      (case t of None \<Rightarrow> JsonError (ErrMessage ''not found'') 404 | Some t \<Rightarrow> Json (TorrentJson t))"
proof -
  have "h \<noteq> []" using assms(1) by (simp add: clean_seg_def)
  then show "serve E stats s (page_at (bs ''/torrent/'' @ h)) = Answered
      (case t of None \<Rightarrow> HttpError 404 | Some t \<Rightarrow> Rendered (TorrentPage (stats, t, magnet_link (we_escape E) t)))"
    and "serve E stats s (page_at (bs ''/api/torrent/'' @ h)) = Answered
      (case t of None \<Rightarrow> JsonError (ErrMessage ''not found'') 404 | Some t \<Rightarrow> Json (TorrentJson t))"
    using assms(2,3) route_torrent [OF assms(1)]
    by (simp_all add: serve_def page_at_def handleTorrent_def handleAPITorrent_def TrimPrefix_def split: option.split)
qed

section \<open>Properties\<close>



text \<open>Redirects end. A request for any path is either answered by a handler, or redirected once to
  a path that is: cleaning the path and adding the slash of a registered pattern never lead in a circle,
  and no path is left without a handler.\<close>

lemma redirects_end:
  "(\<exists>h. route path = Serve h) \<or> (\<exists>target h. route path = RedirectTo target \<and> route target = Serve h)"
proof -
  let ?p = "clean_path path"
  have c: "clean_path ?p = ?p" by (rule clean_path_idem)
  show ?thesis
  proof (cases "map_of patterns ?p = None \<and> map_of patterns (?p @ [47]) \<noteq> None \<and> last ?p \<noteq> 47")
    case slash: True
    then have "route path = RedirectTo (?p @ [47])" by (simp add: route_def Let_def)
    moreover have "\<exists>h. route (?p @ [47]) = Serve h"
      using route_clean [OF patterns_clean] slash by blast
    ultimately show ?thesis by blast
  next
    case False
    then have plain: "map_of patterns ?p \<noteq> None \<or> map_of patterns (?p @ [47]) = None \<or> last ?p = 47" by simp
    obtain h where h: "route ?p = Serve h" using route_clean [OF c plain] by blast
    show ?thesis
    proof (cases "?p = path")
      case True
      then show ?thesis using h by auto
    next
      case False
      then have "route path = RedirectTo ?p" using plain by (auto simp: route_def Let_def)
      then show ?thesis using h by blast
    qed
  qed
qed

text \<open>C40: A stored torrent can be looked up. After a torrent was stored under the hexadecimal form of its
  info hash, its page and its JSON address show the record the database has for it, with the name, the
  size and the request count it was stored with; every hash the database has no torrent for gives the status 404 on both.\<close>

theorem torrent_served:
  assumes "InsertTorrent None t s = (None, s')" and "InfoHash t = hex_encode (arr_bytes (x :: info_hash))"
    and "we_err E = None"
  shows "\<exists>t'. serve E stats s' (page_at (bs ''/torrent/'' @ InfoHash t))
        = Answered (Rendered (TorrentPage (stats, t', magnet_link (we_escape E) t')))
    \<and> serve E stats s' (page_at (bs ''/api/torrent/'' @ InfoHash t)) = Answered (Json (TorrentJson t'))
    \<and> InfoHash t' = InfoHash t \<and> Name t' = Name t \<and> TorrentSize t' = TorrentSize t \<and> ReqCount t' = ReqCount t
    \<and> (GetTorrent None (hex_encode (arr_bytes (y :: info_hash))) s' = Inr None \<longrightarrow>
        serve E stats s' (page_at (bs ''/torrent/'' @ hex_encode (arr_bytes y))) = Answered (HttpError 404)
        \<and> serve E stats s' (page_at (bs ''/api/torrent/'' @ hex_encode (arr_bytes y)))
            = Answered (JsonError (ErrMessage ''not found'') 404))"
proof -
  have c: "clean_seg (hex_encode (arr_bytes (z :: info_hash)))" for z by (rule hex_encode_clean) simp
  obtain t' where t': "GetTorrent None (InfoHash t) s' = Inr (Some t')" "InfoHash t' = InfoHash t" "Name t' = Name t"
    "TorrentSize t' = TorrentSize t" "ReqCount t' = ReqCount t"
    using torrent_read_back [OF assms(1), of "[]"] by auto
  have "clean_seg (InfoHash t)" using c assms(2) by simp
  note found = serve_torrent [OF this assms(3) t'(1), of stats]
  show ?thesis
    using found t' serve_torrent [OF c assms(3), of y s' None stats] by (intro exI [of _ t']) auto
qed

definition sample_web :: web_env where
  "sample_web = \<lparr>we_search = (\<lambda>_ _ _. Inr ([], 0)), we_scan = rev, we_err = None, we_err1 = None, we_err2 = None,
     we_escape = (\<lambda>b. b)\<rparr>"

theorem torrent_served_witness:
  "\<exists>s' t'. InsertTorrent None (sample_torrent\<lparr>InfoHash := hex_encode (arr_bytes zeroID)\<rparr>) (New False) = (None, s')
     \<and> serve sample_web (Stats_crawler None None 0 sample_crawler) s'
         (page_at (bs ''/api/torrent/'' @ hex_encode (arr_bytes zeroID))) = Answered (Json (TorrentJson t'))
     \<and> Name t' = bs ''n''"
proof -
  let ?t = "sample_torrent\<lparr>InfoHash := hex_encode (arr_bytes zeroID)\<rparr>"
  obtain s' where s': "InsertTorrent None ?t (New False) = (None, s')"
    by (simp add: InsertTorrent_def Let_def)
  have t: "InfoHash ?t = hex_encode (arr_bytes zeroID)" by simp
  have e: "we_err sample_web = None" by (simp add: sample_web_def)
  obtain t' where "serve sample_web (Stats_crawler None None 0 sample_crawler) s'
      (page_at (bs ''/api/torrent/'' @ InfoHash ?t)) = Answered (Json (TorrentJson t'))" "Name t' = Name ?t"
    using torrent_served [OF s' t e, of "Stats_crawler None None 0 sample_crawler" zeroID] by blast
  then show ?thesis using s' by (intro exI [of _ s'] exI [of _ t']) (simp add: sample_torrent_def)
qed

text \<open>
  A page number near the largest \<open>int\<close> overflows the offset to a negative number, which the query
  takes as 0: the last possible page shows the first rows.
\<close>

lemma huge_page_wraps: "page_offset 50 (2 ^ 63 - 1) = - 100" "sql_offset (- 100) rows = rows"
  by (simp_all add: page_offset_def wrap64_def sql_offset_def)

end
