(* ===== verification/Command_Line.thy ===== *)
theory Command_Line
  imports Crawler Go_Float
begin

text \<open>
  \<open>cmd/crawler/main.go\<close>: the configuration of the process. The configuration file is read by a
  YAML library, an argument here: what it makes of a path and the configuration so far, and
  whether it failed (it may have written some fields before). Flags override the file; durations are
  parsed, with a default when that fails. The rest of
  \<open>main\<close>, which makes and runs the crawler, is in the theory \<open>Startup\<close>. Signals, logging and the
  banner are not modelled.
\<close>

section \<open>Durations\<close>

text \<open>
  \<open>time.ParseDuration\<close>: a sign, then numbers with a fraction and a unit each. \<open>leading_int\<close> reads
  digits up to \<open>2 ^ 63\<close>; \<open>leading_fraction\<close> reads the digits it can hold and skips the rest.
\<close>

fun leading_int :: "nat \<Rightarrow> bytes \<Rightarrow> (nat \<times> bytes) res" where
  "leading_int x [] = Inr (x, [])"
| "leading_int x (c # s) =
     (if \<not> is_digit c then Inr (x, c # s)
      else if x > 2 ^ 63 div 10 then Inl (Err (ErrMessage ''time: bad [0-9]*''))
      else let y = x * 10 + (unat c - 48) in
           if y > 2 ^ 63 then Inl (Err (ErrMessage ''time: bad [0-9]*'')) else leading_int y s)"

fun leading_fraction :: "nat \<Rightarrow> nat \<Rightarrow> bool \<Rightarrow> bytes \<Rightarrow> nat \<times> nat \<times> bytes" where
  "leading_fraction x scale overflow [] = (x, scale, [])"
| "leading_fraction x scale overflow (c # s) =
     (if \<not> is_digit c then (x, scale, c # s)
      else if overflow then leading_fraction x scale overflow s
      else if x > (2 ^ 63 - 1) div 10 then leading_fraction x scale True s
      else let y = x * 10 + (unat c - 48) in
           if y > 2 ^ 63 then leading_fraction x scale True s
           else leading_fraction y (scale * 10) overflow s)"

definition unit_of :: "bytes \<Rightarrow> nat option" where
  "unit_of u =
     map_of [(bs ''ns'', 1), (bs ''us'', 1000), ([0xC2, 0xB5, ch CHR ''s''], 1000),
       ([0xCE, 0xBC, ch CHR ''s''], 1000), (bs ''ms'', 1000000), (bs ''s'', 1000000000),
       (bs ''m'', 60000000000), (bs ''h'', 3600000000000)] u"

definition bad_duration :: "'a res" where
  "bad_duration = Inl (Err (ErrMessage ''time: invalid duration''))"

text \<open>One number with its unit: the nanoseconds and the rest of the string.\<close>

definition duration_number :: "bytes \<Rightarrow> (nat \<times> nat \<times> nat \<times> bytes) res" where
  "duration_number s =
     (if s = [] \<or> \<not> (hd s = 46 \<or> is_digit (hd s)) then bad_duration
      else
        (case leading_int 0 s of
           Inl e \<Rightarrow> bad_duration
         | Inr (v, s1) \<Rightarrow>
             if s1 \<noteq> [] \<and> hd s1 = 46 then
               (case leading_fraction 0 1 False (tl s1) of
                  (f, scale, s2) \<Rightarrow>
                    if length s1 = length s \<and> length s2 = length (tl s1) then bad_duration
                    else Inr (v, f, scale, s2))
             else if length s1 = length s then bad_duration
             else Inr (v, 0, 1, s1)))"

definition fraction_ns :: "nat \<Rightarrow> nat \<Rightarrow> nat \<Rightarrow> nat" where
  "fraction_ns f unit scale =
     (let (p, q) = div_f64 unit scale; (p', q') = f64 f 1; (n, d) = f64 (p * p') (q * q') in n div d)"

definition duration_unit :: "nat \<Rightarrow> nat \<Rightarrow> nat \<Rightarrow> bytes \<Rightarrow> (nat \<times> bytes) res" where
  "duration_unit v f scale s =
     (let u = takeWhile (\<lambda>c. \<not> (c = 46 \<or> is_digit c)) s in
      if u = [] then bad_duration
      else
        (case unit_of u of
           None \<Rightarrow> bad_duration
         | Some unit \<Rightarrow>
             if v > 2 ^ 63 div unit then bad_duration
             else if f > 0 then
               (let w = v * unit + fraction_ns f unit scale in
                if w > 2 ^ 63 then bad_duration else Inr (w, drop (length u) s))
             else Inr (v * unit, drop (length u) s)))"

definition duration_item :: "bytes \<Rightarrow> (nat \<times> bytes) res" where
  "duration_item s =
     (case duration_number s of
        Inl e \<Rightarrow> Inl e
      | Inr (v, f, scale, s2) \<Rightarrow> duration_unit v f scale s2)"

lemma leading_int_length: "leading_int x s = Inr (v, s') \<Longrightarrow> length s' \<le> length s"
  by (induction x s rule: leading_int.induct) (auto simp: Let_def split: if_splits intro: le_SucI)

lemma leading_fraction_length: "leading_fraction x sc ov s = (v, sc', s') \<Longrightarrow> length s' \<le> length s"
  by (induction x sc ov s rule: leading_fraction.induct) (auto simp: Let_def split: if_splits intro: le_SucI)

lemma duration_number_length: "duration_number s = Inr (v, f, scale, s2) \<Longrightarrow> length s2 \<le> length s"
  by (auto simp: duration_number_def bad_duration_def dest!: leading_int_length leading_fraction_length
      split: if_splits sum.splits prod.splits)

lemma duration_unit_shorter:
  assumes "duration_unit v f scale s = Inr (w, rest)"
  shows "length rest < length s"
proof -
  let ?u = "takeWhile (\<lambda>c. \<not> (c = 46 \<or> is_digit c)) s"
  have "?u \<noteq> []" and r: "rest = drop (length ?u) s"
    using assms unfolding duration_unit_def Let_def bad_duration_def
    by (auto split: if_split_asm option.split_asm simp del: length_drop)
  then have "s \<noteq> []" "0 < length ?u" by auto
  then show ?thesis unfolding r by (simp del: takeWhile_eq_Nil_iff)
qed

lemma duration_item_shorter: "duration_item s = Inr (w, rest) \<Longrightarrow> length rest < length s"
  using duration_number_length duration_unit_shorter
  by (fastforce simp: duration_item_def split: sum.splits intro: less_le_trans)

function duration_loop :: "nat \<Rightarrow> bytes \<Rightarrow> nat res" where
  "duration_loop d s =
     (if s = [] then Inr d
      else
        (case duration_item s of
           Inl e \<Rightarrow> Inl e
         | Inr (v, rest) \<Rightarrow> if d + v > 2 ^ 63 then bad_duration else duration_loop (d + v) rest))"
  by pat_completeness auto
termination
  by (relation "measure (\<lambda>(d, s). length s)") (auto dest: duration_item_shorter)

declare duration_loop.simps [simp del]

definition ParseDuration :: "bytes \<Rightarrow> int res" where
  "ParseDuration s =
     (let neg = (s \<noteq> [] \<and> hd s = 45);
          s = (if s \<noteq> [] \<and> (hd s = 45 \<or> hd s = 43) then tl s else s) in
      if s = bs ''0'' then Inr 0
      else if s = [] then bad_duration
      else
        (case duration_loop 0 s of
           Inl e \<Rightarrow> Inl e
         | Inr d \<Rightarrow>
             if neg then Inr (- int d)
             else if d > 2 ^ 63 - 1 then bad_duration
             else Inr (int d)))"

section \<open>The configuration file\<close>

record file_config =
  f_NodeCount :: int
  f_StartPort :: int
  f_Bootstraps :: "bytes list"
  f_MaxSize :: int
  f_FlushInterval :: bytes
  f_Workers :: int
  f_PerWorker :: int
  f_Timeout :: bytes
  f_Path :: bytes
  f_Port :: int
  f_Enabled :: bool

definition defaultConfig :: file_config where
  "defaultConfig =
     \<lparr>f_NodeCount = 50, f_StartPort = 6881,
      f_Bootstraps = [bs ''router.bittorrent.com:6881'', bs ''dht.transmissionbt.com:6881'',
        bs ''router.utorrent.com:6881''],
      f_MaxSize = 1000, f_FlushInterval = bs ''30s'', f_Workers = 4, f_PerWorker = 100,
      f_Timeout = bs ''30s'', f_Path = bs ''crawler.db'', f_Port = 8085, f_Enabled = True\<rparr>"

definition toCrawlerConfig :: "file_config \<Rightarrow> config" where
  "toCrawlerConfig cfg =
     (let flushInterval = (case ParseDuration (f_FlushInterval cfg) of Inl _ \<Rightarrow> 30 * Second | Inr d \<Rightarrow> d);
          timeout = (case ParseDuration (f_Timeout cfg) of Inl _ \<Rightarrow> 30 * Second | Inr d \<Rightarrow> d) in
      \<lparr>NodeCount_cfg = f_NodeCount cfg, StartPort = f_StartPort cfg, Bootstraps_cfg = f_Bootstraps cfg,
       CacheMaxSize = f_MaxSize cfg, CacheFlushInterval = flushInterval,
       DownloadWorkers = f_Workers cfg, DownloadPerWorker = f_PerWorker cfg, DownloadTimeout = timeout,
       DBPath = f_Path cfg, WebPort = f_Port cfg, WebEnabled = f_Enabled cfg\<rparr>)"

section \<open>Flags\<close>

record flags =
  fl_config :: bytes
  fl_nodes :: int
  fl_port :: int
  fl_web :: int
  fl_db :: bytes
  fl_workers :: int
  fl_noWeb :: bool

definition no_flags :: flags where
  "no_flags = \<lparr>fl_config = [], fl_nodes = 0, fl_port = 0, fl_web = 0, fl_db = [], fl_workers = 0, fl_noWeb = False\<rparr>"

definition apply_flags :: "flags \<Rightarrow> file_config \<Rightarrow> file_config" where
  "apply_flags fl cfg0 =
     (let cfg1 = (if fl_nodes fl > 0 then cfg0\<lparr>f_NodeCount := fl_nodes fl\<rparr> else cfg0);
          cfg2 = (if fl_port fl > 0 then cfg1\<lparr>f_StartPort := fl_port fl\<rparr> else cfg1);
          cfg3 = (if fl_web fl > 0 then cfg2\<lparr>f_Port := fl_web fl\<rparr> else cfg2);
          cfg4 = (if fl_db fl \<noteq> [] then cfg3\<lparr>f_Path := fl_db fl\<rparr> else cfg3);
          cfg5 = (if fl_workers fl > 0 then cfg4\<lparr>f_Workers := fl_workers fl\<rparr> else cfg4) in
      if fl_noWeb fl then cfg5\<lparr>f_Enabled := False\<rparr> else cfg5)"

text \<open>\<open>log.Fatalf\<close> is the error: only a file named by a flag must load.\<close>

definition configure ::
  "(bytes \<Rightarrow> file_config \<Rightarrow> go_error option \<times> file_config) \<Rightarrow> flags \<Rightarrow> go_error + config" where
  "configure load fl =
     (if fl_config fl \<noteq> [] then
        (case load (fl_config fl) defaultConfig of
           (Some e, _) \<Rightarrow> Inl e
         | (None, cfg) \<Rightarrow> Inr (toCrawlerConfig (apply_flags fl cfg)))
      else Inr (toCrawlerConfig (apply_flags fl (snd (load (bs ''config.yaml'') defaultConfig)))))"

lemma parse_30s: "ParseDuration (bs ''30s'') = Inr (30 * Second)"
  by (simp add: ParseDuration_def bs_def duration_loop.simps duration_item_def duration_number_def
      duration_unit_def unit_of_def is_digit_def Second_def)

text \<open>
  Without flags and without a file the process runs with the defaults of the crawler, except for
  the download timeout, which is 30 seconds here and 15 there.
\<close>

lemma default_configuration:
  assumes "\<And>path cfg. load path cfg = (Some e, cfg)"
  shows "configure load no_flags = Inr (DefaultConfig\<lparr>DownloadTimeout := 30 * Second\<rparr>)"
  by (simp add: configure_def assms no_flags_def apply_flags_def toCrawlerConfig_def defaultConfig_def
      parse_30s DefaultConfig_def)

text \<open>A flag overrides its field whatever the file says, and leaves the others to the file.\<close>

lemma flags_override:
  "f_NodeCount (apply_flags fl cfg) = (if fl_nodes fl > 0 then fl_nodes fl else f_NodeCount cfg)"
  "f_StartPort (apply_flags fl cfg) = (if fl_port fl > 0 then fl_port fl else f_StartPort cfg)"
  "f_Port (apply_flags fl cfg) = (if fl_web fl > 0 then fl_web fl else f_Port cfg)"
  "f_Path (apply_flags fl cfg) = (if fl_db fl \<noteq> [] then fl_db fl else f_Path cfg)"
  "f_Workers (apply_flags fl cfg) = (if fl_workers fl > 0 then fl_workers fl else f_Workers cfg)"
  "f_Enabled (apply_flags fl cfg) = (f_Enabled cfg \<and> \<not> fl_noWeb fl)"
  by (simp_all add: apply_flags_def Let_def)

end
