(* ===== verification/Crawl_System.thy ===== *)
theory Crawl_System
  imports Crawler
begin

text \<open>
  The running crawler: every goroutine of \<open>internal/crawler\<close> and \<open>internal/dht\<close> as operations on one
  state. The nodes of the pool, the loop of \<open>Run\<close>, the flusher of the cache, the searches, the feeder
  and the workers interleave at the points where they give up a lock or block; a goroutine between
  two of its steps is a program counter of the state. \<open>y_log\<close> is a history variable: the hashes
  added to the cache. Bodies of \<open>InsertHashes\<close> with the putting back of a failed batch are one step,
  since a failed insertion leaves the database as it was.
\<close>

section \<open>State\<close>

text \<open>What a flush of the loop of \<open>Run\<close> is followed by.\<close>

datatype goal = Resume event | FinishRun

datatype loop =
    Waiting
  | Counting event
  | Flushing goal
  | Storing goal cache_items
  | Submitting event "bytes list"
  | ClosingStorage
  | StoppingPool
  | Ended

text \<open>A goroutine of \<open>searchAndDownload\<close>.\<close>

datatype search =
    Entering info_hash
  | Checking info_hash
  | LookingUp info_hash
  | SubmittingPeers info_hash nat "compact_peer list"

record system =
  y_dht :: pool
  y_cache :: hash_cache
  y_pipe :: pipeline
  y_getPeers :: uint64
  y_announces :: uint64
  y_slots :: nat
  y_loop :: loop
  y_interval :: int
  y_ticking :: bool
  y_flusher :: "cache_items option"
  y_flusher_gone :: bool
  y_searches :: "search list"
  y_dbClosed :: bool
  y_log :: "bytes list"

definition system_of :: "crawler \<Rightarrow> system" where
  "system_of c =
     \<lparr>y_dht = c_dhtPool c, y_cache = c_hashCache c, y_pipe = new_pipeline (c_workerPool c) (c_storage c),
      y_getPeers = c_getPeersProcessed c, y_announces = c_announcesProcessed c, y_slots = c_searches c,
      y_loop = Waiting, y_interval = CacheFlushInterval (c_config c), y_ticking = False, y_flusher = None, y_flusher_gone = False, y_searches = [], y_dbClosed = False,
      y_log = []\<rparr>"

text \<open>The crawler a state of the system shows, with the configuration of \<open>c\<close>.\<close>

definition crawler_of :: "crawler \<Rightarrow> system \<Rightarrow> crawler" where
  "crawler_of c y =
     c\<lparr>c_dhtPool := y_dht y, c_hashCache := y_cache y, c_workerPool := pl_pool (y_pipe y),
       c_storage := pl_storage (y_pipe y), c_getPeersProcessed := y_getPeers y,
       c_announcesProcessed := y_announces y, c_searches := y_slots y\<rparr>"

section \<open>Operations\<close>

definition hash_of :: "event \<Rightarrow> bytes" where
  "hash_of ev = hex_encode (arr_bytes (ev_InfoHash ev))"

text \<open>The addresses an event is submitted with.\<close>

definition event_addrs :: "(bytes \<Rightarrow> bytes) \<Rightarrow> event \<Rightarrow> bytes list" where
  "event_addrs v6 ev =
     addr_string v6 (ev_PeerIP ev) (ev_PeerPort ev) #
     (case ev_Type ev of
        EventGetPeers \<Rightarrow> map (addr_string v6 (ev_PeerIP ev)) (filter (\<lambda>port. port \<noteq> ev_PeerPort ev) common_ports)
      | EventAnnounce \<Rightarrow> [])"

text \<open>A statement on the closed database fails, whatever it would have met.\<close>

definition db_err :: "system \<Rightarrow> go_error option \<Rightarrow> go_error option" where
  "db_err y e = (if y_dbClosed y then Some (ErrMessage ''sql: database is closed'') else e)"

definition tx_of :: "system \<Rightarrow> tx_env \<Rightarrow> tx_env" where
  "tx_of y env = env\<lparr>begin_err := db_err y (begin_err env)\<rparr>"

fun pipe_op_of :: "system \<Rightarrow> pipe_op \<Rightarrow> pipe_op" where
  "pipe_op_of y (PFeed err) = PFeed (db_err y err)"
| "pipe_op_of y (PFinish i env) =
     PFinish i (env\<lparr>je_insert_err := db_err y (je_insert_err env), je_delete_err := db_err y (je_delete_err env)\<rparr>)"
| "pipe_op_of y op = op"

definition submit_job :: "int \<Rightarrow> bytes \<Rightarrow> bytes \<Rightarrow> system \<Rightarrow> bool \<times> system" where
  "submit_job now h addr y =
     (let (ok, p) = Submit now h addr (pl_pool (y_pipe y)) in (ok, y\<lparr>y_pipe := (y_pipe y)\<lparr>pl_pool := p\<rparr>\<rparr>))"

text \<open>The loop of \<open>Run\<close> after the addition to the cache, or after the last flush.\<close>

definition proceed :: "(bytes \<Rightarrow> bytes) \<Rightarrow> goal \<Rightarrow> system \<Rightarrow> system" where
  "proceed v6 g y =
     (case g of
        FinishRun \<Rightarrow> y\<lparr>y_loop := ClosingStorage\<rparr>
      | Resume ev \<Rightarrow>
          (case ev_Type ev of
             EventGetPeers \<Rightarrow> y\<lparr>y_getPeers := y_getPeers y + 1, y_loop := Submitting ev (event_addrs v6 ev)\<rparr>
           | EventAnnounce \<Rightarrow> y\<lparr>y_announces := y_announces y + 1, y_loop := Submitting ev (event_addrs v6 ev)\<rparr>))"

definition count_hash :: "(bytes \<Rightarrow> bytes) \<Rightarrow> int \<Rightarrow> event \<Rightarrow> system \<Rightarrow> system" where
  "count_hash v6 now ev y =
     (let (due, c) = add_locked now (hash_of ev) (y_cache y);
          y1 = y\<lparr>y_cache := c, y_log := hash_of ev # y_log y\<rparr> in
      if due then y1\<lparr>y_loop := Flushing (Resume ev)\<rparr> else proceed v6 (Resume ev) y1)"

definition store_batch ::
  "tx_env \<Rightarrow> int \<Rightarrow> ((bytes \<times> int) list \<Rightarrow> (bytes \<times> int) list) \<Rightarrow> cache_items \<Rightarrow> system \<Rightarrow> system" where
  "store_batch env now ord its y =
     (let (_, c, s) = flush_store (tx_of y env) now ord its (y_cache y) (pl_storage (y_pipe y)) in
      y\<lparr>y_cache := c, y_pipe := (y_pipe y)\<lparr>pl_storage := s\<rparr>\<rparr>)"

definition set_search :: "nat \<Rightarrow> search \<Rightarrow> system \<Rightarrow> system" where
  "set_search i x y = y\<lparr>y_searches := (y_searches y)[i := x]\<rparr>"

definition end_search :: "nat \<Rightarrow> system \<Rightarrow> system" where
  "end_search i y = y\<lparr>y_searches := remove_nth i (y_searches y)\<rparr>"

text \<open>A search returns its slot when it ends.\<close>

definition leave_search :: "nat \<Rightarrow> system \<Rightarrow> system" where
  "leave_search i y = (end_search i y)\<lparr>y_slots := y_slots y + 1\<rparr>"

datatype sys_op =
    NodeOp nat node_op
  | Collect
  | LoopTakes
  | LoopCounts int
  | LoopFlushes
  | LoopStores tx_env int "(bytes \<times> int) list \<Rightarrow> (bytes \<times> int) list"
  | LoopSubmits int
  | LoopStops
  | LoopCloses
  | FlusherStarts
  | FlusherTakes bool
  | FlusherStores tx_env int "(bytes \<times> int) list \<Rightarrow> (bytes \<times> int) list"
  | SearchEnters nat
  | SearchChecks nat "go_error option"
  | SearchFinds nat "compact_peer list"
  | SearchSubmits nat int
  | PipeOp pipe_op

text \<open>The goroutines of the pool's nodes and of the pipeline act on their component.\<close>

definition dht_step :: "pool_op \<Rightarrow> system \<Rightarrow> system res" where
  "dht_step op y = (case pool_exec op (y_dht y) of Inl f \<Rightarrow> Inl f | Inr p \<Rightarrow> Inr (y\<lparr>y_dht := p\<rparr>))"

definition pipe_step :: "(bytes \<Rightarrow> info_hash) \<Rightarrow> (bytes \<Rightarrow> bytes) \<Rightarrow> pipe_op \<Rightarrow> system \<Rightarrow> system res" where
  "pipe_step sha1 v6 op y =
     (case pipe_exec sha1 v6 (pipe_op_of y op) (y_pipe y) of Inl f \<Rightarrow> Inl f | Inr pl \<Rightarrow> Inr (y\<lparr>y_pipe := pl\<rparr>))"

text \<open>The loop of \<open>Run\<close>.\<close>

fun loop_step :: "(bytes \<Rightarrow> bytes) \<Rightarrow> sys_op \<Rightarrow> system \<Rightarrow> system res" where
  "loop_step v6 LoopTakes y =
     (case (y_loop y, recv (p_eventChan (y_dht y))) of
        (Waiting, Some ev, c) \<Rightarrow> Inr (y\<lparr>y_dht := (y_dht y)\<lparr>p_eventChan := c\<rparr>, y_loop := Counting ev\<rparr>)
      | (Waiting, None, c) \<Rightarrow> Inr (if ch_closed (p_eventChan (y_dht y)) then y\<lparr>y_loop := Ended\<rparr> else y)
      | _ \<Rightarrow> Inr y)"
| "loop_step v6 (LoopCounts now) y =
     (case y_loop y of Counting ev \<Rightarrow> Inr (count_hash v6 now ev y) | _ \<Rightarrow> Inr y)"
| "loop_step v6 LoopFlushes y =
     (case y_loop y of
        Flushing g \<Rightarrow>
          (case flush_take (y_cache y) of
             None \<Rightarrow> Inr (proceed v6 g y)
           | Some (its, c) \<Rightarrow> Inr (y\<lparr>y_cache := c, y_loop := Storing g its\<rparr>))
      | _ \<Rightarrow> Inr y)"
| "loop_step v6 (LoopStores env now ord) y =
     (case y_loop y of
        Storing g its \<Rightarrow> Inr (proceed v6 g (store_batch env now ord its y))
      | _ \<Rightarrow> Inr y)"
| "loop_step v6 (LoopSubmits now) y =
     (case y_loop y of
        Submitting ev [] \<Rightarrow>
          Inr (y\<lparr>y_loop := Waiting,
                 y_searches := y_searches y @ (if ev_Type ev = EventGetPeers then [Entering (ev_InfoHash ev)] else [])\<rparr>)
      | Submitting ev (addr # addrs) \<Rightarrow>
          Inr ((snd (submit_job now (hash_of ev) addr y))\<lparr>y_loop := Submitting ev addrs\<rparr>)
      | _ \<Rightarrow> Inr y)"
| "loop_step v6 LoopStops y =
     (if y_loop y = Waiting \<and> pl_done (y_pipe y) then Inr (y\<lparr>y_loop := Flushing FinishRun\<rparr>) else Inr y)"
| "loop_step v6 LoopCloses y =
     (case y_loop y of
        ClosingStorage \<Rightarrow> Inr (y\<lparr>y_dbClosed := True, y_loop := StoppingPool\<rparr>)
      | StoppingPool \<Rightarrow>
          (case Stop_pool (y_dht y) of Inl f \<Rightarrow> Inl f | Inr p \<Rightarrow> Inr (y\<lparr>y_dht := p, y_loop := Ended\<rparr>))
      | _ \<Rightarrow> Inr y)"
| "loop_step v6 _ y = Inr y"

text \<open>
  \<open>StartFlusher\<close>, a goroutine of its own: it makes its ticker, which panics for an interval that is not
  positive; then a tick, or the final flush when the context is done, in its two halves.
\<close>

fun flusher_step :: "sys_op \<Rightarrow> system \<Rightarrow> system res" where
  "flusher_step FlusherStarts y =
     (if y_ticking y then Inr y
      else
        (case NewTicker (y_interval y) of
           Some x \<Rightarrow> Inl (Panic x)
         | None \<Rightarrow> Inr (y\<lparr>y_ticking := True\<rparr>)))"
| "flusher_step (FlusherTakes final) y =
     (if \<not> y_ticking y \<or> y_flusher y \<noteq> None \<or> y_flusher_gone y \<or> (final \<and> \<not> pl_done (y_pipe y)) then Inr y
      else
        (case flush_take (y_cache y) of
           None \<Rightarrow> Inr (y\<lparr>y_flusher_gone := final\<rparr>)
         | Some (its, c) \<Rightarrow> Inr (y\<lparr>y_cache := c, y_flusher := Some its, y_flusher_gone := final\<rparr>)))"
| "flusher_step (FlusherStores env now ord) y =
     (case y_flusher y of None \<Rightarrow> Inr y | Some its \<Rightarrow> Inr ((store_batch env now ord its y)\<lparr>y_flusher := None\<rparr>))"
| "flusher_step _ y = Inr y"

text \<open>\<open>searchAndDownload\<close>.\<close>

fun search_step :: "(bytes \<Rightarrow> bytes) \<Rightarrow> sys_op \<Rightarrow> system \<Rightarrow> system res" where
  "search_step v6 (SearchEnters i) y =
     (if i < length (y_searches y) then
        (case y_searches y ! i of
           Entering h \<Rightarrow>
             if y_slots y = 0 then Inr (end_search i y)
             else Inr (set_search i (Checking h) (y\<lparr>y_slots := y_slots y - 1\<rparr>))
         | _ \<Rightarrow> Inr y)
      else Inr y)"
| "search_step v6 (SearchChecks i err) y =
     (if i < length (y_searches y) then
        (case y_searches y ! i of
           Checking h \<Rightarrow>
             (case TorrentExists (db_err y err) (hex_encode (arr_bytes h)) (pl_storage (y_pipe y)) of
                Inr True \<Rightarrow> Inr (leave_search i y)
              | _ \<Rightarrow> Inr (set_search i (LookingUp h) y))
         | _ \<Rightarrow> Inr y)
      else Inr y)"
| "search_step v6 (SearchFinds i peers) y =
     (if i < length (y_searches y) then
        (case y_searches y ! i of
           LookingUp h \<Rightarrow> Inr (set_search i (SubmittingPeers h 0 peers) y)
         | _ \<Rightarrow> Inr y)
      else Inr y)"
| "search_step v6 (SearchSubmits i now) y =
     (if i < length (y_searches y) then
        (case y_searches y ! i of
           SubmittingPeers h submitted [] \<Rightarrow> Inr (leave_search i y)
         | SubmittingPeers h submitted (peer # peers) \<Rightarrow>
             let (ok, y1) = submit_job now (hex_encode (arr_bytes h)) (addr_string v6 (cp_IP peer) (cp_Port peer)) y in
             if ok then
               (if submitted + 1 \<ge> 3 then Inr (leave_search i y1)
                else Inr (set_search i (SubmittingPeers h (submitted + 1) peers) y1))
             else Inr (set_search i (SubmittingPeers h submitted peers) y1)
         | _ \<Rightarrow> Inr y)
      else Inr y)"
| "search_step v6 _ y = Inr y"

fun sys_exec :: "(bytes \<Rightarrow> info_hash) \<Rightarrow> (bytes \<Rightarrow> bytes) \<Rightarrow> sys_op \<Rightarrow> system \<Rightarrow> system res" where
  "sys_exec sha1 v6 (NodeOp i op) y = dht_step (OnNode i op) y"
| "sys_exec sha1 v6 Collect y = dht_step CollectStats y"
| "sys_exec sha1 v6 (PipeOp op) y = pipe_step sha1 v6 op y"
| "sys_exec sha1 v6 FlusherStarts y = flusher_step FlusherStarts y"
| "sys_exec sha1 v6 (FlusherTakes final) y = flusher_step (FlusherTakes final) y"
| "sys_exec sha1 v6 (FlusherStores env now ord) y = flusher_step (FlusherStores env now ord) y"
| "sys_exec sha1 v6 (SearchEnters i) y = search_step v6 (SearchEnters i) y"
| "sys_exec sha1 v6 (SearchChecks i err) y = search_step v6 (SearchChecks i err) y"
| "sys_exec sha1 v6 (SearchFinds i peers) y = search_step v6 (SearchFinds i peers) y"
| "sys_exec sha1 v6 (SearchSubmits i now) y = search_step v6 (SearchSubmits i now) y"
| "sys_exec sha1 v6 op y = loop_step v6 op y"

abbreviation sys_run ::
  "(bytes \<Rightarrow> info_hash) \<Rightarrow> (bytes \<Rightarrow> bytes) \<Rightarrow> sys_op list \<Rightarrow> system \<Rightarrow> system res" where
  "sys_run sha1 v6 \<equiv> run_ops (sys_exec sha1 v6)"

text \<open>
  What the environment may do: the nodes of the pool handle anything, but the events are taken by
  the loop and jobs are submitted by the loop and the searches; a map is traversed in some order;
  dialling a peer fails with an error or gives a connection.
\<close>

fun sys_op_ok :: "nat \<Rightarrow> sys_op \<Rightarrow> bool" where
  "sys_op_ok k (NodeOp i op) = (i < k \<and> op_ok op \<and> op \<noteq> TakeEvent)"
| "sys_op_ok k (LoopStores env now ord) = (\<forall>xs. mset (ord xs) = mset xs)"
| "sys_op_ok k (FlusherStores env now ord) = (\<forall>xs. mset (ord xs) = mset xs)"
| "sys_op_ok k (PipeOp op) = ((\<forall>now h peer. op \<noteq> PSubmit now h peer)
     \<and> (\<forall>i env. op = PFinish i env \<longrightarrow> (\<forall>j addr x. je_dial env j addr \<noteq> Inl (Panic x))))"
| "sys_op_ok k _ = True"

section \<open>What the pipeline stores\<close>

text \<open>
  What a decoded info dictionary says of its torrent: the name, and the files with their sizes. A path is
  kept as the parser writes it, the file name behind the directories from the innermost to the outermost.
\<close>

definition dict_name :: "gdict \<Rightarrow> bytes" where
  "dict_name d =
     (case GetString d (bs ''name'') of
        Some name \<Rightarrow> name
      | None \<Rightarrow> (case GetString d (bs ''name.utf-8'') of Some name \<Rightarrow> name | None \<Rightarrow> []))"

definition reversed_path :: "bytes list \<Rightarrow> bytes" where
  "reversed_path ps =
     (if ps = [] then [] else concat (map (\<lambda>p. p @ [ch CHR ''/'']) (rev (butlast ps))) @ last ps)"

definition entry_of :: "gdict \<Rightarrow> bytes \<times> int64" where
  "entry_of f =
     (case GetList f (bs ''path'') of None \<Rightarrow> [] | Some ps \<Rightarrow> reversed_path [b. GBytes b \<leftarrow> ps],
      case GetInt f (bs ''length'') of None \<Rightarrow> 0 | Some n \<Rightarrow> n)"

definition dict_files :: "gdict \<Rightarrow> (bytes \<times> int64) list" where
  "dict_files d =
     (case GetList d (bs ''files'') of
        Some fs \<Rightarrow> map entry_of [f. GDict f \<leftarrow> fs]
      | None \<Rightarrow> (case GetInt d (bs ''length'') of Some n \<Rightarrow> [(dict_name d, n)] | None \<Rightarrow> []))"

lemma join_path_reversed: "join_path ps = reversed_path ps"
  using join_path_components [of ps] by (cases "ps = []") (simp_all add: reversed_path_def join_path_def)

lemma path_parts_bytes: "path_parts ps = [b. GBytes b \<leftarrow> ps]"
  by (induction ps) (simp_all split: gval.split)

lemma file_of_entry: "file_of f = \<lparr>fi_Path = fst (entry_of f), fi_Size = snd (entry_of f)\<rparr>"
  by (simp add: file_of_def entry_of_def join_path_reversed path_parts_bytes split: option.split)

lemma parsed_dict:
  assumes "parseMetadata h raw = Inr meta"
  obtains d where "DecodeDict raw = Inr d" "tm_Name meta = dict_name d"
    "tm_Size meta = (\<Sum>f \<leftarrow> dict_files d. snd f)" "map fi_Path (tm_Files meta) = map fst (dict_files d)"
proof -
  have files: "map fi_Path (concat (map (\<lambda>f. case f of GDict d \<Rightarrow> [file_of d] | _ \<Rightarrow> []) fs))
      = map fst (map entry_of [f. GDict f \<leftarrow> fs])"
    "(\<Sum>f \<leftarrow> fs. case f of GDict d \<Rightarrow> fi_Size (file_of d) | _ \<Rightarrow> 0)
      = (\<Sum>f \<leftarrow> map entry_of [f. GDict f \<leftarrow> fs]. snd f)" for fs
    by (induction fs) (simp_all add: file_of_entry split: gval.split)
  obtain d where d: "DecodeDict raw = Inr d" using assms by (auto simp: parseMetadata_def split: sum.splits)
  show thesis
  proof (rule that [OF d])
    show "tm_Name meta = dict_name d" "tm_Size meta = (\<Sum>f \<leftarrow> dict_files d. snd f)"
      "map fi_Path (tm_Files meta) = map fst (dict_files d)"
      using assms files by (auto simp: parseMetadata_def d files_loop_value dict_name_def dict_files_def Let_def
          split: option.splits)
  qed
qed

text \<open>
  A row that is stored under the hash of an info dictionary and shows what that dictionary decodes to:
  the name, the total size modulo \<open>2 ^ 64\<close>, the paths, joined by spaces, and the number of files.
\<close>

definition verified_row :: "(bytes \<Rightarrow> info_hash) \<Rightarrow> torrent_row \<Rightarrow> bool" where
  "verified_row sha1 row \<longleftrightarrow>
     (\<exists>raw d. t_info_hash row = hex_encode (arr_bytes (sha1 raw)) \<and> DecodeDict raw = Inr d
        \<and> t_name row = dict_name d \<and> t_size row = sint (\<Sum>f \<leftarrow> dict_files d. snd f)
        \<and> t_files row = join_space (map fst (dict_files d)) \<and> t_file_count row = int (length (dict_files d)))"

definition is_hash :: "bytes \<Rightarrow> bool" where
  "is_hash h \<longleftrightarrow> (\<exists>x :: info_hash. h = hex_encode (arr_bytes x))"

lemma is_hashI [simp]: "is_hash (hex_encode (arr_bytes x))"
  by (auto simp: is_hash_def)

lemma is_hash_of [simp]: "is_hash (hash_of ev)"
  by (simp add: hash_of_def)

lemma row_count_other: "h \<noteq> k \<Longrightarrow> row_count (filter (\<lambda>r. h_InfoHash r \<noteq> k) rows) h = row_count rows h"
  by (induction rows) (auto simp: row_count_def)

lemma finish_job_storage:
  assumes "finish_job sha1 v6 env job p s = Inr (p', s')" and "is_hash (j_infoHash job)"
  obtains (same) "s' = s"
  | (stored) row where "verified_row sha1 row" "t_info_hash row = j_infoHash job"
      "torrents s' = filter (\<lambda>r. t_info_hash r \<noteq> j_infoHash job) (torrents s) @ [row]"
      "\<And>h. h \<noteq> j_infoHash job \<Longrightarrow> db_count s' h = db_count s h"
  using assms(1)
proof (cases rule: finish_job_cases)
  case (fetched b meta addr k q)
  let ?h = "j_infoHash job"
  obtain x :: info_hash where x: "?h = hex_encode (arr_bytes x)" using assms(2) by (auto simp: is_hash_def)
  then have "b = arr_bytes x" using fetched(1) hex_decode_encode [of "arr_bytes x"] by simp
  then have b: "arr20_of b = x" by (simp only: arr20_of_arr_bytes)
  from fetched(4) [symmetric] show thesis
  proof (cases rule: save_cases)
    case stored
    let ?row = "\<lparr>t_info_hash = ?h, t_name = tm_Name meta, t_size = sint (tm_Size meta),
      t_files = join_space (map fi_Path (tm_Files meta)), t_file_count = int (length (tm_Files meta)),
      t_created_at = Unix (je_now env), t_req_count = 1\<rparr>"
    have "torrents s' = filter (\<lambda>r. t_info_hash r \<noteq> ?h) (torrents s) @ [?row]"
      by (cases "tm_Files meta") (simp_all add: stored(5) DeleteHash_def InsertTorrent_def record_of_meta_def comp_def split: option.split)
    moreover have "verified_row sha1 ?row"
    proof -
      from fetched(3) obtain raw where raw: "sha1 raw = x" "parseMetadata x raw = Inr meta"
        using Download_Inr [OF fetched(3)] unfolding b by metis
      from raw(2) obtain d where d: "DecodeDict raw = Inr d" "tm_Name meta = dict_name d"
        "tm_Size meta = (\<Sum>f \<leftarrow> dict_files d. snd f)" "map fi_Path (tm_Files meta) = map fst (dict_files d)"
        by (rule parsed_dict)
      from arg_cong [OF d(4), of length] have "length (tm_Files meta) = length (dict_files d)" by simp
      with raw d x show ?thesis by (auto simp: verified_row_def)
    qed
    moreover have "db_count s' h = db_count s h" if "h \<noteq> ?h" for h
      using that by (simp add: stored(5) DeleteHash_def InsertTorrent_def Let_def db_count_def row_count_other
          split: option.split)
    ultimately show thesis using that(2) by simp
  qed (use that in blast)
qed (use that in blast)+

lemma try_peers_Inl:
  "try_peers sha1 d hex h env i e peers = Inl f \<Longrightarrow> 8 \<le> length hex \<Longrightarrow>
    \<exists>k addr x. addr \<in> set peers \<and> Download sha1 d h (je_dial env k addr) = Inl (Panic x) \<and> f = Panic x"
proof (induction peers arbitrary: i e)
  case (Cons addr peers)
  show ?case
  proof (cases "\<exists>x. Download sha1 d h (je_dial env i addr) = Inl (Panic x)")
    case True
    then show ?thesis using Cons.prems by (auto split: if_splits)
  next
    case False
    then obtain e' where "try_peers sha1 d hex h env (i + 1) (Some e') peers = Inl f"
      using Cons.prems by (auto simp: log8_def split: if_splits sum.splits fault.splits)
    from Cons.IH [OF this Cons.prems(2)] show ?thesis by auto
  qed
qed simp

text \<open>A job for a hash panics only inside a download.\<close>

lemma finish_job_panics:
  assumes "finish_job sha1 v6 env job p s = Inl f" and "j_infoHash job = hex_encode (arr_bytes x)"
  shows "\<exists>k addr c. addr \<in> set (job_peers v6 env job) \<and> f = Panic c
    \<and> Download sha1 (wp_downloader p) x (je_dial env k addr) = Inl (Panic c)"
proof -
  have d: "hex_decode (j_infoHash job) = Inr (arr_bytes x)" "arr20_of (arr_bytes x) = x" "8 \<le> length (j_infoHash job)"
    using assms(2) by (simp_all add: hex_decode_encode)
  then have "try_peers sha1 (wp_downloader p) (j_infoHash job) x env 0 None (job_peers v6 env job) = Inl f"
    using assms(1) by (auto simp: finish_job_def Let_def log8_def split: if_splits sum.splits attempt.splits prod.splits)
  from try_peers_Inl [OF this d(3)] show ?thesis by blast
qed

section \<open>Jobs are hashes with an address\<close>

definition jobs_of :: "pipeline \<Rightarrow> download_job list" where
  "jobs_of pl =
     (case pl_feeding pl of None \<Rightarrow> [] | Some j \<Rightarrow> [j]) @ ch_buf (wp_jobs (pl_pool pl))
     @ map snd (pl_held pl) @ map snd (pl_spawned pl) @ map snd (pl_active pl)"

definition jobs_named :: "pipeline \<Rightarrow> bool" where
  "jobs_named pl \<longleftrightarrow> (\<forall>h \<in> set (map di_infoHash (q_items (wp_queue (pl_pool pl)))). is_hash h)
     \<and> (\<forall>j \<in> set (jobs_of pl). is_hash (j_infoHash j) \<and> j_peerAddr j \<noteq> [])"

lemma jobs_named_moved:
  assumes "jobs_named pl" and "set (q_items (wp_queue (pl_pool pl'))) \<subseteq> set (q_items (wp_queue (pl_pool pl)))"
    and "set (jobs_of pl') \<subseteq> set (jobs_of pl)"
  shows "jobs_named pl'"
  using assms by (auto simp: jobs_named_def)

lemma map_snd_remove_nth: "set (map snd (remove_nth i xs)) \<subseteq> set (map snd xs)"
  using set_remove_nth [of i xs] by auto

lemma jobs_named_step:
  assumes "jobs_named pl" and "pipe_exec sha1 v6 op pl = Inr pl'"
    and "\<And>now h peer. op = PSubmit now h peer \<Longrightarrow> is_hash h"
  shows "jobs_named pl'"
proof (cases "pl' = pl")
  case False
  note changed = this
  note moved = jobs_named_moved [OF assms(1), of pl']
  show ?thesis
  proof (cases op)
    case (PSubmit now h peer)
    then have e: "pl' = pl\<lparr>pl_pool := (pl_pool pl)\<lparr>wp_queue := snd (Add now h peer (wp_queue (pl_pool pl)))\<rparr>\<rparr>"
      using assms(2) by (auto simp: Submit_def split: prod.splits)
    then show ?thesis using assms(1,3) PSubmit
      by (cases rule: Add_cases [of now h peer "wp_queue (pl_pool pl)"]) (auto simp: jobs_named_def jobs_of_def)
  next
    case (PFeed err)
    then obtain j p where f: "feed err (pl_storage pl) (pl_pool pl) = (j, p)" "pl_feeding pl = None"
      and e: "pl' = pl\<lparr>pl_pool := p, pl_feeding := j\<rparr>"
      using assms(2) changed by (auto split: prod.splits if_splits)
    from f(1) show ?thesis
      by (cases rule: feed_cases) (use assms(1) e f(2) in \<open>auto simp: jobs_named_def jobs_of_def complete_def Complete_def\<close>)
  next
    case PSend
    then obtain j ok c where j: "pl_feeding pl = Some j" and t: "try_send j (wp_jobs (pl_pool pl)) = Inr (ok, c)"
      and e: "pl' = pl\<lparr>pl_pool := (pl_pool pl)\<lparr>wp_jobs := c\<rparr>, pl_feeding := (if ok then None else Some j)\<rparr>"
      using assms(2) changed by (auto split: sum.splits option.splits)
    then show ?thesis by (intro moved) (auto simp: jobs_of_def try_send_Inr)
  next
    case (PHand w)
    then obtain j where "pl_feeding pl = Some j" "pl' = pl\<lparr>pl_feeding := None, pl_held := pl_held pl @ [(w, j)]\<rparr>"
      using assms(2) changed by (auto split: option.splits if_splits)
    then show ?thesis by (intro moved) (auto simp: jobs_of_def)
  next
    case (PTake w)
    then obtain j js where b: "ch_buf (wp_jobs (pl_pool pl)) = j # js"
      using assms(2) changed by (auto simp: recv_def split: if_splits list.splits)
    then have "pl' = pl\<lparr>pl_pool := (pl_pool pl)\<lparr>wp_jobs := (wp_jobs (pl_pool pl))\<lparr>ch_buf := js\<rparr>\<rparr>,
        pl_held := pl_held pl @ [(w, j)]\<rparr>"
      using assms(2) PTake changed by (auto simp: recv_def split: if_splits)
    with b show ?thesis by (intro moved) (auto simp: jobs_of_def)
  next
    case (PAcquire i)
    then have "i < length (pl_held pl)"
      and "pl' = pl\<lparr>pl_held := remove_nth i (pl_held pl), pl_spawned := pl_spawned pl @ [pl_held pl ! i]\<rparr>"
      using assms(2) changed by (auto split: if_splits)
    then show ?thesis using map_snd_remove_nth [of i "pl_held pl"]
      by (intro moved) (auto simp: jobs_of_def)
  next
    case (PStart i)
    then have "i < length (pl_spawned pl)"
      and "pl' = pl\<lparr>pl_pool := start_job (pl_pool pl), pl_spawned := remove_nth i (pl_spawned pl),
          pl_active := pl_active pl @ [pl_spawned pl ! i]\<rparr>"
      using assms(2) changed by (auto split: if_splits)
    then show ?thesis using map_snd_remove_nth [of i "pl_spawned pl"]
      by (intro moved) (auto simp: jobs_of_def start_job_def)
  next
    case (PFinish i env)
    then obtain p s where f: "finish_job sha1 v6 env (snd (pl_active pl ! i)) (pl_pool pl) (pl_storage pl) = Inr (p, s)"
      and e: "pl' = pl\<lparr>pl_pool := p, pl_storage := s, pl_active := remove_nth i (pl_active pl)\<rparr>"
      using assms(2) changed by (auto split: sum.splits if_splits)
    then show ?thesis using finish_job_queue [OF f] map_snd_remove_nth [of i "pl_active pl"]
      by (intro moved) (auto simp: jobs_of_def Complete_def)
  next
    case PCancel
    then show ?thesis using assms(2) by (intro moved) (auto simp: jobs_of_def)
  next
    case PClose
    then show ?thesis using assms(2) by (intro moved) (auto simp: jobs_of_def close_chan_def split: if_splits)
  next
    case (PReturn i)
    then have "pl' = pl\<lparr>pl_held := remove_nth i (pl_held pl), pl_exited := fst (pl_held pl ! i) # pl_exited pl\<rparr>"
      using assms(2) changed by (auto split: if_splits)
    then show ?thesis using map_snd_remove_nth [of i "pl_held pl"] by (intro moved) (auto simp: jobs_of_def)
  next
    case PFeederStops
    then show ?thesis using assms(2) by (intro moved) (auto simp: jobs_of_def split: if_splits)
  qed
qed (use assms in simp)

section \<open>What a step touches\<close>

lemma proceed_fields [simp]:
  "y_dht (proceed v6 g y) = y_dht y" "y_cache (proceed v6 g y) = y_cache y" "y_pipe (proceed v6 g y) = y_pipe y"
  "y_slots (proceed v6 g y) = y_slots y" "y_flusher (proceed v6 g y) = y_flusher y"
  "y_searches (proceed v6 g y) = y_searches y" "y_log (proceed v6 g y) = y_log y"
  "y_dbClosed (proceed v6 g y) = y_dbClosed y" "y_flusher_gone (proceed v6 g y) = y_flusher_gone y"
  by (simp_all add: proceed_def split: goal.split event_type.split)

lemma count_hash_fields [simp]:
  "y_dht (count_hash v6 now ev y) = y_dht y" "y_pipe (count_hash v6 now ev y) = y_pipe y"
  "y_cache (count_hash v6 now ev y) = snd (add_locked now (hash_of ev) (y_cache y))"
  "y_slots (count_hash v6 now ev y) = y_slots y" "y_flusher (count_hash v6 now ev y) = y_flusher y"
  "y_searches (count_hash v6 now ev y) = y_searches y" "y_log (count_hash v6 now ev y) = hash_of ev # y_log y"
  by (simp_all add: count_hash_def Let_def split: prod.split)

lemma store_batch_fields [simp]:
  "y_dht (store_batch env now ord its y) = y_dht y" "y_slots (store_batch env now ord its y) = y_slots y"
  "y_flusher (store_batch env now ord its y) = y_flusher y" "y_searches (store_batch env now ord its y) = y_searches y"
  "y_log (store_batch env now ord its y) = y_log y" "y_loop (store_batch env now ord its y) = y_loop y"
  by (simp_all add: store_batch_def split: prod.split)

lemma store_batch_pipe:
  "\<exists>s. y_pipe (store_batch env now ord its y) = (y_pipe y)\<lparr>pl_storage := s\<rparr>
     \<and> torrents s = torrents (pl_storage (y_pipe y))"
  using InsertHashes_torrents by (fastforce simp: store_batch_def flush_store_def split: prod.splits option.splits)

lemma search_fields [simp]:
  "y_dht (set_search i x y) = y_dht y" "y_cache (set_search i x y) = y_cache y" "y_pipe (set_search i x y) = y_pipe y"
  "y_slots (set_search i x y) = y_slots y" "y_flusher (set_search i x y) = y_flusher y"
  "y_log (set_search i x y) = y_log y" "y_loop (set_search i x y) = y_loop y"
  "y_dht (end_search i y) = y_dht y" "y_cache (end_search i y) = y_cache y" "y_pipe (end_search i y) = y_pipe y"
  "y_slots (end_search i y) = y_slots y" "y_flusher (end_search i y) = y_flusher y"
  "y_log (end_search i y) = y_log y" "y_loop (end_search i y) = y_loop y"
  "y_dht (leave_search i y) = y_dht y" "y_cache (leave_search i y) = y_cache y" "y_pipe (leave_search i y) = y_pipe y"
  "y_slots (leave_search i y) = y_slots y + 1" "y_flusher (leave_search i y) = y_flusher y"
  "y_log (leave_search i y) = y_log y" "y_loop (leave_search i y) = y_loop y"
  by (simp_all add: set_search_def end_search_def leave_search_def)

lemma submit_job_fields [simp]:
  "y_dht (snd (submit_job now h a y)) = y_dht y" "y_cache (snd (submit_job now h a y)) = y_cache y"
  "y_slots (snd (submit_job now h a y)) = y_slots y" "y_flusher (snd (submit_job now h a y)) = y_flusher y"
  "y_searches (snd (submit_job now h a y)) = y_searches y" "y_log (snd (submit_job now h a y)) = y_log y"
  "y_loop (snd (submit_job now h a y)) = y_loop y"
  "y_pipe (snd (submit_job now h a y)) = (y_pipe y)\<lparr>pl_pool := snd (Submit now h a (pl_pool (y_pipe y)))\<rparr>"
  by (simp_all add: submit_job_def split: prod.split)

lemma search_submits_cases:
  assumes "search_step v6 (SearchSubmits i now) y = Inr y'"
  obtains (idle) "y' = y"
  | (left) h n where "i < length (y_searches y)" "y_searches y ! i = SubmittingPeers h n []" "y' = leave_search i y"
  | (submitted) h n peer peers z where "i < length (y_searches y)"
      "y_searches y ! i = SubmittingPeers h n (peer # peers)"
      "z = snd (submit_job now (hex_encode (arr_bytes h)) (addr_string v6 (cp_IP peer) (cp_Port peer)) y)"
      "y' = leave_search i z \<or> y' = set_search i (SubmittingPeers h (n + 1) peers) z
        \<or> y' = set_search i (SubmittingPeers h n peers) z"
proof (cases "i < length (y_searches y)")
  case True
  show thesis
  proof (cases "y_searches y ! i")
    case (SubmittingPeers h n ps)
    show thesis
    proof (cases ps)
      case Nil
      then show thesis using assms left True SubmittingPeers by simp
    next
      case (Cons peer peers)
      let ?j = "submit_job now (hex_encode (arr_bytes h)) (addr_string v6 (cp_IP peer) (cp_Port peer)) y"
      have "y' = leave_search i (snd ?j) \<or> y' = set_search i (SubmittingPeers h (n + 1) peers) (snd ?j)
          \<or> y' = set_search i (SubmittingPeers h n peers) (snd ?j)"
        using assms True SubmittingPeers Cons by (auto simp: Let_def split: prod.splits if_splits)
      then show thesis using submitted [of h n peer peers "snd ?j"] True SubmittingPeers Cons by simp
    qed
  qed (use assms idle True in auto)
qed (use assms idle in simp)

text \<open>The pipeline sees a step of its own, a submission, or another content of the table of hashes.\<close>

lemma sys_pipe_cases:
  assumes "sys_exec sha1 v6 op y = Inr y'" and "sys_op_ok k op"
  obtains (step) pop where "pipe_exec sha1 v6 pop (y_pipe y) = Inr (y_pipe y')"
      "\<And>now h peer. pop = PSubmit now h peer \<Longrightarrow> is_hash h"
      "y_cache y' = y_cache y" "y_loop y' = y_loop y \<or> y_flusher y' = y_flusher y"
  | (hashes) s where "y_pipe y' = (y_pipe y)\<lparr>pl_storage := s\<rparr>" "torrents s = torrents (pl_storage (y_pipe y))"
proof -
  have same: thesis if "y_pipe y' = y_pipe y" using that hashes [of "pl_storage (y_pipe y)"] by simp
  have sub: thesis if "is_hash h" "y_pipe y' = y_pipe (snd (submit_job now h a y))" "y_cache y' = y_cache y"
      "y_flusher y' = y_flusher y" for now h a
    using that by (intro step [of "PSubmit now h a"]) auto
  show thesis
  proof (cases op)
    case (PipeOp pop)
    then obtain pl where pl: "pipe_exec sha1 v6 (pipe_op_of y pop) (y_pipe y) = Inr pl" "y' = y\<lparr>y_pipe := pl\<rparr>"
      using assms(1) by (auto simp: pipe_step_def split: sum.splits)
    moreover have "pipe_op_of y pop \<noteq> PSubmit now h peer" for now h peer
      using assms(2) PipeOp by (cases pop) auto
    ultimately show ?thesis by (intro step [of "pipe_op_of y pop"]) auto
  next
    case (LoopStores env now ord)
    show ?thesis
    proof (cases "\<exists>g its. y_loop y = Storing g its")
      case True
      then obtain g its where "y' = proceed v6 g (store_batch env now ord its y)" using assms(1) LoopStores by auto
      then show ?thesis using store_batch_pipe [of env now ord its y] hashes by auto
    qed (use assms(1) LoopStores same in \<open>auto split: loop.splits\<close>)
  next
    case (FlusherStores env now ord)
    show ?thesis
    proof (cases "y_flusher y")
      case (Some its)
      then have "y' = (store_batch env now ord its y)\<lparr>y_flusher := None\<rparr>" using assms(1) FlusherStores by simp
      then show ?thesis using store_batch_pipe [of env now ord its y] hashes by auto
    qed (use assms(1) FlusherStores same in auto)
  next
    case (LoopSubmits now)
    show ?thesis
    proof (cases "\<exists>ev a as. y_loop y = Submitting ev (a # as)")
      case True
      then obtain ev a as where "y' = (snd (submit_job now (hash_of ev) a y))\<lparr>y_loop := Submitting ev as\<rparr>"
        using assms(1) LoopSubmits by auto
      then show ?thesis by (intro sub [of "hash_of ev" now a]) auto
    qed (use assms(1) LoopSubmits same in \<open>auto split: loop.splits list.splits\<close>)
  next
    case (SearchSubmits i now)
    then have "search_step v6 (SearchSubmits i now) y = Inr y'" using assms(1) by simp
    then show ?thesis
    proof (cases rule: search_submits_cases)
      case (submitted h n peer peers z)
      then show ?thesis
        by (intro sub [of "hex_encode (arr_bytes h)" now "addr_string v6 (cp_IP peer) (cp_Port peer)"]) auto
    qed (use same in auto)
  qed (use assms(1) same in \<open>auto simp: dht_step_def split: sum.splits loop.splits option.splits prod.splits search.splits if_splits bool.splits\<close>)
qed

section \<open>The invariant\<close>

definition in_flush :: "system \<Rightarrow> cache_items list" where
  "in_flush y = (case y_flusher y of None \<Rightarrow> [] | Some b \<Rightarrow> [b]) @ (case y_loop y of Storing g b \<Rightarrow> [b] | _ \<Rightarrow> [])"

text \<open>The requests on record for a hash: in the cache, in a batch being flushed, in the database.\<close>

definition requests :: "system \<Rightarrow> bytes \<Rightarrow> int" where
  "requests y h = item_count (items (y_cache y)) h + (\<Sum>b \<leftarrow> in_flush y. item_count b h)
     + db_count (pl_storage (y_pipe y)) h"

definition stored_hashes :: "system \<Rightarrow> bytes set" where
  "stored_hashes y = t_info_hash ` set (torrents (pl_storage (y_pipe y)))"

text \<open>A search that holds a slot.\<close>

fun holds_slot :: "search \<Rightarrow> bool" where
  "holds_slot (Entering h) = False"
| "holds_slot _ = True"

definition dht_ok :: "nat \<Rightarrow> system \<Rightarrow> bool" where
  "dht_ok k y \<longleftrightarrow> wf_pool (y_dht y) \<and> length (p_nodes (y_dht y)) = k
     \<and> (ch_closed (p_eventChan (y_dht y)) \<longrightarrow> y_loop y = Ended)"

definition pipeline_ok :: "system \<Rightarrow> bool" where
  "pipeline_ok y \<longleftrightarrow> pipe_ok (y_pipe y) \<and> workers_ok (y_pipe y) \<and> jobs_named (y_pipe y)
     \<and> wp_downloader (pl_pool (y_pipe y)) = NewMetadataDownloader
     \<and> (ch_closed (wp_jobs (pl_pool (y_pipe y))) \<longrightarrow> pl_done (y_pipe y))"

definition searches_ok :: "system \<Rightarrow> bool" where
  "searches_ok y \<longleftrightarrow> length (filter holds_slot (y_searches y)) + y_slots y = 10"

definition rows_ok :: "(bytes \<Rightarrow> info_hash) \<Rightarrow> system \<Rightarrow> bool" where
  "rows_ok sha1 y \<longleftrightarrow> (\<forall>row \<in> set (torrents (pl_storage (y_pipe y))). verified_row sha1 row)"

text \<open>\<open>s0\<close> and \<open>t0\<close> are the database and the counter \<open>totalAdded\<close> at the start.\<close>

definition counts_ok :: "storage \<Rightarrow> uint64 \<Rightarrow> system \<Rightarrow> bool" where
  "counts_ok s0 t0 y \<longleftrightarrow> distinct (map fst (items (y_cache y)))
     \<and> totalAdded (y_cache y) = t0 + of_nat (length (y_log y))
     \<and> (\<forall>h. h \<notin> stored_hashes y \<longrightarrow> requests y h = db_count s0 h + int (count_list (y_log y) h))"

subsection \<open>The nodes\<close>

lemma pool_exec_closed:
  assumes "pool_exec op p = Inr p'" and "op \<noteq> StopPool"
  shows "ch_closed (p_eventChan p') = ch_closed (p_eventChan p)"
proof (cases op)
  case (OnNode i nop)
  then obtain n where "exec nop (node_at p i) = Inr n" "p' = set_node i n p"
    using assms(1) by (auto split: sum.splits)
  then show ?thesis using exec_chan by (fastforce simp: same_chan_def set_node_def node_at_def)
qed (use assms in \<open>auto simp: collect_stats_def recv_def split: list.splits\<close>)

lemma dht_ok_pool:
  assumes "dht_ok k y" and "pool_exec op (y_dht y) = Inr (y_dht y')" and "pool_op_ok k op" and "op \<noteq> StopPool"
    and "y_loop y' = y_loop y \<or> y_loop y \<noteq> Ended"
  shows "dht_ok k y'"
  using wf_pool_step [OF _ _ assms(2)] pool_exec_closed [OF assms(2,4)] assms(1,3,5)
  by (fastforce simp: dht_ok_def dest: map_eq_imp_length_eq)

lemma dht_ok_same: "dht_ok k y \<Longrightarrow> y_dht y' = y_dht y \<Longrightarrow> y_loop y \<noteq> Ended \<or> y_loop y' = y_loop y \<Longrightarrow> dht_ok k y'"
  by (auto simp: dht_ok_def)

lemma dht_ok_step:
  assumes "dht_ok k y" and "sys_exec sha1 v6 op y = Inr y'" and "sys_op_ok k op"
  shows "dht_ok k y'"
proof -
  note same = dht_ok_same [OF assms(1), of y']
  show ?thesis
  proof (cases op)
    case (NodeOp i nop)
    then show ?thesis using assms(2,3)
      by (intro dht_ok_pool [OF assms(1), of "OnNode i nop"]) (auto simp: dht_step_def split: sum.splits)
  next
    case Collect
    then show ?thesis using assms(2)
      by (intro dht_ok_pool [OF assms(1), of CollectStats]) (auto simp: dht_step_def)
  next
    case LoopTakes
    show ?thesis
    proof (cases "y_loop y")
      case Waiting
      then have "y_dht y' = (y_dht y)\<lparr>p_eventChan := snd (recv (p_eventChan (y_dht y)))\<rparr> \<or> y_dht y' = y_dht y"
        using assms(2) LoopTakes by (auto split: option.splits prod.splits)
      then show ?thesis
      proof
        assume "y_dht y' = (y_dht y)\<lparr>p_eventChan := snd (recv (p_eventChan (y_dht y)))\<rparr>"
        then show ?thesis using Waiting by (intro dht_ok_pool [OF assms(1), of NextEvent]) simp_all
      qed (use same Waiting in auto)
    qed (use assms LoopTakes in auto)
  next
    case LoopCloses
    show ?thesis
    proof (cases "y_loop y = StoppingPool")
      case True
      then obtain p where p: "pool_exec StopPool (y_dht y) = Inr p" "y' = y\<lparr>y_dht := p, y_loop := Ended\<rparr>"
        using assms(2) LoopCloses by (auto split: sum.splits)
      then show ?thesis using wf_pool_step [OF _ _ p(1)] assms(1)
        by (auto simp: dht_ok_def dest: map_eq_imp_length_eq)
    next
      case False
      then show ?thesis using assms(2) LoopCloses by (intro same) (auto split: loop.splits)
    qed
  next
    case (SearchSubmits i now)
    then have "search_step v6 (SearchSubmits i now) y = Inr y'" using assms(2) by simp
    then show ?thesis by (cases rule: search_submits_cases) (intro same; auto)+
  qed (use assms(2) in \<open>intro same; auto simp: pipe_step_def split: loop.splits option.splits prod.splits sum.splits search.splits if_splits bool.splits list.splits\<close>)+
qed

subsection \<open>The pipeline\<close>

lemma closed_done_step:
  "pipe_exec sha1 v6 op pl = Inr pl' \<Longrightarrow> (ch_closed (wp_jobs (pl_pool pl)) \<longrightarrow> pl_done pl) \<Longrightarrow>
    ch_closed (wp_jobs (pl_pool pl')) \<longrightarrow> pl_done pl'"
proof (cases op)
  case (PFeed err)
  assume a: "pipe_exec sha1 v6 op pl = Inr pl'" "ch_closed (wp_jobs (pl_pool pl)) \<longrightarrow> pl_done pl"
  obtain j p where f: "feed err (pl_storage pl) (pl_pool pl) = (j, p)" by force
  then have "wp_jobs p = wp_jobs (pl_pool pl)" by (cases rule: feed_cases) (simp_all add: complete_def)
  then show ?thesis using a f PFeed by (auto split: if_splits)
next
  case (PFinish i env)
  assume a: "pipe_exec sha1 v6 op pl = Inr pl'" "ch_closed (wp_jobs (pl_pool pl)) \<longrightarrow> pl_done pl"
  then show ?thesis using PFinish finish_job_queue by (fastforce split: if_splits sum.splits)
qed (auto simp: Submit_def start_job_def close_chan_def recv_def try_send_Inr
    split: if_splits prod.splits option.splits sum.splits list.splits)

lemma pipeline_ok_step:
  assumes "pipeline_ok y" and "sys_exec sha1 v6 op y = Inr y'" and "sys_op_ok k op"
  shows "pipeline_ok y'"
  using assms(2,3)
proof (cases rule: sys_pipe_cases)
  case (step pop)
  then show ?thesis
    using assms(1) pipe_ok_step workers_ok_step jobs_named_step closed_done_step pipe_exec_config
    unfolding pipeline_ok_def by metis
next
  case (hashes s)
  then show ?thesis using assms(1)
    by (simp add: pipeline_ok_def pipe_ok_def workers_ok_def jobs_named_def tokens_def jobs_of_def downloads_of_def)
qed

subsection \<open>The searches\<close>

lemma filter_update_length:
  "i < length xs \<Longrightarrow> length (filter P (xs[i := x])) + (if P (xs ! i) then 1 else 0)
    = length (filter P xs) + (if P x then 1 else 0)"
proof (induction xs arbitrary: i)
  case (Cons a xs)
  then show ?case by (cases i) auto
qed simp

lemma filter_remove_length:
  "i < length xs \<Longrightarrow> length (filter P (remove_nth i xs)) + (if P (xs ! i) then 1 else 0) = length (filter P xs)"
  by (subst (3) id_take_nth_drop [of i xs]) (simp_all add: remove_nth_def)

lemma searches_ok_set:
  assumes "searches_ok y" and "i < length (y_searches y)" and "holds_slot (y_searches y ! i)" and "holds_slot x"
    and "y_searches z = y_searches y" and "y_slots z = y_slots y"
  shows "searches_ok (set_search i x z)"
  using assms filter_update_length [of i "y_searches y" holds_slot x] by (simp add: searches_ok_def set_search_def)

lemma searches_ok_leave:
  assumes "searches_ok y" and "i < length (y_searches y)" and "holds_slot (y_searches y ! i)"
    and "y_searches z = y_searches y" and "y_slots z = y_slots y"
  shows "searches_ok (leave_search i z)"
  using assms filter_remove_length [of i "y_searches y" holds_slot]
  by (simp add: searches_ok_def leave_search_def end_search_def)

lemma searches_ok_step:
  assumes "searches_ok y" and "sys_exec sha1 v6 op y = Inr y'"
  shows "searches_ok y'"
proof (cases op)
  case (SearchEnters i)
  show ?thesis
  proof (cases "i < length (y_searches y) \<and> (\<exists>h. y_searches y ! i = Entering h)")
    case True
    then obtain h where h: "i < length (y_searches y)" "y_searches y ! i = Entering h" by blast
    then show ?thesis using assms SearchEnters filter_remove_length [of i "y_searches y" holds_slot]
        filter_update_length [of i "y_searches y" holds_slot "Checking h"]
      by (auto simp: searches_ok_def end_search_def set_search_def split: if_splits)
  qed (use assms SearchEnters in \<open>auto split: search.splits if_splits\<close>)
next
  case (SearchChecks i err)
  show ?thesis
  proof (cases "i < length (y_searches y) \<and> (\<exists>h. y_searches y ! i = Checking h)")
    case True
    then obtain h where h: "i < length (y_searches y)" "y_searches y ! i = Checking h" by blast
    then have "y' = leave_search i y \<or> y' = set_search i (LookingUp h) y"
      using assms(2) SearchChecks by (auto split: sum.splits bool.splits)
    then show ?thesis using searches_ok_leave [OF assms(1) h(1)] searches_ok_set [OF assms(1) h(1)] h(2) by auto
  qed (use assms SearchChecks in \<open>auto split: search.splits if_splits\<close>)
next
  case (SearchFinds i peers)
  show ?thesis
  proof (cases "i < length (y_searches y) \<and> (\<exists>h. y_searches y ! i = LookingUp h)")
    case True
    then show ?thesis using assms SearchFinds by (auto intro!: searches_ok_set)
  qed (use assms SearchFinds in \<open>auto split: search.splits if_splits\<close>)
next
  case (SearchSubmits i now)
  then have "search_step v6 (SearchSubmits i now) y = Inr y'" using assms(2) by simp
  then show ?thesis
    by (cases rule: search_submits_cases) (use assms(1) in \<open>auto intro!: searches_ok_leave searches_ok_set\<close>)
qed (use assms in \<open>auto simp: searches_ok_def dht_step_def pipe_step_def
    split: loop.splits option.splits prod.splits sum.splits if_splits list.splits\<close>)

subsection \<open>The stored torrents\<close>

text \<open>A step of the pipeline keeps the torrents or stores one that is verified.\<close>

lemma pipe_storage:
  assumes "pipe_exec sha1 v6 op pl = Inr pl'" and "jobs_named pl"
  obtains (same) "pl_storage pl' = pl_storage pl"
  | (stored) row where "verified_row sha1 row"
      "torrents (pl_storage pl') = filter (\<lambda>r. t_info_hash r \<noteq> t_info_hash row) (torrents (pl_storage pl)) @ [row]"
      "\<And>h. h \<noteq> t_info_hash row \<Longrightarrow> db_count (pl_storage pl') h = db_count (pl_storage pl) h"
proof (cases "\<exists>i env. op = PFinish i env \<and> i < length (pl_active pl)")
  case True
  then obtain i env where op: "op = PFinish i env" "i < length (pl_active pl)" by blast
  then obtain p s where f: "finish_job sha1 v6 env (snd (pl_active pl ! i)) (pl_pool pl) (pl_storage pl) = Inr (p, s)"
    "pl_storage pl' = s"
    using assms(1) by (auto split: sum.splits)
  have "snd (pl_active pl ! i) \<in> set (jobs_of pl)" using op(2) by (simp add: jobs_of_def)
  then have "is_hash (j_infoHash (snd (pl_active pl ! i)))" using assms(2) by (simp add: jobs_named_def)
  with f(1) show thesis by (cases rule: finish_job_storage) (use f(2) same stored in auto)
next
  case False
  then have "pl_storage pl' = pl_storage pl"
    using assms(1) by (cases op) (auto split: if_splits prod.splits option.splits sum.splits)
  then show thesis by (rule same)
qed

lemma rows_ok_step:
  assumes "rows_ok sha1 y" and "pipeline_ok y" and "sys_exec sha1 v6 op y = Inr y'" and "sys_op_ok k op"
  shows "rows_ok sha1 y' \<and> stored_hashes y \<subseteq> stored_hashes y'"
  using assms(3,4)
proof (cases rule: sys_pipe_cases)
  case (step pop)
  have "jobs_named (y_pipe y)" using assms(2) by (simp add: pipeline_ok_def)
  with step(1) show ?thesis
    by (cases rule: pipe_storage) (use assms(1) in \<open>auto simp: rows_ok_def stored_hashes_def\<close>)
qed (use assms(1) in \<open>auto simp: rows_ok_def stored_hashes_def\<close>)

subsection \<open>The requests on record\<close>

lemma in_flush_proceed [simp]: "in_flush (proceed v6 g y) = (case y_flusher y of None \<Rightarrow> [] | Some b \<Rightarrow> [b])"
  by (simp add: in_flush_def) (simp add: proceed_def split: goal.split event_type.split)

lemma in_flush_count_hash [simp]:
  "in_flush (count_hash v6 now ev y) = (case y_flusher y of None \<Rightarrow> [] | Some b \<Rightarrow> [b])"
proof -
  obtain due c where "add_locked now (hash_of ev) (y_cache y) = (due, c)" by force
  then show ?thesis by (cases due) (simp_all add: count_hash_def Let_def in_flush_def [of "_\<lparr>y_loop := _\<rparr>"])
qed

lemma store_batch_counts:
  assumes "distinct (map fst (items (y_cache y)))" and "\<And>xs. mset (ord xs) = mset xs"
  shows "distinct (map fst (items (y_cache (store_batch env now ord its y))))"
    and "item_count (items (y_cache (store_batch env now ord its y))) h
        + db_count (pl_storage (y_pipe (store_batch env now ord its y))) h
      = item_count (items (y_cache y)) h + item_count its h + db_count (pl_storage (y_pipe y)) h"
    and "totalAdded (y_cache (store_batch env now ord its y)) = totalAdded (y_cache y)"
    and "stored_hashes (store_batch env now ord its y) = stored_hashes y"
proof -
  let ?s = "pl_storage (y_pipe y)" and ?its = "items (y_cache y)"
  obtain err s where i: "InsertHashes (tx_of y env) now (ord (counts_of its)) ?s = (err, s)" by fastforce
  have z: "y_cache (store_batch env now ord its y) = (y_cache y)\<lparr>items := if err = None then ?its else put_back its ?its\<rparr>"
    "pl_storage (y_pipe (store_batch env now ord its y)) = s"
    using i by (cases err; simp add: store_batch_def flush_store_def)+
  show "distinct (map fst (items (y_cache (store_batch env now ord its y))))"
    using z(1) put_back_count [OF assms(1), of its] assms(1) by simp
  show "item_count (items (y_cache (store_batch env now ord its y))) h
      + db_count (pl_storage (y_pipe (store_batch env now ord its y))) h
    = item_count ?its h + item_count its h + db_count ?s h"
    using db.nothing_lost [of "(tx_of y env, now)" ord its ?s err s ?its h] i assms by (simp add: z)
  show "totalAdded (y_cache (store_batch env now ord its y)) = totalAdded (y_cache y)" by (simp add: z)
  show "stored_hashes (store_batch env now ord its y) = stored_hashes y"
    using InsertHashes_torrents [OF i] by (simp add: stored_hashes_def z)
qed

lemma counts_ok_same:
  assumes "counts_ok s0 t0 y" and "y_cache y' = y_cache y" and "in_flush y' = in_flush y"
    and "y_log y' = y_log y" and "stored_hashes y \<subseteq> stored_hashes y'"
    and "\<And>h. h \<notin> stored_hashes y' \<Longrightarrow> db_count (pl_storage (y_pipe y')) h = db_count (pl_storage (y_pipe y)) h"
  shows "counts_ok s0 t0 y'"
  using assms by (auto simp: counts_ok_def requests_def)

lemma flush_take_Some:
  "flush_take c = Some (its, c') \<Longrightarrow> its = items c \<and> items c' = [] \<and> totalAdded c' = totalAdded c"
  by (auto simp: flush_take_def split: if_splits)

lemma totalAdded_add_locked: "totalAdded (snd (add_locked now h c)) = totalAdded c + 1"
  by (simp add: add_locked_def Let_def)

lemma counts_ok_pipe:
  assumes "counts_ok s0 t0 y" and "pipeline_ok y" and "pipe_exec sha1 v6 op (y_pipe y) = Inr (y_pipe y')"
    and "y_cache y' = y_cache y" and "in_flush y' = in_flush y" and "y_log y' = y_log y"
  shows "counts_ok s0 t0 y'"
proof -
  have "jobs_named (y_pipe y)" using assms(2) by (simp add: pipeline_ok_def)
  with assms(3) show ?thesis
  proof (cases rule: pipe_storage)
    case same
    then show ?thesis by (intro counts_ok_same [OF assms(1,4-6)]) (auto simp: stored_hashes_def)
  next
    case (stored row)
    then show ?thesis by (intro counts_ok_same [OF assms(1,4-6)]) (auto simp: stored_hashes_def)
  qed
qed

lemma counts_ok_store:
  assumes "counts_ok s0 t0 y" and "\<And>xs. mset (ord xs) = mset xs" and "mset (in_flush y) = add_mset its (mset (in_flush y'))"
    and "y_cache y' = y_cache (store_batch env now ord its y)" and "y_pipe y' = y_pipe (store_batch env now ord its y)"
    and "y_log y' = y_log y"
  shows "counts_ok s0 t0 y'"
proof -
  have d: "distinct (map fst (items (y_cache y)))" using assms(1) by (simp add: counts_ok_def)
  note sb = store_batch_counts [OF d assms(2), of env now its]
  have "(\<Sum>b \<leftarrow> in_flush y. item_count b h) = item_count its h + (\<Sum>b \<leftarrow> in_flush y'. item_count b h)" for h
    using arg_cong [OF assms(3), of "\<lambda>M. sum_mset (image_mset (\<lambda>b. item_count b h) M)"] by (simp flip: sum_mset_sum_list)
  moreover have "stored_hashes y' = stored_hashes y" using sb(4) assms(5) by (simp add: stored_hashes_def)
  ultimately show ?thesis using assms(1) sb(1,3) sb(2)
    by (simp add: counts_ok_def requests_def assms(4-6)) (smt (verit, ccfv_threshold))
qed

lemma counts_ok_take:
  assumes "counts_ok s0 t0 y" and "flush_take (y_cache y) = Some (its, c)" and "y_cache y' = c"
    and "mset (in_flush y') = add_mset its (mset (in_flush y))" and "y_pipe y' = y_pipe y" and "y_log y' = y_log y"
  shows "counts_ok s0 t0 y'"
proof -
  have "(\<Sum>b \<leftarrow> in_flush y'. item_count b h) = item_count its h + (\<Sum>b \<leftarrow> in_flush y. item_count b h)" for h
    using arg_cong [OF assms(4), of "\<lambda>M. sum_mset (image_mset (\<lambda>b. item_count b h) M)"] by (simp flip: sum_mset_sum_list)
  then show ?thesis using assms(1) flush_take_Some [OF assms(2)]
    by (simp add: counts_ok_def requests_def stored_hashes_def assms(3,5,6))
qed

lemma counts_ok_step:
  assumes "counts_ok s0 t0 y" and "pipeline_ok y" and "sys_exec sha1 v6 op y = Inr y'" and "sys_op_ok k op"
  shows "counts_ok s0 t0 y'"
proof -
  have same: ?thesis if "y_cache y' = y_cache y" "in_flush y' = in_flush y" "y_log y' = y_log y" "y_pipe y' = y_pipe y"
    using that assms(1) by (auto simp: counts_ok_def requests_def stored_hashes_def)
  have sub: ?thesis if "y_pipe y' = (y_pipe y)\<lparr>pl_pool := p\<rparr>" "y_cache y' = y_cache y" "in_flush y' = in_flush y"
      "y_log y' = y_log y" for p
    using that assms(1) by (auto simp: counts_ok_def requests_def stored_hashes_def)
  show ?thesis
  proof (cases op)
    case (PipeOp pop)
    then obtain pl where "pipe_exec sha1 v6 (pipe_op_of y pop) (y_pipe y) = Inr pl" "y' = y\<lparr>y_pipe := pl\<rparr>"
      using assms(3) by (auto simp: pipe_step_def split: sum.splits)
    then show ?thesis by (intro counts_ok_pipe [OF assms(1,2), of sha1 v6 "pipe_op_of y pop"]) (auto simp: in_flush_def)
  next
    case (LoopCounts now)
    show ?thesis
    proof (cases "\<exists>ev. y_loop y = Counting ev")
      case True
      then obtain ev where ev: "y_loop y = Counting ev" "y' = count_hash v6 now ev y" using assms(3) LoopCounts by auto
      have d: "distinct (map fst (items (y_cache y)))" using assms(1) by (simp add: counts_ok_def)
      show ?thesis using assms(1) add_locked_count [OF d, of now "hash_of ev"] ev
        by (auto simp: counts_ok_def requests_def stored_hashes_def in_flush_def [of y] totalAdded_add_locked add.assoc)
    qed (use assms(3) LoopCounts same in \<open>auto split: loop.splits\<close>)
  next
    case LoopFlushes
    show ?thesis
    proof (cases "\<exists>g. y_loop y = Flushing g")
      case True
      then obtain g where g: "y_loop y = Flushing g" by blast
      show ?thesis
      proof (cases "flush_take (y_cache y)")
        case None
        then have "y' = proceed v6 g y" using assms(3) LoopFlushes g by simp
        then show ?thesis using g by (intro same) (auto simp: in_flush_def [of y])
      next
        case (Some x)
        then obtain its c where x: "flush_take (y_cache y) = Some (its, c)" "y' = y\<lparr>y_cache := c, y_loop := Storing g its\<rparr>"
          using assms(3) LoopFlushes g by (cases x) auto
        then show ?thesis using g by (intro counts_ok_take [OF assms(1) x(1)]) (auto simp: in_flush_def)
      qed
    qed (use assms(3) LoopFlushes same in \<open>auto split: loop.splits\<close>)
  next
    case (LoopStores env now ord)
    show ?thesis
    proof (cases "\<exists>g its. y_loop y = Storing g its")
      case True
      then obtain g its where g: "y_loop y = Storing g its" "y' = proceed v6 g (store_batch env now ord its y)"
        using assms(3) LoopStores by auto
      have "mset (ord xs) = mset xs" for xs using assms(4) LoopStores by simp
      from counts_ok_store [OF assms(1) this, of its y' env now] g show ?thesis by (simp add: in_flush_def [of y])
    qed (use assms(3) LoopStores same in \<open>auto split: loop.splits\<close>)
  next
    case FlusherStarts
    then show ?thesis using assms(3) by (intro same) (auto simp: in_flush_def split: if_splits option.splits)
  next
    case (FlusherTakes final)
    show ?thesis
    proof (cases "y_flusher y = None \<and> (\<exists>its c. flush_take (y_cache y) = Some (its, c) \<and> y_cache y' = c)")
      case True
      then obtain its c where x: "flush_take (y_cache y) = Some (its, c)" "y_flusher y = None" "y_cache y' = c" by blast
      then have "y' = y\<lparr>y_cache := c, y_flusher := Some its, y_flusher_gone := final\<rparr> \<or> y' = y"
        using assms(3) FlusherTakes by (auto split: if_splits)
      then show ?thesis
      proof
        assume "y' = y\<lparr>y_cache := c, y_flusher := Some its, y_flusher_gone := final\<rparr>"
        then show ?thesis using x(2) by (intro counts_ok_take [OF assms(1) x(1)]) (auto simp: in_flush_def)
      qed (use assms(1) in simp)
    next
      case False
      then have "y' = y \<or> y' = y\<lparr>y_flusher_gone := final\<rparr>"
        using assms(3) FlusherTakes by (auto split: if_splits option.splits)
      then show ?thesis by (intro same) (auto simp: in_flush_def)
    qed
  next
    case (FlusherStores env now ord)
    show ?thesis
    proof (cases "y_flusher y")
      case (Some its)
      then have y': "y' = (store_batch env now ord its y)\<lparr>y_flusher := None\<rparr>" using assms(3) FlusherStores by simp
      have "mset (ord xs) = mset xs" for xs using assms(4) FlusherStores by simp
      from counts_ok_store [OF assms(1) this, of its y' env now] Some y' show ?thesis by (simp add: in_flush_def)
    qed (use assms(3) FlusherStores same in auto)
  next
    case (LoopSubmits now)
    show ?thesis
    proof (cases "\<exists>ev a as. y_loop y = Submitting ev (a # as)")
      case True
      then obtain ev a as where "y_loop y = Submitting ev (a # as)"
        "y' = (snd (submit_job now (hash_of ev) a y))\<lparr>y_loop := Submitting ev as\<rparr>"
        using assms(3) LoopSubmits by auto
      then show ?thesis by (intro sub) (auto simp: in_flush_def)
    next
      case False
      then show ?thesis using assms(3) LoopSubmits
        by (intro same) (auto simp: in_flush_def split: loop.splits list.splits)
    qed
  next
    case (SearchSubmits i now)
    then have "search_step v6 (SearchSubmits i now) y = Inr y'" using assms(3) by simp
    then show ?thesis
    proof (cases rule: search_submits_cases)
      case (submitted h n peer peers z)
      then show ?thesis by (intro sub) (auto simp: in_flush_def)
    qed (use same in \<open>auto simp: in_flush_def\<close>)
  next
    case LoopTakes
    then show ?thesis using assms(3)
      by (cases "y_loop y"; intro same) (auto simp: in_flush_def split: option.splits prod.splits if_splits)
  next
    case LoopStops
    then show ?thesis using assms(3) by (intro same) (auto simp: in_flush_def split: if_splits)
  next
    case LoopCloses
    then show ?thesis using assms(3)
      by (cases "y_loop y"; intro same) (auto simp: in_flush_def split: sum.splits)
  next
    case (SearchEnters i)
    then show ?thesis using assms(3) by (intro same) (auto simp: in_flush_def split: search.splits if_splits)
  next
    case (SearchChecks i err)
    then show ?thesis using assms(3)
      by (intro same) (auto simp: in_flush_def split: search.splits if_splits sum.splits bool.splits)
  next
    case (SearchFinds i peers)
    then show ?thesis using assms(3) by (intro same) (auto simp: in_flush_def split: search.splits if_splits)
  next
    case (NodeOp i nop)
    then show ?thesis using assms(3) by (intro same) (auto simp: in_flush_def dht_step_def split: sum.splits)
  next
    case Collect
    then show ?thesis using assms(3) by (intro same) (auto simp: in_flush_def dht_step_def)
  qed
qed

subsection \<open>Together\<close>

definition sys_ok :: "storage \<Rightarrow> uint64 \<Rightarrow> nat \<Rightarrow> system \<Rightarrow> bool" where
  "sys_ok s0 t0 k y \<longleftrightarrow> dht_ok k y \<and> pipeline_ok y \<and> searches_ok y \<and> counts_ok s0 t0 y"

lemma sys_ok_step:
  assumes "sys_ok s0 t0 k y" and "sys_op_ok k op" and "sys_exec sha1 v6 op y = Inr y'"
  shows "sys_ok s0 t0 k y'"
proof -
  have ok: "dht_ok k y" "pipeline_ok y" "searches_ok y" "counts_ok s0 t0 y"
    using assms(1) by (simp_all add: sys_ok_def)
  show ?thesis
    using dht_ok_step [OF ok(1) assms(3,2)] pipeline_ok_step [OF ok(2) assms(3,2)]
      searches_ok_step [OF ok(3) assms(3)] counts_ok_step [OF ok(4,2) assms(3,2)]
    by (simp add: sys_ok_def)
qed

interpretation sys: machine "sys_exec sha1 v6" "sys_ok s0 t0 k" "sys_op_ok k" for sha1 v6 s0 t0 k
  by unfold_locales (rule sys_ok_step)

text \<open>The database only ever gains verified rows.\<close>

interpretation verified: machine "sys_exec sha1 v6" "\<lambda>y. sys_ok s0 t0 k y \<and> rows_ok sha1 y" "sys_op_ok k"
  for sha1 v6 s0 t0 k
proof unfold_locales
  fix y op y'
  assume y: "sys_ok s0 t0 k y \<and> rows_ok sha1 y" and op: "sys_op_ok k op" "sys_exec sha1 v6 op y = Inr y'"
  then have "pipeline_ok y" by (simp add: sys_ok_def)
  with y op show "sys_ok s0 t0 k y' \<and> rows_ok sha1 y'" using sys_ok_step rows_ok_step by blast
qed

lemma NewCrawler_parts:
  assumes "NewCrawler (Inr s) secret draw now cfg = Inr c"
  obtains p q w where "NewPool secret draw (NodeCount_cfg cfg) (StartPort cfg) (Bootstraps_cfg cfg) = Inr p"
    "NewDownloadQueue (wrap64 (DownloadWorkers cfg * DownloadPerWorker cfg * 2)) = Inr q"
    "NewWorkerPool (DownloadWorkers cfg) (DownloadPerWorker cfg) q = Inr w"
    "c_dhtPool c = p" "c_hashCache c = NewHashCache (CacheMaxSize cfg)" "c_workerPool c = w"
    "c_storage c = s" "c_searches c = 10" "c_config c = cfg" "c_getPeersProcessed c = 0" "c_announcesProcessed c = 0"
  using assms by (auto simp: NewCrawler_def Let_def split: sum.splits)

lemma sys_ok_init:
  assumes "NewCrawler (Inr s) secret draw now cfg = Inr c" and "\<And>i. length (secret i) = 16"
  shows "sys_ok s 0 (nat (NodeCount_cfg cfg)) (system_of c)"
proof -
  from assms(1) obtain p q w where p: "NewPool secret draw (NodeCount_cfg cfg) (StartPort cfg) (Bootstraps_cfg cfg) = Inr p"
    and q: "NewDownloadQueue (wrap64 (DownloadWorkers cfg * DownloadPerWorker cfg * 2)) = Inr q"
    and w: "NewWorkerPool (DownloadWorkers cfg) (DownloadPerWorker cfg) q = Inr w"
    and c: "c_dhtPool c = p" "c_hashCache c = NewHashCache (CacheMaxSize cfg)" "c_workerPool c = w"
      "c_storage c = s" "c_searches c = 10"
    by (rule NewCrawler_parts)
  have sec: "\<forall>i. length (secret i) = 16" using assms(2) by blast
  have "dht_ok (nat (NodeCount_cfg cfg)) (system_of c)"
    using wf_NewPool(1,2,5) [OF p sec] by (simp add: dht_ok_def system_of_def c)
  moreover have "pipeline_ok (system_of c)"
    using pipe_ok_new [OF q w, of s] q w
    by (auto simp: pipeline_ok_def system_of_def c workers_ok_def jobs_named_def jobs_of_def new_pipeline_def
        downloads_of_def NewWorkerPool_def NewDownloadQueue_def Let_def split: if_splits)
  moreover have "searches_ok (system_of c)" by (simp add: searches_ok_def system_of_def c)
  moreover have "counts_ok s 0 (system_of c)"
    by (simp add: counts_ok_def system_of_def c NewHashCache_def requests_def in_flush_def new_pipeline_def)
  ultimately show ?thesis by (simp add: sys_ok_def)
qed

lemma sys_reachable:
  assumes "NewCrawler (Inr s) secret draw now cfg = Inr c" and "\<And>i. length (secret i) = 16"
    and "sys_run sha1 v6 ops (system_of c) = Inr y" and "list_all (sys_op_ok (nat (NodeCount_cfg cfg))) ops"
  shows "sys_ok s 0 (nat (NodeCount_cfg cfg)) y"
  using sys.run_keeps [OF assms(3) sys_ok_init [OF assms(1,2)] assms(4)] .

text \<open>The interval of the flusher is the one that was configured.\<close>

lemma interval_fields [simp]:
  "y_interval (proceed v6 g y) = y_interval y" "y_interval (count_hash v6 now ev y) = y_interval y"
  "y_interval (store_batch env now ord its y) = y_interval y" "y_interval (set_search i x y) = y_interval y"
  "y_interval (leave_search i y) = y_interval y" "y_interval (end_search i y) = y_interval y"
  "y_interval (snd (submit_job now h a y)) = y_interval y"
  by (simp_all add: proceed_def count_hash_def store_batch_def set_search_def leave_search_def end_search_def
      submit_job_def Let_def split: goal.split event_type.split prod.split)

lemma interval_step:
  assumes "sys_exec sha1 v6 op y = Inr y'"
  shows "y_interval y' = y_interval y"
proof (cases op)
  case (SearchSubmits i now)
  then have "search_step v6 (SearchSubmits i now) y = Inr y'" using assms by simp
  then show ?thesis by (cases rule: search_submits_cases) auto
qed (use assms in \<open>auto simp: dht_step_def pipe_step_def
    split: loop.splits option.splits prod.splits sum.splits search.splits if_splits bool.splits list.splits\<close>)

interpretation interval: machine "sys_exec sha1 v6" "\<lambda>y. y_interval y = d" "\<lambda>_. True" for sha1 v6 d
  by unfold_locales (simp add: interval_step)

section \<open>Panics\<close>

lemma exec_panics: "exec op n = Inl f \<Longrightarrow> \<exists>now data addr. op = Receive now data addr \<and> handleMessage now data addr n = Inl f"
  by (cases op) auto

lemma pipe_exec_panics:
  assumes "pipe_exec sha1 v6 op pl = Inl f" and "jobs_named pl"
  shows "f = Panic SendOnClosed \<and> ch_closed (wp_jobs (pl_pool pl)) \<and> pl_feeding pl \<noteq> None
    \<or> (\<exists>i env x k addr c. op = PFinish i env \<and> i < length (pl_active pl)
        \<and> j_infoHash (snd (pl_active pl ! i)) = hex_encode (arr_bytes x) \<and> f = Panic c
        \<and> Download sha1 (wp_downloader (pl_pool pl)) x (je_dial env k addr) = Inl (Panic c))"
proof (cases op)
  case (PFinish i env)
  then have i: "i < length (pl_active pl)"
    "finish_job sha1 v6 env (snd (pl_active pl ! i)) (pl_pool pl) (pl_storage pl) = Inl f"
    using assms(1) by (auto split: if_splits sum.splits)
  then have "snd (pl_active pl ! i) \<in> set (jobs_of pl)" by (simp add: jobs_of_def)
  then obtain x where x: "j_infoHash (snd (pl_active pl ! i)) = hex_encode (arr_bytes x)"
    using assms(2) by (auto simp: jobs_named_def is_hash_def)
  from finish_job_panics [OF i(2) this] show ?thesis using PFinish i(1) x by blast
qed (use assms(1) in \<open>auto simp: close_chan_def split: if_splits prod.splits option.splits sum.splits\<close>)

text \<open>Dialling does not panic, so a panic of a download comes from what the peer sent.\<close>

lemma download_dialled:
  assumes "Download sha1 NewMetadataDownloader h dial = Inl (Panic p)" and "\<And>x. dial \<noteq> Inl (Panic x)"
  shows "p = MakeSliceLen \<and> (\<exists>c. dial = Inr c)"
proof (cases dial)
  case (Inl e)
  then show ?thesis using assms by (auto simp: Download_def)
next
  case (Inr c)
  then show ?thesis using assms(1) download_faults [of sha1 NewMetadataDownloader h c p]
    by (simp add: NewMetadataDownloader_def maxAlloc_def)
qed

lemma sys_exec_panics:
  assumes "sys_ok s0 t0 n y" and "sys_op_ok n op" and "sys_exec sha1 v6 op y = Inl f"
  shows "(\<exists>i now data addr. op = NodeOp i (Receive now data addr)
        \<and> (DecodeMessage data = Inl f \<and> f = Panic MakeSliceLen
          \<or> (\<exists>m h t. DecodeMessage data = Inr m \<and> Query m = QueryAnnouncePeer \<and> GetInfoHash m = Some h
              \<and> GetToken m = Some t \<and> 8 < length t \<and> f = Panic SliceBounds)
          \<or> y_loop y = Ended \<and> f = Panic SendOnClosed))
    \<or> (\<exists>i env x k addr c. op = PipeOp (PFinish i env) \<and> i < length (pl_active (y_pipe y))
        \<and> j_infoHash (snd (pl_active (y_pipe y) ! i)) = hex_encode (arr_bytes x) \<and> f = Panic MakeSliceLen
        \<and> je_dial env k addr = Inr c \<and> Download sha1 NewMetadataDownloader x (Inr c) = Inl f)
    \<or> pl_done (y_pipe y) \<and> pl_feeding (y_pipe y) \<noteq> None \<and> f = Panic SendOnClosed
    \<or> op = FlusherStarts \<and> y_interval y \<le> 0 \<and> f = Panic NonPositiveInterval"
proof -
  have d: "dht_ok n y" and p: "pipeline_ok y" using assms(1) by (simp_all add: sys_ok_def)
  show ?thesis
  proof (cases op)
    case (NodeOp i nop)
    then have "exec nop (node_at (y_dht y) i) = Inl f" using assms(3) by (auto simp: dht_step_def split: sum.splits)
    then obtain now data addr where nop: "nop = Receive now data addr"
      and h: "handleMessage now data addr (node_at (y_dht y) i) = Inl f" using exec_panics by blast
    have w: "wf_node (node_at (y_dht y) i)" "ua_IP addr \<noteq> []"
      using d assms(2) NodeOp nop by (auto simp: dht_ok_def wf_pool_def)
    have "eventChan (node_at (y_dht y) i) = p_eventChan (y_dht y)" by (simp add: node_at_def)
    then have "ch_closed (eventChan (node_at (y_dht y) i)) \<Longrightarrow> y_loop y = Ended" using d by (simp add: dht_ok_def)
    with datagram_faults [OF w, of now data f] h NodeOp nop show ?thesis by blast
  next
    case (PipeOp pop)
    then have e: "pipe_exec sha1 v6 (pipe_op_of y pop) (y_pipe y) = Inl f"
      using assms(3) by (auto simp: pipe_step_def split: sum.splits)
    have j: "jobs_named (y_pipe y)" "wp_downloader (pl_pool (y_pipe y)) = NewMetadataDownloader"
      using p by (simp_all add: pipeline_ok_def)
    from pipe_exec_panics [OF e j(1)] show ?thesis
    proof
      assume "\<exists>i env x k addr c. pipe_op_of y pop = PFinish i env \<and> i < length (pl_active (y_pipe y))
          \<and> j_infoHash (snd (pl_active (y_pipe y) ! i)) = hex_encode (arr_bytes x) \<and> f = Panic c
          \<and> Download sha1 (wp_downloader (pl_pool (y_pipe y))) x (je_dial env k addr) = Inl (Panic c)"
      then obtain i env x k addr c where a: "pipe_op_of y pop = PFinish i env" "i < length (pl_active (y_pipe y))"
        "j_infoHash (snd (pl_active (y_pipe y) ! i)) = hex_encode (arr_bytes x)" "f = Panic c"
        "Download sha1 NewMetadataDownloader x (je_dial env k addr) = Inl (Panic c)"
        unfolding j(2) by blast
      then obtain env' where b: "pop = PFinish i env'" "je_dial env = je_dial env'" by (cases pop) auto
      then have "je_dial env k addr \<noteq> Inl (Panic z)" for z using assms(2) PipeOp by auto
      from download_dialled [OF a(5) this] obtain dial where
        "c = MakeSliceLen" "je_dial env' k addr = Inr dial" using b(2) by auto
      moreover have "Download sha1 NewMetadataDownloader x (Inr dial) = Inl f"
        using a(4,5) calculation b(2) by simp
      ultimately show ?thesis using PipeOp b(1) a(2-4) by blast
    qed (use p in \<open>auto simp: pipeline_ok_def\<close>)
  next
    case LoopCloses
    then have "y_loop y = StoppingPool" "ch_closed (p_eventChan (y_dht y))"
      using assms(3) by (auto simp: Stop_pool_def close_chan_def split: loop.splits sum.splits if_splits)
    then show ?thesis using d by (simp add: dht_ok_def)
  next
    case FlusherStarts
    then show ?thesis using assms(3) by (auto simp: NewTicker_def split: if_splits)
  next
    case (SearchSubmits i now)
    then show ?thesis using assms(3)
      by (auto simp: Let_def split: search.splits if_splits list.splits prod.splits)
  qed (use assms(3) in \<open>auto simp: dht_step_def split: loop.splits option.splits prod.splits list.splits search.splits
      if_splits sum.splits bool.splits\<close>)
qed

section \<open>The loop as a whole\<close>

lemma flush_take_due:
  assumes "fst (add_locked now h c)"
  shows "flush_take (snd (add_locked now h c)) =
    Some (items (snd (add_locked now h c)), (snd (add_locked now h c))\<lparr>items := [],
      totalFlushed := totalFlushed c + of_nat (length (items (snd (add_locked now h c))))\<rparr>)"
proof -
  have "AList.update k x xs \<noteq> []" for k and x :: cache_item and xs by (induction xs) auto
  then show ?thesis by (simp add: flush_take_def add_locked_def Let_def split: option.split)
qed

text \<open>The steps of the loop from the addition to the cache up to the submissions, when nothing intervenes.\<close>

definition count_ops ::
  "tx_env \<Rightarrow> int \<Rightarrow> ((bytes \<times> int) list \<Rightarrow> (bytes \<times> int) list) \<Rightarrow> event \<Rightarrow> system \<Rightarrow> sys_op list" where
  "count_ops env now ord ev y =
     LoopCounts now # (if fst (add_locked now (hash_of ev) (y_cache y)) then [LoopFlushes, LoopStores env now ord] else [])"

lemma count_run:
  assumes "y_loop y = Counting ev" and "\<not> y_dbClosed y"
  shows "sys_run sha1 v6 (count_ops env now ord ev y) y =
    Inr (proceed v6 (Resume ev)
      (y\<lparr>y_cache := fst (Add_cache env now ord (hash_of ev) (y_cache y) (pl_storage (y_pipe y))),
         y_pipe := (y_pipe y)\<lparr>pl_storage := snd (Add_cache env now ord (hash_of ev) (y_cache y) (pl_storage (y_pipe y)))\<rparr>,
         y_log := hash_of ev # y_log y\<rparr>))"
proof -
  obtain due c where a: "add_locked now (hash_of ev) (y_cache y) = (due, c)" by force
  show ?thesis
  proof (cases due)
    case False
    then show ?thesis using a assms(1)
      by (simp add: count_ops_def count_hash_def Add_cache_def Let_def)
  next
    case True
    let ?c = "c\<lparr>items := [], totalFlushed := totalFlushed (y_cache y) + of_nat (length (items c))\<rparr>"
    have t: "flush_take c = Some (items c, ?c)" using flush_take_due [of now "hash_of ev" "y_cache y"] a True by simp
    obtain e c' s where s: "flush_store env now ord (items c) ?c (pl_storage (y_pipe y)) = (e, c', s)"
      by (cases "flush_store env now ord (items c) ?c (pl_storage (y_pipe y))") auto
    have x: "tx_of z env = env" if "\<not> y_dbClosed z" for z using that by (simp add: tx_of_def db_err_def)
    have "Add_cache env now ord (hash_of ev) (y_cache y) (pl_storage (y_pipe y)) = (c', s)"
      using a True t s by (simp add: Add_cache_def Flush_def)
    then show ?thesis using a True t s assms
      by (simp add: count_ops_def count_hash_def Let_def store_batch_def x proceed_def split: event_type.split)
  qed
qed

lemma submit_run:
  "y_loop y = Submitting ev addrs \<Longrightarrow>
    sys_run sha1 v6 (replicate (length addrs + 1) (LoopSubmits now)) y =
      Inr (y\<lparr>y_pipe := (y_pipe y)\<lparr>pl_pool := fold (\<lambda>a p. snd (Submit now (hash_of ev) a p)) addrs (pl_pool (y_pipe y))\<rparr>,
             y_loop := Waiting,
             y_searches := y_searches y @ (if ev_Type ev = EventGetPeers then [Entering (ev_InfoHash ev)] else [])\<rparr>)"
proof (induction addrs arbitrary: y)
  case (Cons a addrs)
  let ?y = "(snd (submit_job now (hash_of ev) a y))\<lparr>y_loop := Submitting ev addrs\<rparr>"
  have "sys_run sha1 v6 (replicate (length (a # addrs) + 1) (LoopSubmits now)) y
      = sys_run sha1 v6 (replicate (length addrs + 1) (LoopSubmits now)) ?y"
    using Cons.prems by simp
  also have "\<dots> = Inr (?y\<lparr>y_pipe := (y_pipe ?y)\<lparr>pl_pool := fold (\<lambda>a p. snd (Submit now (hash_of ev) a p)) addrs (pl_pool (y_pipe ?y))\<rparr>,
             y_loop := Waiting,
             y_searches := y_searches ?y @ (if ev_Type ev = EventGetPeers then [Entering (ev_InfoHash ev)] else [])\<rparr>)"
    by (rule Cons.IH) simp
  finally show ?case by (simp add: submit_job_def split: prod.split)
qed simp

lemma submit_ports_fold:
  "submit_ports v6 now h ip q ports c =
    c\<lparr>c_workerPool := fold (\<lambda>a p. snd (Submit now h a p))
        (map (addr_string v6 ip) (filter (\<lambda>port. port \<noteq> q) ports)) (c_workerPool c)\<rparr>"
  by (induction ports arbitrary: c) (simp_all add: submit_def)

text \<open>The workers submitted to during an event, as the loop and as \<open>processEvent\<close> see them.\<close>

lemma processEvent_fold:
  "snd (processEvent v6 env now ord ev c) =
    (let (hc, s) = Add_cache env now ord (hash_of ev) (c_hashCache c) (c_storage c);
         c1 = c\<lparr>c_hashCache := hc, c_storage := s,
                 c_workerPool := fold (\<lambda>a p. snd (Submit now (hash_of ev) a p)) (event_addrs v6 ev) (c_workerPool c)\<rparr> in
     case ev_Type ev of
       EventGetPeers \<Rightarrow> c1\<lparr>c_getPeersProcessed := c_getPeersProcessed c + 1\<rparr>
     | EventAnnounce \<Rightarrow> c1\<lparr>c_announcesProcessed := c_announcesProcessed c + 1\<rparr>)"
  by (simp add: processEvent_def hash_of_def event_addrs_def cache_add_def submit_ports_fold submit_def Let_def
      split: event_type.split prod.split)

definition turn_ops ::
  "(bytes \<Rightarrow> bytes) \<Rightarrow> tx_env \<Rightarrow> int \<Rightarrow> ((bytes \<times> int) list \<Rightarrow> (bytes \<times> int) list) \<Rightarrow> event \<Rightarrow> system \<Rightarrow> sys_op list" where
  "turn_ops v6 env now ord ev y =
     LoopTakes # count_ops env now ord ev y @ replicate (length (event_addrs v6 ev) + 1) (LoopSubmits now)"

lemma fst_processEvent:
  "fst (processEvent v6 env now ord ev c) = (if ev_Type ev = EventGetPeers then Some (ev_InfoHash ev) else None)"
  by (cases "ev_Type ev") (simp_all add: processEvent_def Let_def)

text \<open>The steps of the loop and the event handler in one piece agree. When nothing else happens in between, the
  steps the loop of \<open>Run\<close> takes for one event, with the flush if one is due, leave the crawler that one
  turn of the loop in one piece gives: the same cache, database, queue and counters; and they start a search
  exactly when \<open>processEvent\<close> does.\<close>

lemma loop_refines_turn:
  assumes "y_loop y = Waiting" and "\<not> y_dbClosed y" and "recv (p_eventChan (y_dht y)) = (Some ev, rest)"
  shows "\<exists>y'. sys_run sha1 v6 (turn_ops v6 env now ord ev y) y = Inr y' \<and> y_loop y' = Waiting
    \<and> crawler_of c y' = snd (run_turn v6 env now ord (crawler_of c y))
    \<and> y_searches y' = y_searches y @
        (case fst (run_turn v6 env now ord (crawler_of c y)) of None \<Rightarrow> [] | Some h \<Rightarrow> [Entering h])"
proof -
  let ?y1 = "y\<lparr>y_dht := (y_dht y)\<lparr>p_eventChan := rest\<rparr>, y_loop := Counting ev\<rparr>"
  obtain hc s where a: "Add_cache env now ord (hash_of ev) (y_cache y) (pl_storage (y_pipe y)) = (hc, s)" by force
  let ?y2 = "proceed v6 (Resume ev)
      (?y1\<lparr>y_cache := hc, y_pipe := (y_pipe y)\<lparr>pl_storage := s\<rparr>, y_log := hash_of ev # y_log y\<rparr>)"
  have o: "count_ops env now ord ev y = count_ops env now ord ev ?y1" by (simp add: count_ops_def)
  have c1: "sys_run sha1 v6 (count_ops env now ord ev ?y1) ?y1 = Inr ?y2"
    using count_run [of ?y1 ev sha1 v6 env now ord] assms(2) by (simp add: a)
  have l2: "y_loop ?y2 = Submitting ev (event_addrs v6 ev)" by (cases "ev_Type ev") (simp_all add: proceed_def)
  note sub = submit_run [OF l2, of sha1 v6 now]
  have "sys_run sha1 v6 (turn_ops v6 env now ord ev y) y
      = sys_run sha1 v6 (count_ops env now ord ev ?y1 @ replicate (length (event_addrs v6 ev) + 1) (LoopSubmits now)) ?y1"
    using assms(1,3) o by (simp add: turn_ops_def)
  also have "\<dots> = sys_run sha1 v6 (replicate (length (event_addrs v6 ev) + 1) (LoopSubmits now)) ?y2"
    unfolding run_ops_append c1 by simp
  finally have r: "sys_run sha1 v6 (turn_ops v6 env now ord ev y) y
      = sys_run sha1 v6 (replicate (length (event_addrs v6 ev) + 1) (LoopSubmits now)) ?y2" .
  show ?thesis unfolding r sub
    using a assms(3) by (cases "ev_Type ev")
      (simp_all add: run_turn_def processEvent_fold fst_processEvent crawler_of_def proceed_def Let_def)
qed

section \<open>Shutting down\<close>

text \<open>
  The end of the context lets \<open>Run\<close> flush, close the storage and stop, while the flusher may hold a
  batch: its insertion then meets the closed database, the batch goes back into the cache, and
  nothing flushes it any more.
\<close>

lemma shutdown_loses_batch:
  assumes "y_loop y = Waiting" and "pl_done (y_pipe y)" and "items (y_cache y) = []" and "y_flusher y = Some its"
    and "\<not> ch_closed (p_eventChan (y_dht y))"
  shows "\<exists>y'. sys_run sha1 v6 [LoopStops, LoopFlushes, LoopCloses, LoopCloses, FlusherStores env now ord] y = Inr y'
    \<and> y_loop y' = Ended \<and> pl_storage (y_pipe y') = pl_storage (y_pipe y) \<and> items (y_cache y') = put_back its []"
proof -
  have t: "flush_take (y_cache y) = None" using assms(3) by (simp add: flush_take_def)
  have s: "Stop_pool (y_dht y) = Inr ((y_dht y)\<lparr>p_eventChan := (p_eventChan (y_dht y))\<lparr>ch_closed := True\<rparr>\<rparr>)"
    using assms(5) by (simp add: Stop_pool_def close_chan_def)
  show ?thesis using assms t s
    by (simp add: proceed_def store_batch_def flush_store_def InsertHashes_def tx_of_def db_err_def)
qed

section \<open>A sample run\<close>

definition sample_config :: config where
  "sample_config = DefaultConfig\<lparr>NodeCount_cfg := 1, Bootstraps_cfg := [], CacheMaxSize := 10,
     DownloadWorkers := 1, DownloadPerWorker := 2\<rparr>"

definition sample_start :: crawler where
  "sample_start = \<lparr>c_config = sample_config, c_dhtPool = sample_pool, c_hashCache = NewHashCache 10,
     c_workerPool = sample_pipe_pool, c_storage = New False, c_startTime = 0,
     c_getPeersProcessed = 0, c_announcesProcessed = 0, c_searches = 10\<rparr>"

lemma sample_start:
  "NewCrawler (Inr (New False)) (\<lambda>_. replicate 16 7) (\<lambda>_ _. Inr 5) 0 sample_config = Inr sample_start"
proof -
  have c: "NodeCount_cfg sample_config = 1" "StartPort sample_config = 6881" "Bootstraps_cfg sample_config = []"
    "CacheMaxSize sample_config = 10" "DownloadWorkers sample_config = 1" "DownloadPerWorker sample_config = 2"
    by (simp_all add: sample_config_def DefaultConfig_def)
  have q: "NewDownloadQueue (wrap64 (1 * 2 * 2)) = Inr (wp_queue sample_pipe_pool)"
    using sample_pipe_pool(1) by (simp add: wrap64_def)
  show ?thesis unfolding NewCrawler_def c NewPool_sample
    by (simp only: sum.case Let_def q sample_pipe_pool(2) sample_start_def)
qed

definition sample_announce :: event where
  "sample_announce = \<lparr>ev_Type = EventAnnounce, ev_InfoHash = zeroID, ev_PeerIP = [10, 0, 0, 1], ev_PeerPort = 6881\<rparr>"

definition counting_ops :: "bytes \<Rightarrow> sys_op list" where
  "counting_ops data = [NodeOp 0 (Receive 0 data sample_addr), LoopTakes, LoopCounts 0]"

definition storing_ops :: "sys_op list" where
  "storing_ops = [LoopSubmits 0, LoopSubmits 0, PipeOp (PFeed None), PipeOp PSend, PipeOp (PTake 0),
     PipeOp (PAcquire 0), PipeOp (PStart 0), PipeOp (PFinish 0 sample_env)]"

text \<open>The announcement arrives, is counted and submitted.\<close>

lemma sample_announced:
  "\<exists>data p. pool_exec (OnNode 0 (Receive 0 data sample_addr)) sample_pool = Inr p
     \<and> ch_buf (p_eventChan p) = [sample_announce]"
proof -
  let ?token = "token_of (replicate 16 7) [10, 0, 0, 1]"
  have q: "query_ok (AnnouncePeerQ zeroID None ?token)" "int (length [2 :: byte]) \<le> maxAlloc"
    by (simp_all add: maxAlloc_def)
  obtain data where data: "encode_query [2] zeroID (AnnouncePeerQ zeroID None ?token) = Inr data"
    using query_roundtrip [OF q(2,1), of zeroID] by auto
  have n: "0 < length (p_nodes sample_pool)" "\<not> ch_closed (p_eventChan sample_pool)"
    "length (ch_buf (p_eventChan sample_pool)) < ch_cap (p_eventChan sample_pool)" "ua_IP sample_addr \<noteq> []"
    by (simp_all add: sample_pool_def sample_addr_def Let_def)
  have b: "ch_buf (p_eventChan sample_pool) = []" by (simp add: sample_pool_def Let_def)
  have t: "token_valid (tokenSecret (p_nodes sample_pool ! 0)) (lastSecret (p_nodes sample_pool ! 0)) ?token (ua_IP sample_addr)"
    using tokens.valid_current [of "replicate 16 7" "replicate 16 7" "[10, 0, 0, 1]"]
    by (simp add: sample_pool_def NewNode_def sample_addr_def Let_def)
  from pool_announce [OF wf_NewPool(1) [OF NewPool_sample] n q(2,1) data t, of 0] show ?thesis
    by (auto simp: sample_announce_def sample_addr_def b)
qed

lemma sample_counted:
  "\<exists>data y. sys_run sha1 v6 (counting_ops data) (system_of sample_start) = Inr y
     \<and> y_loop y = Submitting sample_announce [addr_string v6 [10, 0, 0, 1] 6881]
     \<and> y_pipe y = new_pipeline sample_pipe_pool (New False) \<and> y_log y = [Hex zeroID] \<and> \<not> y_dbClosed y"
proof -
  obtain data p where p: "pool_exec (OnNode 0 (Receive 0 data sample_addr)) sample_pool = Inr p"
    "ch_buf (p_eventChan p) = [sample_announce]" using sample_announced by blast
  have h: "hash_of sample_announce = Hex zeroID" by (simp add: hash_of_def sample_announce_def Hex_def)
  have ev: "ev_Type sample_announce = EventAnnounce" "event_addrs v6 sample_announce = [addr_string v6 [10, 0, 0, 1] 6881]"
    by (simp_all add: sample_announce_def event_addrs_def)
  have add: "add_locked 0 (Hex zeroID) (NewHashCache 10) =
      (False, \<lparr>items = [(Hex zeroID, \<lparr>ci_count = 1, ci_firstSeen = 0\<rparr>)], maxSize = 10, totalAdded = 1, totalFlushed = 0\<rparr>)"
    by (simp add: add_locked_def NewHashCache_def)
  have "sys_run sha1 v6 (counting_ops data) (system_of sample_start)
      = sys_run sha1 v6 [LoopTakes, LoopCounts 0] ((system_of sample_start)\<lparr>y_dht := p\<rparr>)"
    using p(1) by (simp add: counting_ops_def dht_step_def system_of_def sample_start_def)
  also have "\<exists>y. \<dots> = Inr y \<and> y_loop y = Submitting sample_announce [addr_string v6 [10, 0, 0, 1] 6881]
     \<and> y_pipe y = new_pipeline sample_pipe_pool (New False) \<and> y_log y = [Hex zeroID] \<and> \<not> y_dbClosed y"
    by (simp add: system_of_def sample_start_def recv_def p(2) count_hash_def h add proceed_def ev)
  finally show ?thesis by blast
qed

lemma sample_stored:
  assumes "y_loop y = Submitting sample_announce [addr_string v6 [10, 0, 0, 1] 6881]"
    and "y_pipe y = new_pipeline sample_pipe_pool (New False)" and "\<not> y_dbClosed y"
  shows "\<exists>y'. sys_run (\<lambda>_. zeroID) v6 storing_ops y = Inr y' \<and> torrents (pl_storage (y_pipe y')) \<noteq> []"
proof -
  have h: "hash_of sample_announce = Hex zeroID" by (simp add: hash_of_def sample_announce_def Hex_def)
  have d: "hex_decode (Hex zeroID) = Inr (arr_bytes zeroID)" "8 \<le> length (Hex zeroID)"
    by (simp_all add: Hex_def hex_decode_encode)
  have a: "addr_string v6 [10, 0, 0, 1] 6881 \<noteq> []" by (simp add: addr_string_def)
  have db: "db_err z e = e" if "\<not> y_dbClosed z" for z e using that by (simp add: db_err_def)
  let ?job = "\<lparr>j_infoHash = Hex zeroID, j_peerAddr = addr_string v6 [10, 0, 0, 1] 6881\<rparr>"
  have env: "sample_env\<lparr>je_insert_err := None, je_delete_err := None\<rparr> = sample_env" by (simp add: sample_env_def)
  have "\<exists>y7. sys_run (\<lambda>_. zeroID) v6 (butlast storing_ops) y = Inr y7 \<and> pl_active (y_pipe y7) = [(0, ?job)]
      \<and> wp_downloader (pl_pool (y_pipe y7)) = NewMetadataDownloader \<and> pl_storage (y_pipe y7) = New False
      \<and> \<not> y_dbClosed y7"
    using assms
    by (simp add: storing_ops_def submit_job_def h pipe_step_def db new_pipeline_def sample_pipe_pool_def Submit_def
        Add_def feed_def Get_def a TorrentExists_def New_def try_send_def recv_def make_chan_def may_take_def
        downloads_of_def remove_nth_def start_job_def)
  then obtain y7 where y7: "sys_run (\<lambda>_. zeroID) v6 (butlast storing_ops) y = Inr y7"
    "pl_active (y_pipe y7) = [(0, ?job)]" "wp_downloader (pl_pool (y_pipe y7)) = NewMetadataDownloader"
    "pl_storage (y_pipe y7) = New False" "\<not> y_dbClosed y7" by blast
  obtain q s where "finish_job (\<lambda>_. zeroID) v6 sample_env ?job (pl_pool (y_pipe y7)) (New False) = Inr (q, s)"
    "torrents s \<noteq> []"
    using finish_job_success [of ?job "arr_bytes zeroID" sample_env "\<lambda>_. zeroID" "pl_pool (y_pipe y7)" _ v6 "New False"]
      d a y7(3) sample_download sample_parse by (fastforce simp: sample_env_def)
  then have "\<exists>y'. sys_exec (\<lambda>_. zeroID) v6 (PipeOp (PFinish 0 sample_env)) y7 = Inr y' \<and> torrents (pl_storage (y_pipe y')) \<noteq> []"
    using y7 by (simp add: pipe_step_def db env sample_env_def)
  then obtain y' where y': "sys_exec (\<lambda>_. zeroID) v6 (PipeOp (PFinish 0 sample_env)) y7 = Inr y'"
    "torrents (pl_storage (y_pipe y')) \<noteq> []" by blast
  have "storing_ops = butlast storing_ops @ [PipeOp (PFinish 0 sample_env)]" by (simp add: storing_ops_def)
  then have "sys_run (\<lambda>_. zeroID) v6 storing_ops y
      = sys_run (\<lambda>_. zeroID) v6 (butlast storing_ops @ [PipeOp (PFinish 0 sample_env)]) y" by simp
  also have "\<dots> = Inr y'" unfolding run_ops_append using y7(1) y'(1) by simp
  finally show ?thesis using y'(2) by blast
qed

lemma sample_submitted:
  "\<exists>data y. sys_run sha1 v6 (counting_ops data @ [LoopSubmits 0]) (system_of sample_start) = Inr y
     \<and> tokens (y_pipe y) = [Hex zeroID] \<and> \<not> pl_done (y_pipe y)
     \<and> list_all (sys_op_ok (nat (NodeCount_cfg sample_config))) (counting_ops data @ [LoopSubmits 0])"
proof -
  obtain data y1 where y1: "sys_run sha1 v6 (counting_ops data) (system_of sample_start) = Inr y1"
    "y_loop y1 = Submitting sample_announce [addr_string v6 [10, 0, 0, 1] 6881]"
    "y_pipe y1 = new_pipeline sample_pipe_pool (New False)"
    using sample_counted by blast
  have h: "hash_of sample_announce = Hex zeroID" by (simp add: hash_of_def sample_announce_def Hex_def)
  have "\<exists>y. sys_run sha1 v6 [LoopSubmits 0] y1 = Inr y \<and> tokens (y_pipe y) = [Hex zeroID] \<and> \<not> pl_done (y_pipe y)"
    by (simp add: y1(2,3) new_pipeline_def sample_pipe_pool_def tokens_def job_hashes_def Submit_def Add_def h)
  then obtain y where y: "sys_run sha1 v6 [LoopSubmits 0] y1 = Inr y" "tokens (y_pipe y) = [Hex zeroID]"
    "\<not> pl_done (y_pipe y)" by blast
  have "sys_run sha1 v6 (counting_ops data @ [LoopSubmits 0]) (system_of sample_start) = Inr y"
    unfolding run_ops_append using y1(1) y(1) by simp
  moreover have "list_all (sys_op_ok (nat (NodeCount_cfg sample_config))) (counting_ops data @ [LoopSubmits 0])"
    by (simp add: counting_ops_def sample_config_def sample_addr_def)
  ultimately show ?thesis using y(2,3) by blast
qed

section \<open>Properties\<close>

text \<open>C3: Only verified torrents are stored. If every row of the database the crawler starts with is stored
  under the hash of an info dictionary whose name, total size modulo \<open>2 ^ 64\<close>, file paths and number of files it
  shows, then so is every row at any later time, whatever datagrams arrive, peers answer and statements
  fail, and however all goroutines of the crawler interleave up to and during its shutdown. The paths
  are the decoded components as the parser joins them, directories reversed (\<open>reversed_path\<close>), and
  a row holds them in one text, separated by spaces.\<close>

theorem stored_torrents_verified:
  assumes "NewCrawler (Inr s) secret draw now cfg = Inr c" and "\<And>i. length (secret i) = 16"
    and "\<And>row. row \<in> set (torrents s) \<Longrightarrow> verified_row sha1 row"
    and "sys_run sha1 v6 ops (system_of c) = Inr y" and "list_all (sys_op_ok (nat (NodeCount_cfg cfg))) ops"
    and "row \<in> set (torrents (pl_storage (y_pipe y)))"
  shows "verified_row sha1 row"
proof -
  from assms(1) have "c_storage c = s" by (rule NewCrawler_parts)
  then have "rows_ok sha1 (system_of c)" using assms(3) by (simp add: rows_ok_def system_of_def new_pipeline_def)
  with verified.run_keeps [OF assms(4) _ assms(5)] sys_ok_init [OF assms(1,2)] have "rows_ok sha1 y" by blast
  with assms(6) show ?thesis by (simp add: rows_ok_def)
qed

theorem stored_torrents_verified_witness:
  "\<exists>ops y row. sys_run (\<lambda>_. zeroID) (\<lambda>_. []) ops (system_of sample_start) = Inr y
     \<and> row \<in> set (torrents (pl_storage (y_pipe y))) \<and> verified_row (\<lambda>_. zeroID) row"
proof -
  obtain data y1 where y1: "sys_run (\<lambda>_. zeroID) (\<lambda>_. []) (counting_ops data) (system_of sample_start) = Inr y1"
    "y_loop y1 = Submitting sample_announce [addr_string (\<lambda>_. []) [10, 0, 0, 1] 6881]"
    "y_pipe y1 = new_pipeline sample_pipe_pool (New False)" "\<not> y_dbClosed y1"
    using sample_counted by blast
  obtain y where y0: "sys_run (\<lambda>_. zeroID) (\<lambda>_. []) storing_ops y1 = Inr y" "torrents (pl_storage (y_pipe y)) \<noteq> []"
    using sample_stored [OF y1(2-4)] by blast
  then obtain row where y: "sys_run (\<lambda>_. zeroID) (\<lambda>_. []) storing_ops y1 = Inr y"
    "row \<in> set (torrents (pl_storage (y_pipe y)))"
    by (cases "torrents (pl_storage (y_pipe y))") auto
  let ?ops = "counting_ops data @ storing_ops"
  have r: "sys_run (\<lambda>_. zeroID) (\<lambda>_. []) ?ops (system_of sample_start) = Inr y"
    unfolding run_ops_append by (simp add: y1(1) y(1))
  have ok: "list_all (sys_op_ok (nat (NodeCount_cfg sample_config))) ?ops"
    by (simp add: counting_ops_def storing_ops_def sample_config_def sample_addr_def sample_env_def)
  have e: "torrents (New False) = []" by (simp add: New_def)
  have "verified_row (\<lambda>_. zeroID) row"
    by (rule stored_torrents_verified [OF sample_start _ _ r ok y(2)]) (simp_all add: e)
  with r y(2) show ?thesis by blast
qed

text \<open>C4: No request is lost while the crawler runs. As long as no torrent is stored for a hash, its
  count in the cache, the batches being flushed and the database together is the count the database
  started with plus the number of events for it that were counted, however the flusher, the loop, the
  workers and failing transactions interleave; and the counter of additions is the number of them.\<close>

theorem requests_on_record:
  assumes "NewCrawler (Inr s) secret draw now cfg = Inr c" and "\<And>i. length (secret i) = 16"
    and "sys_run sha1 v6 ops (system_of c) = Inr y" and "list_all (sys_op_ok (nat (NodeCount_cfg cfg))) ops"
    and "h \<notin> stored_hashes y"
  shows "requests y h = db_count s h + int (count_list (y_log y) h)
    \<and> totalAdded (y_cache y) = of_nat (length (y_log y))"
  using sys_reachable [OF assms(1-4)] assms(5) by (simp add: sys_ok_def counts_ok_def)

theorem requests_on_record_witness:
  "\<exists>data y. sys_run (\<lambda>_. zeroID) (\<lambda>_. []) (counting_ops data) (system_of sample_start) = Inr y
     \<and> requests y (Hex zeroID) = 1 \<and> totalAdded (y_cache y) = 1"
proof -
  obtain data y where y: "sys_run (\<lambda>_. zeroID) (\<lambda>_. []) (counting_ops data) (system_of sample_start) = Inr y"
    "y_pipe y = new_pipeline sample_pipe_pool (New False)" "y_log y = [Hex zeroID]"
    using sample_counted by blast
  have e: "torrents (New False) = []" "db_count (New False) h = 0" for h
    by (simp_all add: New_def db_count_def row_count_def)
  have ok: "list_all (sys_op_ok (nat (NodeCount_cfg sample_config))) (counting_ops data)"
    by (simp add: counting_ops_def sample_config_def sample_addr_def)
  have n: "Hex zeroID \<notin> stored_hashes y" by (simp add: stored_hashes_def y(2) new_pipeline_def e)
  have "requests y (Hex zeroID) = db_count (New False) (Hex zeroID) + int (count_list (y_log y) (Hex zeroID))
      \<and> totalAdded (y_cache y) = of_nat (length (y_log y))"
    by (rule requests_on_record [OF sample_start _ y(1) ok n]) simp
  with y(1,3) e show ?thesis by (intro exI [of _ data] exI [of _ y]) simp
qed

text \<open>C2: The running crawler stays within its bounds. Whatever happens in whatever order, and whatever database it starts with, every node
  keeps its invariant, at most ten searches of the DHT run, the downloads stay within workers times
  downloads per worker, no two jobs are for one hash, every hash in the pipeline is the hexadecimal form
  of twenty bytes, and every job names a peer.\<close>

theorem crawler_invariant:
  assumes "NewCrawler (Inr s) secret draw now cfg = Inr c" and "\<And>i. length (secret i) = 16"
    and "sys_run sha1 v6 ops (system_of c) = Inr y" and "list_all (sys_op_ok (nat (NodeCount_cfg cfg))) ops"
  shows "wf_pool (y_dht y) \<and> length (filter holds_slot (y_searches y)) \<le> 10
    \<and> distinct (tokens (y_pipe y)) \<and> (\<forall>h. h \<in> set (tokens (y_pipe y)) \<longrightarrow> is_hash h)
    \<and> (\<forall>j. j \<in> set (jobs_of (y_pipe y)) \<longrightarrow> j_peerAddr j \<noteq> [])
    \<and> (0 \<le> wp_numWorkers (pl_pool (y_pipe y)) \<and> 0 \<le> wp_perWorker (pl_pool (y_pipe y)) \<longrightarrow>
        int (length (pl_spawned (y_pipe y) @ pl_active (y_pipe y)))
          \<le> wp_numWorkers (pl_pool (y_pipe y)) * wp_perWorker (pl_pool (y_pipe y)))"
proof -
  have ok: "dht_ok (nat (NodeCount_cfg cfg)) y" "pipeline_ok y" "searches_ok y"
    using sys_reachable [OF assms(1-4)] by (simp_all add: sys_ok_def)
  have named: "is_hash h" if "h \<in> set (tokens (y_pipe y))" for h
  proof -
    have "h \<in> set (map di_infoHash (q_items (wp_queue (pl_pool (y_pipe y))))) \<or> h \<in> j_infoHash ` set (jobs_of (y_pipe y))"
      using that by (auto simp: tokens_def jobs_of_def job_hashes_def split: option.splits)
    then show ?thesis using ok(2) by (auto simp: pipeline_ok_def jobs_named_def)
  qed
  then show ?thesis using ok workers_ok_bound [of "y_pipe y"]
    by (auto simp: dht_ok_def pipeline_ok_def searches_ok_def pipe_ok_def jobs_named_def)
qed

theorem crawler_invariant_witness:
  "\<exists>data y. sys_run (\<lambda>_. zeroID) (\<lambda>_. []) (counting_ops data @ [LoopSubmits 0]) (system_of sample_start) = Inr y
     \<and> tokens (y_pipe y) = [Hex zeroID] \<and> is_hash (Hex zeroID) \<and> wf_pool (y_dht y)"
proof -
  obtain data y where y: "sys_run (\<lambda>_. zeroID) (\<lambda>_. []) (counting_ops data @ [LoopSubmits 0]) (system_of sample_start) = Inr y"
    "tokens (y_pipe y) = [Hex zeroID]"
    "list_all (sys_op_ok (nat (NodeCount_cfg sample_config))) (counting_ops data @ [LoopSubmits 0])"
    using sample_submitted by blast
  have "wf_pool (y_dht y) \<and> (\<forall>h. h \<in> set (tokens (y_pipe y)) \<longrightarrow> is_hash h)"
    using crawler_invariant [OF sample_start _ y(1,3)] by simp
  with y(1,2) show ?thesis by auto
qed



end
