(* ===== verification/Progress.thy ===== *)
theory Progress
  imports Crawl_System
begin

text \<open>
  Nothing gets stuck. Two interpretations of \<open>progressing\<close> on the running crawler: the feeder, the
  workers and the downloads finish every hash in flight as long as the context is not done
  (\<open>internal/crawler/worker.go\<close>), and after its end the loop of \<open>Run\<close> comes to its return
  (\<open>internal/crawler/crawler.go\<close>).
\<close>

section \<open>The work of the pipeline\<close>

text \<open>The steps of the feeder, the workers and the downloads while the context is not done.\<close>

fun own_step :: "pipe_op \<Rightarrow> bool" where
  "own_step (PFeed err) = True"
| "own_step PSend = True"
| "own_step (PHand w) = True"
| "own_step (PTake w) = True"
| "own_step (PAcquire i) = True"
| "own_step (PStart i) = True"
| "own_step (PFinish i env) = True"
| "own_step _ = False"

text \<open>The steps a hash has still to take: from the queue over feeder, channel, worker and goroutine to its end.\<close>

definition work :: "pipeline \<Rightarrow> nat" where
  "work pl = 6 * length (q_items (wp_queue (pl_pool pl)))
     + (case pl_feeding pl of None \<Rightarrow> 0 | Some _ \<Rightarrow> 5) + 4 * length (ch_buf (wp_jobs (pl_pool pl)))
     + 3 * length (pl_held pl) + 2 * length (pl_spawned pl) + length (pl_active pl)"

lemma work_tokens: "work pl \<le> 6 * length (tokens pl)"
  by (simp add: work_def tokens_def job_hashes_def split: option.split)

lemma own_step_lowers:
  assumes "pipe_exec sha1 v6 op pl = Inr pl'" and "own_step op"
  shows "pl' = pl \<or> work pl' < work pl"
proof (cases op)
  case (PFeed err)
  show ?thesis
  proof (cases "pl_feeding pl \<noteq> None \<or> pl_feeder_gone pl")
    case False
    obtain j p where f: "feed err (pl_storage pl) (pl_pool pl) = (j, p)" by force
    then have e: "pl' = pl\<lparr>pl_pool := p, pl_feeding := j\<rparr>" "pl_feeding pl = None" using assms(1) PFeed False by simp_all
    from f show ?thesis
      by (cases rule: feed_cases) (use e in \<open>simp_all add: work_def complete_def Complete_def\<close>)
  qed (use assms PFeed in auto)
next
  case (PFinish i env)
  then show ?thesis using assms(1) finish_job_queue
    by (fastforce simp: work_def Complete_def split: if_splits sum.splits)
qed (use assms in \<open>auto simp: work_def try_send_Inr recv_def start_job_def split: if_splits option.splits sum.splits list.splits\<close>)

section \<open>Until the end of the context\<close>

text \<open>
  The configuration of the pool never changes, and before the context is done the feeder runs and
  no worker has returned.
\<close>

definition steady :: "int \<Rightarrow> int \<Rightarrow> pipeline \<Rightarrow> bool" where
  "steady workers per pl \<longleftrightarrow> wp_numWorkers (pl_pool pl) = workers \<and> wp_perWorker (pl_pool pl) = per
     \<and> (\<not> pl_done pl \<longrightarrow> pl_exited pl = [] \<and> \<not> pl_feeder_gone pl)"

lemma steady_step:
  assumes "steady workers per pl" and "pipe_exec sha1 v6 op pl = Inr pl'"
  shows "steady workers per pl'"
proof -
  have "\<not> pl_done pl' \<longrightarrow> pl_exited pl' = [] \<and> \<not> pl_feeder_gone pl'"
    using assms by (cases op) (auto simp: steady_def split: if_splits option.splits sum.splits prod.splits)
  then show ?thesis using assms(1) pipe_exec_config [OF assms(2)] by (simp add: steady_def)
qed

lemma steady_sys_step:
  assumes "steady workers per (y_pipe y)" and "sys_exec sha1 v6 op y = Inr y'" and "sys_op_ok k op"
  shows "steady workers per (y_pipe y')"
  using assms(2,3)
proof (cases rule: sys_pipe_cases)
  case (step pop)
  then show ?thesis using steady_step [OF assms(1)] by blast
qed (use assms(1) in \<open>simp add: steady_def\<close>)

interpretation steadiness: machine "sys_exec sha1 v6" "\<lambda>y. steady workers per (y_pipe y)" "sys_op_ok k"
  for sha1 v6 workers per k
  by unfold_locales (rule steady_sys_step)

section \<open>A next step\<close>

definition no_peer :: job_env where
  "no_peer = \<lparr>je_found = [], je_dial = (\<lambda>_ _. Inl (Err ErrTimeout)), je_cancelled = (\<lambda>_. False), je_busy = (\<lambda>_. 0),
     je_insert_err = None, je_delete_err = None, je_now = 0\<rparr>"

lemma finish_without_peer:
  assumes "is_hash (j_infoHash job)" and "je_dial env = je_dial no_peer"
  shows "\<exists>p' s'. finish_job sha1 v6 env job p s = Inr (p', s')"
proof (cases "finish_job sha1 v6 env job p s")
  case (Inl f)
  obtain x where x: "j_infoHash job = hex_encode (arr_bytes x)" using assms(1) by (auto simp: is_hash_def)
  from finish_job_panics [OF Inl x] show ?thesis using assms(2) by (auto simp: no_peer_def Download_def)
qed auto

definition running :: "pipeline \<Rightarrow> bool" where
  "running pl \<longleftrightarrow> \<not> pl_done pl \<and> \<not> ch_closed (wp_jobs (pl_pool pl)) \<and> pl_exited pl = [] \<and> \<not> pl_feeder_gone pl
     \<and> 0 < wp_numWorkers (pl_pool pl) \<and> 0 < wp_perWorker (pl_pool pl)"

text \<open>While a hash is in flight, a step of the pipeline's own changes it; a download may fail at worst.\<close>

lemma pipe_enabled:
  assumes "running pl" and "jobs_named pl" and "tokens pl \<noteq> []"
  shows "\<exists>op. own_step op \<and> (\<forall>i env. op = PFinish i env \<longrightarrow> env = no_peer)
    \<and> (\<forall>y. \<exists>pl'. pipe_exec sha1 v6 (pipe_op_of y op) pl = Inr pl' \<and> pl' \<noteq> pl)"
proof -
  have may: "may_take 0 pl" if "pl_held pl = []" using that assms(1) by (simp add: may_take_def running_def)
  consider (active) "pl_active pl \<noteq> []"
    | (spawned) "pl_active pl = []" "pl_spawned pl \<noteq> []"
    | (held) "pl_active pl = []" "pl_spawned pl = []" "pl_held pl \<noteq> []"
    | (sent) "pl_held pl = []" "ch_buf (wp_jobs (pl_pool pl)) \<noteq> []"
    | (feeding) j where "pl_held pl = []" "ch_buf (wp_jobs (pl_pool pl)) = []" "pl_feeding pl = Some j"
    | (queued) "pl_feeding pl = None" "q_items (wp_queue (pl_pool pl)) \<noteq> []"
    using assms(3) by (cases "pl_feeding pl") (auto simp: tokens_def job_hashes_def)
  then show ?thesis
  proof cases
    case active
    then have i: "0 < length (pl_active pl)" by simp
    then have "snd (pl_active pl ! 0) \<in> set (jobs_of pl)" by (simp add: jobs_of_def)
    then have h: "is_hash (j_infoHash (snd (pl_active pl ! 0)))" using assms(2) by (simp add: jobs_named_def)
    have "\<exists>pl'. pipe_exec sha1 v6 (pipe_op_of y (PFinish 0 no_peer)) pl = Inr pl' \<and> pl' \<noteq> pl" for y
    proof -
      let ?env = "no_peer\<lparr>je_insert_err := db_err y (je_insert_err no_peer), je_delete_err := db_err y (je_delete_err no_peer)\<rparr>"
      obtain p s where f: "finish_job sha1 v6 ?env (snd (pl_active pl ! 0)) (pl_pool pl) (pl_storage pl) = Inr (p, s)"
        using finish_without_peer [OF h, of ?env] by fastforce
      have "remove_nth 0 (pl_active pl) \<noteq> pl_active pl" using i by (cases "pl_active pl") (auto simp: remove_nth_def)
      then have "pl\<lparr>pl_pool := p, pl_storage := s, pl_active := remove_nth 0 (pl_active pl)\<rparr> \<noteq> pl"
        by (metis pipeline.select_convs(6) pipeline.surjective pipeline.update_convs(1,2,6))
      then show ?thesis using f i by simp
    qed
    then show ?thesis by (intro exI [of _ "PFinish 0 no_peer"]) simp
  next
    case spawned
    then show ?thesis
      by (intro exI [of _ "PStart 0"]) (auto dest: arg_cong [where f = pl_active])
  next
    case held
    then have "int (downloads_of w pl) < wp_perWorker (pl_pool pl)" for w
      using assms(1) by (simp add: downloads_of_def running_def)
    then show ?thesis using held
      by (intro exI [of _ "PAcquire 0"]) (auto dest: arg_cong [where f = pl_spawned])
  next
    case sent
    then obtain j js where "ch_buf (wp_jobs (pl_pool pl)) = j # js" by (cases "ch_buf (wp_jobs (pl_pool pl))") auto
    then show ?thesis using sent may
      by (intro exI [of _ "PTake 0"]) (auto simp: recv_def dest: arg_cong [where f = pl_held])
  next
    case (feeding j)
    then show ?thesis using may assms(1)
      by (intro exI [of _ "PHand 0"]) (auto simp: running_def dest: arg_cong [where f = pl_held])
  next
    case queued
    have "\<exists>pl'. pipe_exec sha1 v6 (PFeed e) pl = Inr pl' \<and> pl' \<noteq> pl" for e
    proof -
      obtain j p where f: "feed e (pl_storage pl) (pl_pool pl) = (j, p)" by force
      then have "q_items (wp_queue p) \<noteq> q_items (wp_queue (pl_pool pl))"
        by (cases rule: feed_cases) (use queued in \<open>simp_all add: complete_def Complete_def\<close>)
      then have "pl\<lparr>pl_pool := p, pl_feeding := j\<rparr> \<noteq> pl" by (auto dest: arg_cong [where f = pl_pool])
      then show ?thesis using f queued assms(1) by (simp add: running_def)
    qed
    then show ?thesis by (intro exI [of _ "PFeed None"]) simp
  qed
qed

section \<open>The pipeline as part of the crawler\<close>

fun own_op :: "nat \<Rightarrow> sys_op \<Rightarrow> bool" where
  "own_op k (PipeOp op) = (own_step op \<and> sys_op_ok k (PipeOp op))"
| "own_op k _ = False"

text \<open>The steps of the pipeline keep it running until the context is done.\<close>

lemma running_own:
  assumes "running pl" and "pipe_exec sha1 v6 op pl = Inr pl'" and "own_step op"
  shows "running pl'"
proof -
  have "steady (wp_numWorkers (pl_pool pl)) (wp_perWorker (pl_pool pl)) pl" using assms(1) by (simp add: running_def steady_def)
  note st = steady_step [OF this assms(2)]
  have "pl_done pl' = pl_done pl"
    using assms(2,3) by (cases op) (auto split: if_splits option.splits sum.splits prod.splits)
  then show ?thesis
    using st assms(1) closed_done_step [OF assms(2)] by (auto simp: running_def steady_def)
qed

lemma own_op_cases:
  assumes "own_op k op" and "sys_exec sha1 v6 op y = Inr y'"
  obtains pop pl where "pipe_exec sha1 v6 pop (y_pipe y) = Inr pl" "own_step pop" "y' = y\<lparr>y_pipe := pl\<rparr>" "sys_op_ok k op"
proof -
  obtain pop where op: "op = PipeOp pop" "own_step pop" using assms(1) by (cases op) auto
  then have "own_step (pipe_op_of y pop)" by (cases pop) auto
  with op that assms show thesis by (auto simp: pipe_step_def split: sum.splits)
qed

interpretation drain: progressing "sys_exec sha1 v6" "\<lambda>y. sys_ok s0 t0 k y \<and> running (y_pipe y)" "own_op k"
    "\<lambda>y. work (y_pipe y)" "\<lambda>y. tokens (y_pipe y) = []" for sha1 v6 s0 t0 k
proof unfold_locales
  fix y y' op
  assume inv: "sys_ok s0 t0 k y \<and> running (y_pipe y)" and op: "own_op k op" "sys_exec sha1 v6 op y = Inr y'"
  from op obtain pop pl where p: "pipe_exec sha1 v6 pop (y_pipe y) = Inr pl" "own_step pop" "y' = y\<lparr>y_pipe := pl\<rparr>"
    "sys_op_ok k op" by (rule own_op_cases)
  show "sys_ok s0 t0 k y' \<and> running (y_pipe y')"
    using sys_ok_step [OF _ p(4) op(2)] running_own [OF _ p(1,2)] inv p(3) by simp
  show "y' = y \<or> work (y_pipe y') < work (y_pipe y)"
    using own_step_lowers [OF p(1,2)] p(3) by auto
next
  fix y
  assume inv: "sys_ok s0 t0 k y \<and> running (y_pipe y)" and "tokens (y_pipe y) \<noteq> []"
  then obtain op where op: "own_step op" "\<forall>i env. op = PFinish i env \<longrightarrow> env = no_peer"
    "\<forall>y'. \<exists>pl. pipe_exec sha1 v6 (pipe_op_of y' op) (y_pipe y) = Inr pl \<and> pl \<noteq> y_pipe y"
    using pipe_enabled [of "y_pipe y" sha1 v6] by (auto simp: sys_ok_def pipeline_ok_def)
  then obtain pl where pl: "pipe_exec sha1 v6 (pipe_op_of y op) (y_pipe y) = Inr pl" "pl \<noteq> y_pipe y" by blast
  have "own_op k (PipeOp op)" using op(1,2) by (cases op) (auto simp: no_peer_def)
  moreover have "sys_exec sha1 v6 (PipeOp op) y = Inr (y\<lparr>y_pipe := pl\<rparr>)" using pl(1) by (simp add: pipe_step_def)
  moreover have "y\<lparr>y_pipe := pl\<rparr> \<noteq> y" using pl(2) by (auto dest: arg_cong [where f = y_pipe])
  ultimately show "\<exists>op y'. own_op k op \<and> sys_exec sha1 v6 op y = Inr y' \<and> y' \<noteq> y" by blast
qed

lemma running_reachable:
  assumes "NewCrawler (Inr s) secret draw now cfg = Inr c" and "0 < DownloadWorkers cfg" and "0 < DownloadPerWorker cfg"
    and "sys_run sha1 v6 ops (system_of c) = Inr y" and "list_all (sys_op_ok k) ops"
    and "pipeline_ok y" and "\<not> pl_done (y_pipe y)"
  shows "running (y_pipe y)"
proof -
  have "steady (DownloadWorkers cfg) (DownloadPerWorker cfg) (y_pipe (system_of c))"
    using assms(1) by (auto simp: NewCrawler_def NewWorkerPool_def steady_def system_of_def new_pipeline_def Let_def
        split: sum.splits if_splits)
  from steadiness.run_keeps [OF assms(4) this assms(5)] show ?thesis
    using assms(2,3,6,7) by (auto simp: steady_def running_def pipeline_ok_def)
qed

section \<open>The shutdown\<close>

text \<open>
  The steps of the loop of \<open>Run\<close> other than taking an event, which its \<open>select\<close> may prefer to the
  end of the context as long as there are events.
\<close>

fun loop_op :: "sys_op \<Rightarrow> bool" where
  "loop_op (LoopCounts now) = True"
| "loop_op LoopFlushes = True"
| "loop_op (LoopStores env now ord) = (\<forall>xs. mset (ord xs) = mset xs)"
| "loop_op (LoopSubmits now) = True"
| "loop_op LoopStops = True"
| "loop_op LoopCloses = True"
| "loop_op _ = False"

fun loop_rank :: "loop \<Rightarrow> nat" where
  "loop_rank Ended = 0"
| "loop_rank StoppingPool = 1"
| "loop_rank ClosingStorage = 2"
| "loop_rank (Storing FinishRun its) = 3"
| "loop_rank (Flushing FinishRun) = 4"
| "loop_rank Waiting = 5"
| "loop_rank (Submitting ev addrs) = 6 + length addrs"
| "loop_rank (Storing (Resume ev) its) = 12"
| "loop_rank (Flushing (Resume ev)) = 13"
| "loop_rank (Counting ev) = 14"

lemma length_event_addrs: "length (event_addrs v6 ev) \<le> 5"
proof -
  have "length (filter (\<lambda>port. port \<noteq> ev_PeerPort ev) common_ports) \<le> length common_ports" by (rule length_filter_le)
  then show ?thesis by (cases "ev_Type ev") (simp_all add: event_addrs_def common_ports_def)
qed

lemma loop_rank_proceed:
  "loop_rank (y_loop (proceed v6 (Resume ev) y)) < 12" "loop_rank (y_loop (proceed v6 FinishRun y)) < 3"
  using length_event_addrs [of v6 ev] by (simp_all add: proceed_def split: event_type.split)

lemma loop_rank_count_hash: "loop_rank (y_loop (count_hash v6 now ev y)) < 14"
proof -
  have "loop_rank (y_loop (proceed v6 (Resume ev) z)) < 14" for z
    using loop_rank_proceed(1) [of v6 ev z] by simp
  then show ?thesis by (simp add: count_hash_def Let_def split: prod.split)
qed

lemma loop_op_lowers:
  assumes "sys_exec sha1 v6 op y = Inr y'" and "loop_op op"
  shows "y' = y \<or> loop_rank (y_loop y') < loop_rank (y_loop y)"
proof (cases op)
  case (LoopCounts now)
  show ?thesis
  proof (cases "\<exists>ev. y_loop y = Counting ev")
    case True
    then show ?thesis using assms(1) LoopCounts loop_rank_count_hash by auto
  qed (use assms(1) LoopCounts in \<open>auto split: loop.splits\<close>)
next
  case LoopFlushes
  show ?thesis
  proof (cases "\<exists>g. y_loop y = Flushing g")
    case True
    then obtain g where g: "y_loop y = Flushing g" by blast
    then show ?thesis using assms(1) LoopFlushes loop_rank_proceed
      by (cases g) (auto split: option.splits intro: less_trans)
  qed (use assms(1) LoopFlushes in \<open>auto split: loop.splits\<close>)
next
  case (LoopStores env now ord)
  show ?thesis
  proof (cases "\<exists>g its. y_loop y = Storing g its")
    case True
    then obtain g its where g: "y_loop y = Storing g its" by blast
    then show ?thesis using assms(1) LoopStores loop_rank_proceed
      by (cases g) auto
  qed (use assms(1) LoopStores in \<open>auto split: loop.splits\<close>)
next
  case (LoopSubmits now)
  show ?thesis
  proof (cases "\<exists>ev addrs. y_loop y = Submitting ev addrs")
    case True
    then obtain ev addrs where "y_loop y = Submitting ev addrs" by blast
    then show ?thesis using assms(1) LoopSubmits by (cases addrs) auto
  qed (use assms(1) LoopSubmits in \<open>auto split: loop.splits\<close>)
qed (use assms in \<open>auto split: loop.splits sum.splits if_splits\<close>)

lemma loop_op_total:
  assumes "dht_ok k y" and "loop_op op"
  shows "\<exists>y'. sys_exec sha1 v6 op y = Inr y'"
proof (cases op)
  case LoopCloses
  then show ?thesis using assms(1)
    by (cases "y_loop y") (auto simp: dht_ok_def Stop_pool_def close_chan_def split: if_splits)
qed (use assms(2) in \<open>auto split: loop.split list.split option.split\<close>)

lemma loop_enabled:
  assumes "dht_ok k y" and "y_loop y = Waiting \<longrightarrow> pl_done (y_pipe y)" and "y_loop y \<noteq> Ended"
  shows "\<exists>op y'. loop_op op \<and> sys_exec sha1 v6 op y = Inr y' \<and> y' \<noteq> y"
proof -
  have moved: ?thesis if "loop_op op" "sys_exec sha1 v6 op y = Inr z" "loop_rank (y_loop z) < loop_rank (y_loop y)"
    for op z using that by blast
  show ?thesis
  proof (cases "y_loop y")
    case Waiting
    then show ?thesis using assms(2) by (intro moved [of LoopStops]) auto
  next
    case (Counting ev)
    then show ?thesis using loop_rank_count_hash [of v6 0 ev y] by (intro moved [of "LoopCounts 0"]) auto
  next
    case (Flushing g)
    show ?thesis
    proof (cases "flush_take (y_cache y)")
      case None
      then show ?thesis using Flushing less_trans [OF loop_rank_proceed(1), where z = 13]
          less_trans [OF loop_rank_proceed(2), where z = 4]
        by (cases g) (intro moved [of LoopFlushes]; auto)+
    next
      case (Some b)
      then obtain its c where "flush_take (y_cache y) = Some (its, c)" by (cases b) auto
      then show ?thesis using Flushing
        by (intro moved [of LoopFlushes "y\<lparr>y_cache := c, y_loop := Storing g its\<rparr>"]) (cases g, simp_all)+
    qed
  next
    case (Storing g its)
    let ?z = "proceed v6 g (store_batch no_failure 0 (\<lambda>xs. xs) its y)"
    have "loop_rank (y_loop ?z) < loop_rank (y_loop y)"
      using Storing loop_rank_proceed by (cases g) simp_all
    then show ?thesis using Storing by (intro moved [of "LoopStores no_failure 0 (\<lambda>xs. xs)" ?z]) simp_all
  next
    case (Submitting ev addrs)
    show ?thesis
    proof (cases addrs)
      case Nil
      then show ?thesis using Submitting by (intro moved [of "LoopSubmits 0"]) auto
    next
      case (Cons a as)
      then show ?thesis using Submitting by (intro moved [of "LoopSubmits 0"]) auto
    qed
  next
    case ClosingStorage
    then show ?thesis by (intro moved [of LoopCloses]) auto
  next
    case StoppingPool
    then have "\<not> ch_closed (p_eventChan (y_dht y))" using assms(1) by (auto simp: dht_ok_def)
    then show ?thesis using StoppingPool
      by (intro moved [of LoopCloses]) (auto simp: Stop_pool_def close_chan_def)
  qed (use assms(3) in simp)
qed

text \<open>At the end of \<open>Run\<close> the database is closed and the pool is stopped.\<close>

definition ended_ok :: "system \<Rightarrow> bool" where
  "ended_ok y \<longleftrightarrow> (y_loop y = StoppingPool \<longrightarrow> y_dbClosed y)
     \<and> (y_loop y = Ended \<longrightarrow> y_dbClosed y \<and> ch_closed (p_eventChan (y_dht y)))"

lemma ended_ok_same:
  "ended_ok y \<Longrightarrow> y_loop y' = y_loop y \<or> y_loop y' \<notin> {StoppingPool, Ended} \<Longrightarrow> y_dbClosed y' = y_dbClosed y \<Longrightarrow>
    ch_closed (p_eventChan (y_dht y')) = ch_closed (p_eventChan (y_dht y)) \<Longrightarrow> ended_ok y'"
  by (auto simp: ended_ok_def)

lemma dht_step_fields:
  assumes "dht_step op y = Inr y'" and "op \<noteq> StopPool"
  shows "y_loop y' = y_loop y \<and> y_dbClosed y' = y_dbClosed y \<and> y_pipe y' = y_pipe y
    \<and> ch_closed (p_eventChan (y_dht y')) = ch_closed (p_eventChan (y_dht y))"
  using assms pool_exec_closed by (auto simp: dht_step_def split: sum.splits)

lemma proceed_loop [simp]: "y_loop (proceed v6 g y) \<noteq> StoppingPool" "y_loop (proceed v6 g y) \<noteq> Ended"
  "y_dbClosed (proceed v6 g y) = y_dbClosed y"
  by (auto simp: proceed_def split: goal.split event_type.split)

lemma dbClosed_fields [simp]:
  "y_dbClosed (set_search i x y) = y_dbClosed y" "y_dbClosed (end_search i y) = y_dbClosed y"
  "y_dbClosed (leave_search i y) = y_dbClosed y" "y_dbClosed (snd (submit_job now h a y)) = y_dbClosed y"
  "y_dbClosed (store_batch env now ord its y) = y_dbClosed y"
  by (simp_all add: set_search_def end_search_def leave_search_def submit_job_def store_batch_def split: prod.split)

lemma ended_ok_step:
  assumes "ended_ok y" and "sys_exec sha1 v6 op y = Inr y'" and "dht_ok k y"
  shows "ended_ok y'"
proof (cases op)
  case (NodeOp i nop)
  then show ?thesis using assms dht_step_fields [of "OnNode i nop" y y'] by (intro ended_ok_same [OF assms(1)]) auto
next
  case Collect
  then show ?thesis using assms dht_step_fields [of CollectStats y y'] by (intro ended_ok_same [OF assms(1)]) auto
next
  case LoopTakes
  then show ?thesis using assms
    by (cases "y_loop y") (auto simp: ended_ok_def dht_ok_def recv_def split: list.splits if_splits)
next
  case (LoopCounts now)
  then show ?thesis using assms(1,2)
    by (cases "y_loop y") (auto simp: ended_ok_def count_hash_def Let_def split: prod.splits if_splits)
next
  case LoopFlushes
  then show ?thesis using assms(1,2) by (cases "y_loop y") (auto simp: ended_ok_def split: option.splits)
next
  case (LoopStores env now ord)
  then show ?thesis using assms(1,2) by (cases "y_loop y") (auto simp: ended_ok_def)
next
  case (LoopSubmits now)
  then show ?thesis using assms(1,2)
    by (cases "y_loop y") (auto simp: ended_ok_def split: list.splits)
next
  case LoopStops
  then show ?thesis using assms(1,2) by (auto simp: ended_ok_def split: if_splits)
next
  case LoopCloses
  then show ?thesis using assms(1,2)
    by (cases "y_loop y") (auto simp: ended_ok_def Stop_pool_def close_chan_def split: sum.splits if_splits)
next
  case (SearchSubmits i now)
  then have "search_step v6 (SearchSubmits i now) y = Inr y'" using assms(2) by simp
  then show ?thesis by (cases rule: search_submits_cases) (auto intro!: ended_ok_same [OF assms(1)])
qed (use assms(2) in \<open>intro ended_ok_same [OF assms(1)]; auto simp: pipe_step_def store_batch_def Let_def
    split: loop.splits option.splits prod.splits sum.splits search.splits if_splits bool.splits list.splits\<close>)+

interpretation ending: machine "sys_exec sha1 v6" "\<lambda>y. sys_ok s0 t0 k y \<and> ended_ok y" "sys_op_ok k" for sha1 v6 s0 t0 k
proof unfold_locales
  fix y op y'
  assume y: "sys_ok s0 t0 k y \<and> ended_ok y" and op: "sys_op_ok k op" "sys_exec sha1 v6 op y = Inr y'"
  then have "dht_ok k y" by (simp add: sys_ok_def)
  with y op show "sys_ok s0 t0 k y' \<and> ended_ok y'" using sys_ok_step ended_ok_step by blast
qed

lemma pipe_done: "pipe_exec sha1 v6 op pl = Inr pl' \<Longrightarrow> pl_done pl \<Longrightarrow> pl_done pl'"
  by (cases op) (auto split: if_splits option.splits sum.splits prod.splits)

lemma loop_op_ok: "loop_op op \<Longrightarrow> sys_op_ok k op"
  by (cases op) simp_all

interpretation stop: progressing "sys_exec sha1 v6" "\<lambda>y. sys_ok s0 t0 k y \<and> pl_done (y_pipe y)" loop_op
    "\<lambda>y. loop_rank (y_loop y)" "\<lambda>y. y_loop y = Ended" for sha1 v6 s0 t0 k
proof unfold_locales
  fix y y' op
  assume inv: "sys_ok s0 t0 k y \<and> pl_done (y_pipe y)" and op: "loop_op op" "sys_exec sha1 v6 op y = Inr y'"
  have ok: "sys_op_ok k op" by (rule loop_op_ok [OF op(1)])
  have "pl_done (y_pipe y')"
    using op(2) ok by (cases rule: sys_pipe_cases) (use inv pipe_done in auto)
  then show "sys_ok s0 t0 k y' \<and> pl_done (y_pipe y')" using sys_ok_step [OF _ ok op(2)] inv by blast
  show "y' = y \<or> loop_rank (y_loop y') < loop_rank (y_loop y)" by (rule loop_op_lowers [OF op(2,1)])
next
  fix y
  assume "sys_ok s0 t0 k y \<and> pl_done (y_pipe y)" and "y_loop y \<noteq> Ended"
  then show "\<exists>op y'. loop_op op \<and> sys_exec sha1 v6 op y = Inr y' \<and> y' \<noteq> y"
    using loop_enabled by (auto simp: sys_ok_def)
qed

text \<open>An event is submitted under at most five addresses, so the rank of a loop is at most 14.\<close>

lemma loop_kept:
  assumes "sys_exec sha1 v6 op y = Inr y'" and "sys_op_ok k op" and "\<not> loop_op op" and "op \<noteq> LoopTakes"
  shows "y_loop y' = y_loop y"
proof (cases op)
  case (SearchSubmits i now)
  then have "search_step v6 (SearchSubmits i now) y = Inr y'" using assms(1) by simp
  then show ?thesis by (cases rule: search_submits_cases) auto
qed (use assms in \<open>auto simp: dht_step_def pipe_step_def store_batch_def Let_def
    split: option.splits prod.splits sum.splits search.splits if_splits bool.splits list.splits\<close>)

lemma loop_rank_step:
  assumes "loop_rank (y_loop y) \<le> 14" and "sys_exec sha1 v6 op y = Inr y'" and "sys_op_ok k op"
  shows "loop_rank (y_loop y') \<le> 14"
proof -
  consider "loop_op op" | "op = LoopTakes" | "\<not> loop_op op" "op \<noteq> LoopTakes" by blast
  then show ?thesis
  proof cases
    case 1
    then show ?thesis using loop_op_lowers [OF assms(2)] assms(1) by auto
  next
    case 2
    then show ?thesis using assms(1,2)
      by (cases "y_loop y") (auto split: option.splits prod.splits if_splits)
  next
    case 3
    then show ?thesis using loop_kept [OF assms(2,3)] assms(1) by simp
  qed
qed

interpretation ranked: machine "sys_exec sha1 v6" "\<lambda>y. loop_rank (y_loop y) \<le> 14" "sys_op_ok k" for sha1 v6 k
  by unfold_locales (rule loop_rank_step)

section \<open>Properties\<close>

text \<open>C6: No job gets stuck. In every state the running crawler reaches before the end of its context, with at
  least one worker and one download per worker: left to themselves, the feeder, the workers and the
  downloads change the state at most six times for each hash in flight, whatever they do in whatever order
  and whatever the peers and the database answer; as long as a hash is in flight one of them can take a
  step that changes the state; and a schedule of at most that many steps leaves no hash in flight.\<close>

theorem jobs_finish:
  assumes "NewCrawler (Inr s) secret draw now cfg = Inr c" and "\<And>i. length (secret i) = 16"
    and "sys_run sha1 v6 ops (system_of c) = Inr y" and "list_all (sys_op_ok (nat (NodeCount_cfg cfg))) ops"
    and "0 < DownloadWorkers cfg" and "0 < DownloadPerWorker cfg" and "\<not> pl_done (y_pipe y)"
  shows "(\<forall>more y'. list_all (own_op (nat (NodeCount_cfg cfg))) more \<and> sys_run sha1 v6 more y = Inr y' \<longrightarrow>
        changes (sys_exec sha1 v6) more y \<le> 6 * length (tokens (y_pipe y))
        \<and> (tokens (y_pipe y') = []
          \<or> (\<exists>op y''. own_op (nat (NodeCount_cfg cfg)) op \<and> sys_exec sha1 v6 op y' = Inr y'' \<and> y'' \<noteq> y')))
    \<and> (\<exists>more y'. list_all (own_op (nat (NodeCount_cfg cfg))) more \<and> length more \<le> 6 * length (tokens (y_pipe y))
        \<and> sys_run sha1 v6 more y = Inr y' \<and> inFlight (wp_queue (pl_pool (y_pipe y'))) = {})"
proof -
  let ?k = "nat (NodeCount_cfg cfg)"
  have ok: "sys_ok s 0 ?k y" by (rule sys_reachable [OF assms(1-4)])
  then have inv: "sys_ok s 0 ?k y \<and> running (y_pipe y)"
    using running_reachable [OF assms(1,5,6,3,4) _ assms(7)] by (simp add: sys_ok_def)
  have empty: "inFlight (wp_queue (pl_pool (y_pipe z))) = {}"
    if "sys_ok s 0 ?k z \<and> running (y_pipe z)" "tokens (y_pipe z) = []" for z
    using that by (auto simp: sys_ok_def pipeline_ok_def pipe_ok_def running_def)
  have "changes (sys_exec sha1 v6) more y \<le> 6 * length (tokens (y_pipe y))
      \<and> (tokens (y_pipe y') = [] \<or> (\<exists>op y''. own_op ?k op \<and> sys_exec sha1 v6 op y' = Inr y'' \<and> y'' \<noteq> y'))"
    if m: "list_all (own_op ?k) more" "sys_run sha1 v6 more y = Inr y'" for more y'
  proof -
    have "changes (sys_exec sha1 v6) more y \<le> work (y_pipe y)"
      using drain.run_changes [OF m(2) inv m(1)] by simp
    then have "changes (sys_exec sha1 v6) more y \<le> 6 * length (tokens (y_pipe y))"
      using work_tokens [of "y_pipe y"] by (rule le_trans)
    then show ?thesis using drain.enabled [OF drain.run_keeps [OF m(2) inv m(1)]] by blast
  qed
  moreover obtain more y' where "list_all (own_op ?k) more" "sys_run sha1 v6 more y = Inr y'" "tokens (y_pipe y') = []"
      "sys_ok s 0 ?k y' \<and> running (y_pipe y')" "length more \<le> work (y_pipe y)"
    using drain.reaches_final [OF inv, of sha1 v6] by blast
  ultimately show ?thesis using empty [of y'] le_trans [OF _ work_tokens [of "y_pipe y"]] by blast
qed

theorem jobs_finish_witness:
  "\<exists>data y more y'. sys_run (\<lambda>_. zeroID) (\<lambda>_. []) (counting_ops data @ [LoopSubmits 0]) (system_of sample_start) = Inr y
     \<and> tokens (y_pipe y) = [Hex zeroID] \<and> length more \<le> 6 \<and> sys_run (\<lambda>_. zeroID) (\<lambda>_. []) more y = Inr y'
     \<and> inFlight (wp_queue (pl_pool (y_pipe y'))) = {}"
proof -
  obtain data y where y: "sys_run (\<lambda>_. zeroID) (\<lambda>_. []) (counting_ops data @ [LoopSubmits 0]) (system_of sample_start) = Inr y"
    "tokens (y_pipe y) = [Hex zeroID]" "\<not> pl_done (y_pipe y)"
    "list_all (sys_op_ok (nat (NodeCount_cfg sample_config))) (counting_ops data @ [LoopSubmits 0])"
    using sample_submitted by blast
  have w: "0 < DownloadWorkers sample_config" "0 < DownloadPerWorker sample_config"
    by (simp_all add: sample_config_def)
  have "\<exists>more y'. length more \<le> 6 * length (tokens (y_pipe y)) \<and> sys_run (\<lambda>_. zeroID) (\<lambda>_. []) more y = Inr y'
      \<and> inFlight (wp_queue (pl_pool (y_pipe y'))) = {}"
    using jobs_finish [OF sample_start _ y(1,4) w y(3)] by auto
  then obtain more y' where "length more \<le> 6" "sys_run (\<lambda>_. zeroID) (\<lambda>_. []) more y = Inr y'"
    "inFlight (wp_queue (pl_pool (y_pipe y'))) = {}" using y(2) by auto
  then show ?thesis using y(1,2) by blast
qed

text \<open>C7: The shutdown completes. In every state the crawler reaches after the end of its context: the loop
  of \<open>Run\<close>, apart from taking further events, changes the state at most fourteen times, none of its
  steps panics, as long as it has not returned one of them can be taken, and a schedule of at most that many steps
  brings it to its return, with the database closed and the event channel of the pool closed.\<close>

theorem shutdown_completes:
  assumes "NewCrawler (Inr s) secret draw now cfg = Inr c" and "\<And>i. length (secret i) = 16"
    and "sys_run sha1 v6 ops (system_of c) = Inr y" and "list_all (sys_op_ok (nat (NodeCount_cfg cfg))) ops"
    and "pl_done (y_pipe y)"
  shows "(\<forall>more. list_all loop_op more \<longrightarrow>
        (\<exists>y'. sys_run sha1 v6 more y = Inr y' \<and> changes (sys_exec sha1 v6) more y \<le> 14
          \<and> (y_loop y' = Ended \<or> (\<exists>op y''. loop_op op \<and> sys_exec sha1 v6 op y' = Inr y'' \<and> y'' \<noteq> y'))))
    \<and> (\<exists>more y'. list_all loop_op more \<and> length more \<le> 14 \<and> sys_run sha1 v6 more y = Inr y'
        \<and> y_loop y' = Ended \<and> y_dbClosed y' \<and> ch_closed (p_eventChan (y_dht y')))"
proof -
  let ?k = "nat (NodeCount_cfg cfg)"
  have "sys_ok s 0 ?k (system_of c) \<and> ended_ok (system_of c)"
    using sys_ok_init [OF assms(1,2)] by (simp add: ended_ok_def system_of_def)
  from ending.run_keeps [OF assms(3) this assms(4)] have ok: "sys_ok s 0 ?k y" "ended_ok y" by simp_all
  have inv: "sys_ok s 0 ?k y \<and> pl_done (y_pipe y)" using ok(1) assms(5) by simp
  have "loop_rank (y_loop (system_of c)) \<le> 14" by (simp add: system_of_def)
  from ranked.run_keeps [OF assms(3) this assms(4)] have rank: "loop_rank (y_loop y) \<le> 14" .
  have total: "\<exists>y'. sys_run sha1 v6 more z = Inr y'"
    if "list_all loop_op more" "sys_ok s 0 ?k z \<and> pl_done (y_pipe z)" for more z
    using that
  proof (induction more arbitrary: z)
    case (Cons op more)
    have "dht_ok ?k z" using Cons.prems(2) by (simp add: sys_ok_def)
    moreover have op: "loop_op op" using Cons.prems(1) by simp
    ultimately obtain z1 where z1: "sys_exec sha1 v6 op z = Inr z1" using loop_op_total by blast
    from Cons.IH [OF _ stop.keeps [OF Cons.prems(2) op z1]] show ?case using Cons.prems(1) z1 by simp
  qed simp
  have "\<exists>y'. sys_run sha1 v6 more y = Inr y' \<and> changes (sys_exec sha1 v6) more y \<le> 14
      \<and> (y_loop y' = Ended \<or> (\<exists>op y''. loop_op op \<and> sys_exec sha1 v6 op y' = Inr y'' \<and> y'' \<noteq> y'))"
    if m: "list_all loop_op more" for more
  proof -
    obtain y' where y': "sys_run sha1 v6 more y = Inr y'" using total [OF m inv] by blast
    have "changes (sys_exec sha1 v6) more y \<le> 14" using stop.run_changes [OF y' inv m] rank by simp
    then show ?thesis using y' stop.enabled [OF stop.run_keeps [OF y' inv m]] by blast
  qed
  moreover obtain more y' where y': "list_all loop_op more" "sys_run sha1 v6 more y = Inr y'" "y_loop y' = Ended"
      "length more \<le> loop_rank (y_loop y)"
    using stop.reaches_final [OF inv, of sha1 v6] by blast
  moreover have "ended_ok y'"
  proof -
    have "list_all (sys_op_ok ?k) more" using y'(1) loop_op_ok by (auto simp: list_all_iff)
    then show ?thesis using ending.run_keeps [OF y'(2)] ok by blast
  qed
  ultimately show ?thesis using rank le_trans [OF y'(4) rank] by (auto simp: ended_ok_def)
qed

theorem shutdown_completes_witness:
  "\<exists>more y'. list_all loop_op more
     \<and> sys_run (\<lambda>_. zeroID) (\<lambda>_. []) (PipeOp PCancel # more) (system_of sample_start) = Inr y'
     \<and> y_loop y' = Ended \<and> y_dbClosed y'"
proof -
  let ?y = "(system_of sample_start)\<lparr>y_pipe := (y_pipe (system_of sample_start))\<lparr>pl_done := True\<rparr>\<rparr>"
  have r: "sys_run (\<lambda>_. zeroID) (\<lambda>_. []) [PipeOp PCancel] (system_of sample_start) = Inr ?y"
    by (simp add: pipe_step_def)
  have "\<exists>more y'. list_all loop_op more \<and> sys_run (\<lambda>_. zeroID) (\<lambda>_. []) more ?y = Inr y'
      \<and> y_loop y' = Ended \<and> y_dbClosed y'"
    using shutdown_completes [OF sample_start _ r] by auto
  then show ?thesis using r by (auto simp: pipe_step_def)
qed

end
