(* ===== verification/Delivery.thy ===== *)
theory Delivery
  imports Progress
begin

text \<open>
  From an event to a stored torrent, in the running crawler. Before the end of the context the crawler's own
  steps can always empty the pipeline and bring the loop of \<open>Run\<close> back to its channel (the
  interpretation \<open>settle\<close>); it can so reach every queued event, in the order of the channel; and from the event
  of an announcement the job goes through feeder, worker and download into the database.
\<close>

section \<open>Before the end of the context\<close>

text \<open>The states of the loop other than those of the shutdown.\<close>

fun live :: "loop \<Rightarrow> bool" where
  "live (Flushing FinishRun) = False"
| "live (Storing FinishRun its) = False"
| "live ClosingStorage = False"
| "live StoppingPool = False"
| "live Ended = False"
| "live _ = True"

lemma live_proceed [simp]: "live (y_loop (proceed v6 (Resume ev) y))"
  by (simp add: proceed_def split: event_type.split)

lemma live_count_hash [simp]: "live (y_loop (count_hash v6 now ev y))"
  by (simp add: count_hash_def Let_def split: prod.split)

lemma dbClosed_count_hash [simp]: "y_dbClosed (count_hash v6 now ev y) = y_dbClosed y"
  by (simp add: count_hash_def Let_def split: prod.split)

text \<open>Until the context is done, the loop is alive and the database open.\<close>

definition awake :: "system \<Rightarrow> bool" where
  "awake y \<longleftrightarrow> pl_done (y_pipe y) \<or> live (y_loop y) \<and> \<not> y_dbClosed y"

lemma dbClosed_kept:
  assumes "sys_exec sha1 v6 op y = Inr y'" and "op \<noteq> LoopCloses"
  shows "y_dbClosed y' = y_dbClosed y"
proof (cases op)
  case (SearchSubmits i now)
  then have "search_step v6 (SearchSubmits i now) y = Inr y'" using assms(1) by simp
  then show ?thesis by (cases rule: search_submits_cases) auto
qed (use assms in \<open>auto simp: dht_step_def pipe_step_def
    split: loop.splits option.splits prod.splits sum.splits search.splits if_splits bool.splits list.splits\<close>)

text \<open>What a step of the loop does while the context is not done.\<close>

lemma loop_live:
  assumes "sys_exec sha1 v6 op y = Inr y'" and "loop_op op" and "live (y_loop y)" and "\<not> pl_done (y_pipe y)"
  shows "live (y_loop y') \<and> y_dbClosed y' = y_dbClosed y \<and> y_dht y' = y_dht y
    \<and> (\<exists>q s. y_pipe y' = (y_pipe y)\<lparr>pl_pool := (pl_pool (y_pipe y))\<lparr>wp_queue := q\<rparr>, pl_storage := s\<rparr>
        \<and> torrents s = torrents (pl_storage (y_pipe y)) \<and> q_maxSize q = q_maxSize (wp_queue (pl_pool (y_pipe y)))
        \<and> length (q_items q) \<le> Suc (length (q_items (wp_queue (pl_pool (y_pipe y))))))"
proof -
  have kept: "\<exists>q s. y_pipe y' = (y_pipe y)\<lparr>pl_pool := (pl_pool (y_pipe y))\<lparr>wp_queue := q\<rparr>, pl_storage := s\<rparr>
      \<and> torrents s = torrents (pl_storage (y_pipe y)) \<and> q_maxSize q = q_maxSize (wp_queue (pl_pool (y_pipe y)))
      \<and> length (q_items q) \<le> Suc (length (q_items (wp_queue (pl_pool (y_pipe y)))))"
    if "y_pipe y' = y_pipe y"
    using that by (intro exI [of _ "wp_queue (pl_pool (y_pipe y))"] exI [of _ "pl_storage (y_pipe y)"]) simp
  show ?thesis
  proof (cases op)
    case (LoopCounts now)
    then show ?thesis using assms(1,3) kept by (auto split: loop.splits)
  next
    case LoopFlushes
    show ?thesis
    proof (cases "\<exists>ev. y_loop y = Flushing (Resume ev)")
      case True
      then show ?thesis using assms(1) LoopFlushes kept by (auto split: option.splits)
    next
      case False
      then have "y' = y" using assms(1,3) LoopFlushes by (cases "y_loop y"; cases "case y_loop y of Flushing g \<Rightarrow> g") auto
      then show ?thesis using assms(3) kept by simp
    qed
  next
    case (LoopStores env now ord)
    show ?thesis
    proof (cases "\<exists>ev its. y_loop y = Storing (Resume ev) its")
      case True
      then obtain ev its where "y' = proceed v6 (Resume ev) (store_batch env now ord its y)"
        using assms(1) LoopStores by auto
      moreover obtain s where s: "y_pipe (store_batch env now ord its y) = (y_pipe y)\<lparr>pl_storage := s\<rparr>"
        "torrents s = torrents (pl_storage (y_pipe y))" using store_batch_pipe by blast
      ultimately show ?thesis
        by (auto intro!: exI [of _ "wp_queue (pl_pool (y_pipe y))"] exI [of _ s])
    next
      case False
      then have "y' = y" using assms(1,3) LoopStores by (cases "y_loop y"; cases "case y_loop y of Storing g its \<Rightarrow> g") auto
      then show ?thesis using assms(3) kept by simp
    qed
  next
    case (LoopSubmits now)
    show ?thesis
    proof (cases "\<exists>ev a as. y_loop y = Submitting ev (a # as)")
      case True
      then obtain ev a as where y': "y' = (snd (submit_job now (hash_of ev) a y))\<lparr>y_loop := Submitting ev as\<rparr>"
        using assms(1) LoopSubmits by auto
      let ?q = "snd (Add now (hash_of ev) a (wp_queue (pl_pool (y_pipe y))))"
      have "y_pipe y' = (y_pipe y)\<lparr>pl_pool := (pl_pool (y_pipe y))\<lparr>wp_queue := ?q\<rparr>, pl_storage := pl_storage (y_pipe y)\<rparr>"
        unfolding y' by (simp add: Submit_def split: prod.split)
      moreover have "q_maxSize ?q = q_maxSize (wp_queue (pl_pool (y_pipe y)))
          \<and> length (q_items ?q) \<le> Suc (length (q_items (wp_queue (pl_pool (y_pipe y)))))"
        by (cases rule: Add_cases [of now "hash_of ev" a "wp_queue (pl_pool (y_pipe y))"]) auto
      ultimately have "\<exists>q s. y_pipe y' = (y_pipe y)\<lparr>pl_pool := (pl_pool (y_pipe y))\<lparr>wp_queue := q\<rparr>, pl_storage := s\<rparr>
          \<and> torrents s = torrents (pl_storage (y_pipe y)) \<and> q_maxSize q = q_maxSize (wp_queue (pl_pool (y_pipe y)))
          \<and> length (q_items q) \<le> Suc (length (q_items (wp_queue (pl_pool (y_pipe y)))))"
        by blast
      then show ?thesis by (simp add: y')
    next
      case False
      then show ?thesis using assms(1,3) LoopSubmits kept by (auto split: loop.splits list.splits)
    qed
  next
    case LoopStops
    then show ?thesis using assms(1,3,4) kept by auto
  next
    case LoopCloses
    then show ?thesis using assms(1,3) kept by (cases "y_loop y") auto
  qed (use assms(2) in simp_all)
qed

lemma awake_step:
  assumes "awake y" and "dht_ok k y" and "sys_exec sha1 v6 op y = Inr y'" and "sys_op_ok k op"
  shows "awake y'"
proof (cases "pl_done (y_pipe y)")
  case True
  have "pl_done (y_pipe y')"
    using assms(3,4) by (cases rule: sys_pipe_cases) (use True pipe_done in auto)
  then show ?thesis by (simp add: awake_def)
next
  case False
  then have l: "live (y_loop y)" "\<not> y_dbClosed y" using assms(1) by (simp_all add: awake_def)
  consider (loop) "loop_op op" | (takes) "op = LoopTakes" | (other) "\<not> loop_op op" "op \<noteq> LoopTakes" by blast
  then show ?thesis
  proof cases
    case loop
    then show ?thesis using loop_live [OF assms(3) _ l(1) False] l by (simp add: awake_def)
  next
    case takes
    then have "\<not> ch_closed (p_eventChan (y_dht y))" if "y_loop y = Waiting" using assms(2) that by (auto simp: dht_ok_def)
    then show ?thesis using assms(3) takes l
      by (cases "y_loop y") (auto simp: awake_def split: option.splits prod.splits if_splits)
  next
    case other
    moreover have "op \<noteq> LoopCloses" using other(1) by auto
    ultimately show ?thesis using loop_kept [OF assms(3,4)] dbClosed_kept [OF assms(3)] l by (simp add: awake_def)
  qed
qed

interpretation waking: machine "sys_exec sha1 v6" "\<lambda>y. sys_ok s0 t0 k y \<and> awake y" "sys_op_ok k" for sha1 v6 s0 t0 k
proof unfold_locales
  fix y op y'
  assume y: "sys_ok s0 t0 k y \<and> awake y" and op: "sys_op_ok k op" "sys_exec sha1 v6 op y = Inr y'"
  then have "dht_ok k y" by (simp add: sys_ok_def)
  with y op show "sys_ok s0 t0 k y' \<and> awake y'" using sys_ok_step awake_step by blast
qed

section \<open>The size of the queue\<close>

lemma maxSize_kept:
  assumes "pipe_exec sha1 v6 op pl = Inr pl'"
  shows "q_maxSize (wp_queue (pl_pool pl')) = q_maxSize (wp_queue (pl_pool pl))"
proof (cases op)
  case (PSubmit now h peer)
  then show ?thesis using assms
    by (cases rule: Add_cases [of now h peer "wp_queue (pl_pool pl)"]) (auto simp: Submit_def)
next
  case (PFeed err)
  obtain j p where f: "feed err (pl_storage pl) (pl_pool pl) = (j, p)" by force
  then have "q_maxSize (wp_queue p) = q_maxSize (wp_queue (pl_pool pl))"
    by (cases rule: feed_cases) (simp_all add: complete_def Complete_def)
  then show ?thesis using assms PFeed f by (auto split: if_splits)
next
  case (PFinish i env)
  then show ?thesis using assms finish_job_queue by (fastforce simp: Complete_def split: if_splits sum.splits)
qed (use assms in \<open>auto simp: start_job_def close_chan_def split: if_splits option.splits sum.splits prod.splits\<close>)

interpretation max_size: machine "sys_exec sha1 v6" "\<lambda>y. q_maxSize (wp_queue (pl_pool (y_pipe y))) = m" "sys_op_ok k"
  for sha1 v6 m k
proof unfold_locales
  fix y op y'
  assume m: "q_maxSize (wp_queue (pl_pool (y_pipe y))) = m" and op: "sys_op_ok k op" "sys_exec sha1 v6 op y = Inr y'"
  from op(2,1) show "q_maxSize (wp_queue (pl_pool (y_pipe y'))) = m"
    by (cases rule: sys_pipe_cases) (use m maxSize_kept in auto)
qed

section \<open>Settling\<close>

text \<open>
  The crawler's own steps: those of the feeder, the workers and the downloads, of the loop and its taking
  of events. None of them is an arrival from outside.
\<close>

definition crawl_op :: "nat \<Rightarrow> sys_op \<Rightarrow> bool" where
  "crawl_op k op \<longleftrightarrow> own_op k op \<or> loop_op op \<or> op = LoopTakes"

text \<open>The steps that settle the crawler: no event is taken, and the downloads in hand get no peer.\<close>

definition settle_op :: "nat \<Rightarrow> sys_op \<Rightarrow> bool" where
  "settle_op k op \<longleftrightarrow> loop_op op \<or> own_op k op \<and> (\<forall>i env. op = PipeOp (PFinish i env) \<longrightarrow> env = no_peer)"

definition settling :: "storage \<Rightarrow> nat \<Rightarrow> pool \<Rightarrow> torrent_row list \<Rightarrow> int \<Rightarrow> system \<Rightarrow> bool" where
  "settling s0 k d ts m y \<longleftrightarrow> sys_ok s0 0 k y \<and> running (y_pipe y) \<and> live (y_loop y) \<and> \<not> y_dbClosed y
     \<and> y_dht y = d \<and> torrents (pl_storage (y_pipe y)) = ts \<and> q_maxSize (wp_queue (pl_pool (y_pipe y))) = m"

lemma finish_without_peer_storage:
  assumes "finish_job sha1 v6 env job p s = Inr (p', s')" and "je_dial env = je_dial no_peer"
  shows "s' = s"
  using assms(1) by (cases rule: finish_job_cases) (use assms(2) in \<open>auto simp: no_peer_def Download_def\<close>)

lemma settle_own:
  assumes "pipe_exec sha1 v6 (pipe_op_of y op) pl = Inr pl'" and "own_step op"
    and "\<forall>i env. op = PFinish i env \<longrightarrow> env = no_peer"
  shows "pl_storage pl' = pl_storage pl"
proof (cases op)
  case (PFinish i env)
  then show ?thesis using assms finish_without_peer_storage [of sha1 v6]
    by (auto split: if_splits sum.splits)
qed (use assms(1,2) in \<open>auto split: if_splits prod.splits option.splits sum.splits\<close>)

lemma settling_step:
  assumes "settling s0 k d ts m y" and "settle_op k op" and "sys_exec sha1 v6 op y = Inr y'"
  shows "settling s0 k d ts m y'
    \<and> (y' = y \<or> work (y_pipe y') + 7 * loop_rank (y_loop y') < work (y_pipe y) + 7 * loop_rank (y_loop y))"
proof -
  note inv = assms(1) [unfolded settling_def]
  show ?thesis
  proof (cases "loop_op op")
    case True
    have done_y: "\<not> pl_done (y_pipe y)" using inv by (simp add: running_def)
    from loop_live [OF assms(3) True _ done_y] inv obtain q s where
      l: "live (y_loop y')" "y_dbClosed y' = y_dbClosed y" "y_dht y' = y_dht y"
      and q: "y_pipe y' = (y_pipe y)\<lparr>pl_pool := (pl_pool (y_pipe y))\<lparr>wp_queue := q\<rparr>, pl_storage := s\<rparr>"
        "torrents s = torrents (pl_storage (y_pipe y))" "q_maxSize q = q_maxSize (wp_queue (pl_pool (y_pipe y)))"
        "length (q_items q) \<le> Suc (length (q_items (wp_queue (pl_pool (y_pipe y)))))" by blast
    have "sys_ok s0 0 k y'" using sys_ok_step [OF _ loop_op_ok [OF True] assms(3)] inv by blast
    moreover have "running (y_pipe y')" using inv by (simp add: q(1) running_def)
    moreover have "work (y_pipe y') \<le> work (y_pipe y) + 6" using q(4) by (simp add: q(1) work_def)
    ultimately show ?thesis using loop_op_lowers [OF assms(3) True] inv l q by (auto simp: settling_def)
  next
    case False
    then have own: "own_op k op" "\<forall>i env. op = PipeOp (PFinish i env) \<longrightarrow> env = no_peer"
      using assms(2) by (simp_all add: settle_op_def)
    then obtain pop where op: "op = PipeOp pop" "own_step pop" "sys_op_ok k op" by (cases op) auto
    then obtain pl where pl: "pipe_exec sha1 v6 (pipe_op_of y pop) (y_pipe y) = Inr pl" "y' = y\<lparr>y_pipe := pl\<rparr>"
      using assms(3) by (auto simp: pipe_step_def split: sum.splits)
    have st: "own_step (pipe_op_of y pop)" using op(2) by (cases pop) auto
    have "pl_storage pl = pl_storage (y_pipe y)"
      using settle_own [OF pl(1) op(2)] own(2) op(1) by blast
    moreover have "sys_ok s0 0 k y'" using sys_ok_step [OF _ op(3) assms(3)] inv by blast
    moreover have "running pl" using running_own [OF _ pl(1) st] inv by blast
    ultimately show ?thesis
      using own_step_lowers [OF pl(1) st] maxSize_kept [OF pl(1)] inv pl(2) by (auto simp: settling_def)
  qed
qed

interpretation settle: progressing "sys_exec sha1 v6" "settling s0 k d ts m" "settle_op k"
    "\<lambda>y. work (y_pipe y) + 7 * loop_rank (y_loop y)" "\<lambda>y. tokens (y_pipe y) = [] \<and> y_loop y = Waiting"
  for sha1 v6 s0 k d ts m
proof unfold_locales
  fix y op y'
  assume a: "settling s0 k d ts m y" "settle_op k op" "sys_exec sha1 v6 op y = Inr y'"
  note step = settling_step [OF a]
  from step show "settling s0 k d ts m y'" ..
  from step show "y' = y \<or> work (y_pipe y') + 7 * loop_rank (y_loop y') < work (y_pipe y) + 7 * loop_rank (y_loop y)" ..
next
  fix y
  assume y: "settling s0 k d ts m y" and "\<not> (tokens (y_pipe y) = [] \<and> y_loop y = Waiting)"
  then consider (busy) "tokens (y_pipe y) \<noteq> []" | (away) "y_loop y \<noteq> Waiting" by blast
  then show "\<exists>op y'. settle_op k op \<and> sys_exec sha1 v6 op y = Inr y' \<and> y' \<noteq> y"
  proof cases
    case busy
    then obtain op where op: "own_step op" "\<forall>i env. op = PFinish i env \<longrightarrow> env = no_peer"
      "\<forall>y'. \<exists>pl. pipe_exec sha1 v6 (pipe_op_of y' op) (y_pipe y) = Inr pl \<and> pl \<noteq> y_pipe y"
      using pipe_enabled [of "y_pipe y" sha1 v6] y by (auto simp: settling_def sys_ok_def pipeline_ok_def)
    then obtain pl where pl: "pipe_exec sha1 v6 (pipe_op_of y op) (y_pipe y) = Inr pl" "pl \<noteq> y_pipe y" by blast
    have "settle_op k (PipeOp op)" using op(1,2) by (cases op) (auto simp: settle_op_def no_peer_def)
    moreover have "sys_exec sha1 v6 (PipeOp op) y = Inr (y\<lparr>y_pipe := pl\<rparr>)" using pl(1) by (simp add: pipe_step_def)
    moreover have "y\<lparr>y_pipe := pl\<rparr> \<noteq> y" using pl(2) by (auto dest: arg_cong [where f = y_pipe])
    ultimately show ?thesis by blast
  next
    case away
    then have "dht_ok k y" "y_loop y \<noteq> Ended" using y by (auto simp: settling_def sys_ok_def)
    with away show ?thesis unfolding settle_op_def using loop_enabled [of k y sha1 v6] by blast
  qed
qed

lemma settle_crawl: "settle_op k op \<Longrightarrow> crawl_op k op"
  by (auto simp: settle_op_def crawl_op_def)

text \<open>The crawler reaches every queued event, with an empty pipeline.\<close>

lemma event_reached:
  assumes "settling s0 k d ts m y" and "ch_buf (p_eventChan d) = evs" and "evs \<noteq> []"
  shows "\<exists>more y' d'. list_all (crawl_op k) more \<and> sys_run sha1 v6 more y = Inr y'
    \<and> settling s0 k d' ts m y' \<and> tokens (y_pipe y') = [] \<and> y_loop y' = Counting (last evs)"
  using assms
proof (induction evs arbitrary: y d)
  case (Cons ev evs)
  obtain more y1 where y1: "list_all (settle_op k) more" "sys_run sha1 v6 more y = Inr y1"
    "settling s0 k d ts m y1" "tokens (y_pipe y1) = []" "y_loop y1 = Waiting"
    using settle.reaches_final [OF Cons.prems(1), of sha1 v6] by blast
  let ?d = "d\<lparr>p_eventChan := (p_eventChan d)\<lparr>ch_buf := evs\<rparr>\<rparr>"
  let ?y = "y1\<lparr>y_dht := ?d, y_loop := Counting ev\<rparr>"
  have t: "sys_exec sha1 v6 LoopTakes y1 = Inr ?y"
    using y1(3,5) Cons.prems(2) by (simp add: settling_def recv_def)
  have "sys_ok s0 0 k ?y" using sys_ok_step [OF _ _ t] y1(3) by (simp add: settling_def)
  then have s: "settling s0 k ?d ts m ?y" using y1(3) by (simp add: settling_def)
  have m: "list_all (crawl_op k) more" using y1(1) settle_crawl by (auto simp: list_all_iff)
  show ?case
  proof (cases "evs = []")
    case True
    have "sys_run sha1 v6 (more @ [LoopTakes]) y = Inr ?y" unfolding run_ops_append y1(2) using t by simp
    moreover have "list_all (crawl_op k) (more @ [LoopTakes])" using m by (simp add: crawl_op_def)
    ultimately show ?thesis using s y1(4) True
      by (intro exI [of _ "more @ [LoopTakes]"] exI [of _ ?y] exI [of _ ?d]) simp
  next
    case False
    from Cons.IH [OF s _ False] obtain more2 y2 d2 where y2: "list_all (crawl_op k) more2"
      "sys_run sha1 v6 more2 ?y = Inr y2" "settling s0 k d2 ts m y2" "tokens (y_pipe y2) = []"
      "y_loop y2 = Counting (last evs)" by auto
    have "sys_run sha1 v6 (more @ LoopTakes # more2) y = Inr y2" unfolding run_ops_append y1(2) using t y2(2) by simp
    moreover have "list_all (crawl_op k) (more @ LoopTakes # more2)" using m y2(1) by (simp add: crawl_op_def)
    ultimately show ?thesis using y2(3-5) False
      by (intro exI [of _ "more @ LoopTakes # more2"] exI [of _ y2] exI [of _ d2]) simp
  qed
qed simp

section \<open>From the event to the database\<close>

lemma pipe_op_open: "\<not> y_dbClosed y \<Longrightarrow> pipe_op_of y op = op"
  by (cases op) (simp_all add: db_err_def)

text \<open>With the database open, the pipeline runs within the crawler as it does alone.\<close>

lemma pipe_lift:
  "\<not> y_dbClosed y \<Longrightarrow> pipe_run sha1 v6 ops (y_pipe y) = Inr pl \<Longrightarrow>
    sys_run sha1 v6 (map PipeOp ops) y = Inr (y\<lparr>y_pipe := pl\<rparr>)"
proof (induction ops arbitrary: y)
  case (Cons op ops)
  then obtain pl1 where pl1: "pipe_exec sha1 v6 op (y_pipe y) = Inr pl1" "pipe_run sha1 v6 ops pl1 = Inr pl"
    by (auto split: sum.splits)
  have "sys_run sha1 v6 (map PipeOp ops) (y\<lparr>y_pipe := pl1\<rparr>) = Inr (y\<lparr>y_pipe := pl\<rparr>)"
    using Cons.IH [of "y\<lparr>y_pipe := pl1\<rparr>"] Cons.prems(1) pl1(2) by simp
  then show ?case using pl1(1) Cons.prems(1) by (simp add: pipe_step_def pipe_op_open)
qed simp

definition deliver_ops :: "job_env \<Rightarrow> pipe_op list" where
  "deliver_ops env = [PFeed None, PHand 0, PAcquire 0, PStart 0, PFinish 0 env]"

lemma job_delivered:
  assumes "running pl" and "tokens pl = []" and "inFlight (wp_queue (pl_pool pl)) = {}"
    and "0 < q_maxSize (wp_queue (pl_pool pl))" and "addr \<noteq> []"
    and "TorrentExists None hex (pl_storage pl) = Inr False" and "hex_decode hex = Inr b" and "8 \<le> length hex"
    and "\<not> je_cancelled env 0" and "je_insert_err env = None"
    and "Download sha1 (wp_downloader (pl_pool pl)) (arr20_of b) (je_dial env 0 addr) = Inr meta"
  shows "\<exists>pl' row. pipe_run sha1 v6 (PSubmit now hex addr # deliver_ops env) pl = Inr pl'
    \<and> row \<in> set (torrents (pl_storage pl')) \<and> t_info_hash row = hex \<and> t_name row = tm_Name meta
    \<and> t_size row = sint (tm_Size meta) \<and> hex \<notin> inFlight (wp_queue (pl_pool pl'))"
proof -
  let ?job = "\<lparr>j_infoHash = hex, j_peerAddr = addr\<rparr>"
  have e: "q_items (wp_queue (pl_pool pl)) = []" "pl_feeding pl = None" "ch_buf (wp_jobs (pl_pool pl)) = []"
    "pl_held pl = []" "pl_spawned pl = []" "pl_active pl = []"
    using assms(2) by (auto simp: tokens_def job_hashes_def split: option.splits)
  have r: "\<not> pl_feeder_gone pl" "\<not> ch_closed (wp_jobs (pl_pool pl))" "pl_exited pl = []"
    "0 < wp_numWorkers (pl_pool pl)" "0 < wp_perWorker (pl_pool pl)"
    using assms(1) by (simp_all add: running_def)
  let ?q = "(wp_queue (pl_pool pl))\<lparr>inFlight := {hex}, q_items := []\<rparr>"
  let ?p = "(pl_pool pl)\<lparr>wp_queue := ?q\<rparr>"
  let ?pl = "pl\<lparr>pl_feeding := None, pl_held := [], pl_pool := start_job ?p, pl_spawned := [],
    pl_active := [(0, ?job)]\<rparr>"
  have "pipe_run sha1 v6 [PSubmit now hex addr, PFeed None, PHand 0, PAcquire 0, PStart 0] pl = Inr ?pl"
    using e r assms(3-6) by (simp add: Submit_def Add_def feed_def Get_def may_take_def downloads_of_def remove_nth_def)
  moreover obtain p' s' row where f: "finish_job sha1 v6 env ?job (start_job ?p) (pl_storage pl) = Inr (p', s')"
    "wp_queue p' = Complete hex (wp_queue (start_job ?p))"
    "row \<in> set (torrents s')" "t_info_hash row = hex" "t_name row = tm_Name meta" "t_size row = sint (tm_Size meta)"
    using finish_job_success [of ?job b env sha1 "start_job ?p" meta v6 "pl_storage pl"] assms(5,7-11)
    by (auto simp: start_job_def)
  then have "pipe_exec sha1 v6 (PFinish 0 env) ?pl
      = Inr (?pl\<lparr>pl_pool := p', pl_storage := s', pl_active := []\<rparr>)" by (simp add: remove_nth_def)
  ultimately have "pipe_run sha1 v6 ([PSubmit now hex addr, PFeed None, PHand 0, PAcquire 0, PStart 0] @ [PFinish 0 env]) pl
      = Inr (?pl\<lparr>pl_pool := p', pl_storage := s', pl_active := []\<rparr>)"
    unfolding run_ops_append by simp
  moreover have "hex \<notin> inFlight (wp_queue p')" by (simp add: f(2) Complete_def)
  ultimately show ?thesis using f(3-6) by (fastforce simp: deliver_ops_def)
qed

lemma Add_cache_torrents: "torrents (snd (Add_cache env now ord h c s)) = torrents s"
  using InsertHashes_torrents
  by (fastforce simp: Add_cache_def Flush_def flush_store_def Let_def split: prod.splits option.splits)

definition event_addr :: "(bytes \<Rightarrow> bytes) \<Rightarrow> event \<Rightarrow> bytes" where
  "event_addr v6 ev = addr_string v6 (ev_PeerIP ev) (ev_PeerPort ev)"

lemma event_delivered:
  assumes "settling s0 k d ts m y" and "tokens (y_pipe y) = []" and "y_loop y = Counting ev" and "0 < m"
    and "ev_Type ev = EventAnnounce" and "\<And>row. row \<in> set ts \<Longrightarrow> t_info_hash row \<noteq> hash_of ev"
    and "\<not> je_cancelled env 0" and "je_insert_err (env :: job_env) = None" and "\<And>j a x. je_dial env j a \<noteq> Inl (Panic x)"
    and "Download sha1 NewMetadataDownloader (ev_InfoHash ev) (je_dial env 0 (event_addr v6 ev)) = Inr meta"
  shows "\<exists>more y' row. list_all (crawl_op k) more \<and> sys_run sha1 v6 more y = Inr y'
    \<and> row \<in> set (torrents (pl_storage (y_pipe y'))) \<and> t_info_hash row = hash_of ev \<and> t_name row = tm_Name meta
    \<and> t_size row = sint (tm_Size meta) \<and> hash_of ev \<notin> inFlight (wp_queue (pl_pool (y_pipe y')))"
proof -
  note inv = assms(1) [unfolded settling_def]
  let ?addr = "event_addr v6 ev" and ?count = "count_ops no_failure 0 (\<lambda>xs. xs) ev y"
  let ?cs = "Add_cache no_failure 0 (\<lambda>xs. xs) (hash_of ev) (y_cache y) (pl_storage (y_pipe y))"
  let ?y1 = "y\<lparr>y_cache := fst ?cs, y_pipe := (y_pipe y)\<lparr>pl_storage := snd ?cs\<rparr>, y_log := hash_of ev # y_log y\<rparr>"
  let ?y2 = "proceed v6 (Resume ev) ?y1"
  have c: "sys_run sha1 v6 ?count y = Inr ?y2" using count_run [OF assms(3)] inv by blast
  have l: "y_loop ?y2 = Submitting ev [?addr]" "y_pipe ?y2 = (y_pipe y)\<lparr>pl_storage := snd ?cs\<rparr>" "\<not> y_dbClosed ?y2"
    using assms(5) inv by (simp_all add: proceed_def event_addrs_def event_addr_def)
  let ?y3 = "?y2\<lparr>y_pipe := (y_pipe ?y2)\<lparr>pl_pool := snd (Submit 0 (hash_of ev) ?addr (pl_pool (y_pipe ?y2)))\<rparr>, y_loop := Waiting\<rparr>"
  have s: "sys_run sha1 v6 [LoopSubmits 0, LoopSubmits 0] ?y2 = Inr ?y3"
    using submit_run [OF l(1), of sha1 v6 0] assms(5) by (simp add: numeral_2_eq_2)
  have "pipe_ok (y_pipe y)" "wp_downloader (pl_pool (y_pipe y)) = NewMetadataDownloader"
    using inv by (simp_all add: sys_ok_def pipeline_ok_def)
  then have free: "inFlight (wp_queue (pl_pool (y_pipe y))) = {}"
    using assms(2) inv by (auto simp: pipe_ok_def running_def)
  have ts: "TorrentExists None (hash_of ev) (snd ?cs) = Inr False"
    using inv assms(6) by (auto simp: TorrentExists_def Add_cache_torrents find_None_iff)
  have h: "hex_decode (hash_of ev) = Inr (arr_bytes (ev_InfoHash ev))" "arr20_of (arr_bytes (ev_InfoHash ev)) = ev_InfoHash ev"
    "8 \<le> length (hash_of ev)" by (simp_all add: hash_of_def hex_decode_encode)
  have a: "?addr \<noteq> []" by (simp add: event_addr_def addr_string_def)
  obtain pl row where pl: "pipe_run sha1 v6 (PSubmit 0 (hash_of ev) ?addr # deliver_ops env) (y_pipe ?y2) = Inr pl"
    "row \<in> set (torrents (pl_storage pl))" "t_info_hash row = hash_of ev" "t_name row = tm_Name meta"
    "t_size row = sint (tm_Size meta)" "hash_of ev \<notin> inFlight (wp_queue (pl_pool pl))"
    using job_delivered [of "y_pipe ?y2" ?addr "hash_of ev" "arr_bytes (ev_InfoHash ev)" env sha1 meta v6 0]
      inv assms(2,4,7,8,10) free ts h a \<open>wp_downloader _ = _\<close>
    by (auto simp: l(2) running_def tokens_def)
  have "pipe_run sha1 v6 (deliver_ops env) (y_pipe ?y3) = Inr pl" using pl(1) by simp
  from pipe_lift [OF _ this] l(3) have d: "sys_run sha1 v6 (map PipeOp (deliver_ops env)) ?y3 = Inr (?y3\<lparr>y_pipe := pl\<rparr>)"
    by simp
  let ?more = "?count @ [LoopSubmits 0, LoopSubmits 0] @ map PipeOp (deliver_ops env)"
  have "sys_run sha1 v6 ?more y = Inr (?y3\<lparr>y_pipe := pl\<rparr>)" unfolding run_ops_append c using s d by simp
  moreover have "list_all (crawl_op k) ?more"
    using assms(9) by (auto simp: count_ops_def deliver_ops_def crawl_op_def)
  ultimately show ?thesis using pl(2-6)
    by (intro exI [of _ ?more] exI [of _ "?y3\<lparr>y_pipe := pl\<rparr>"] exI [of _ row]) simp
qed

section \<open>Reachable states\<close>

lemma wrap64_id: "0 \<le> n \<Longrightarrow> n < 2 ^ 63 \<Longrightarrow> wrap64 n = n"
  by (simp add: wrap64_def signed_of_int signed_take_bit_int_eq_self)

lemma wrap64_pos: "0 < n \<Longrightarrow> n < 2 ^ 62 \<Longrightarrow> 0 < wrap64 (n * 2)"
proof -
  assume n: "0 < n" "n < 2 ^ 62"
  then have "n * 2 < 2 ^ 63" by simp
  with wrap64_id [of "n * 2"] n(1) show ?thesis by simp
qed

lemma queue_size:
  assumes "NewCrawler (Inr s) secret draw start cfg = Inr c"
  shows "q_maxSize (wp_queue (c_workerPool c)) = wrap64 (DownloadWorkers cfg * DownloadPerWorker cfg * 2)"
proof -
  from assms obtain q w where qw: "NewDownloadQueue (wrap64 (DownloadWorkers cfg * DownloadPerWorker cfg * 2)) = Inr q"
    "NewWorkerPool (DownloadWorkers cfg) (DownloadPerWorker cfg) q = Inr w" "c_workerPool c = w"
    by (rule NewCrawler_parts)
  have "wp_queue w = q" using qw(2) by (auto simp: NewWorkerPool_def Let_def split: if_splits)
  moreover have "q_maxSize q = wrap64 (DownloadWorkers cfg * DownloadPerWorker cfg * 2)"
    using qw(1) by (auto simp: NewDownloadQueue_def split: if_splits)
  ultimately show ?thesis using qw(3) by simp
qed

text \<open>A state the crawler reaches before the end of its context is one that can be settled.\<close>

lemma settling_reachable:
  assumes "NewCrawler (Inr s) secret draw start cfg = Inr c" and "\<And>i. length (secret i) = 16"
    and "sys_run sha1 v6 ops (system_of c) = Inr y" and "list_all (sys_op_ok (nat (NodeCount_cfg cfg))) ops"
    and "0 < DownloadWorkers cfg" and "0 < DownloadPerWorker cfg" and "\<not> pl_done (y_pipe y)"
  shows "settling s (nat (NodeCount_cfg cfg)) (y_dht y) (torrents (pl_storage (y_pipe y)))
    (wrap64 (DownloadWorkers cfg * DownloadPerWorker cfg * 2)) y"
proof -
  have "awake (system_of c)" by (simp add: awake_def system_of_def)
  then have ok: "sys_ok s 0 (nat (NodeCount_cfg cfg)) y" "awake y"
    using waking.run_keeps [OF assms(3) _ assms(4)] sys_ok_init [OF assms(1,2)] by blast+
  have "q_maxSize (wp_queue (pl_pool (y_pipe (system_of c)))) = wrap64 (DownloadWorkers cfg * DownloadPerWorker cfg * 2)"
    using queue_size [OF assms(1)] by (simp add: system_of_def new_pipeline_def)
  note size = max_size.run_keeps [OF assms(3) this assms(4)]
  have "running (y_pipe y)"
    using running_reachable [OF assms(1,5,6,3,4) _ assms(7)] ok(1) by (simp add: sys_ok_def)
  with ok size assms(7) show ?thesis by (simp add: settling_def awake_def)
qed

end
