(* ===== verification/Event_Flow.thy ===== *)
theory Event_Flow
  imports Progress "HOL-Library.Sublist"
begin

text \<open>
  What becomes of the events (\<open>processEvent\<close> of \<open>internal/crawler/crawler.go\<close>), over every run of the
  crawler: the traces of what the loop of \<open>Run\<close> takes, counts, submits and searches for, and the interpretations
  of \<open>account\<close> that hold them against what an event calls for. A trace is read off the states; what the
  loop still owes for the event in its hands is read off its program counter.
\<close>

section \<open>What an event calls for\<close>

text \<open>
  An announcement is tried at its own address only; a query for a torrent at the address it came
  from and then at the usual ports of its host, no port twice.
\<close>

definition ports_to_try :: "event \<Rightarrow> int list" where
  "ports_to_try ev =
     (case ev_Type ev of
        EventAnnounce \<Rightarrow> [ev_PeerPort ev]
      | EventGetPeers \<Rightarrow> ev_PeerPort ev # removeAll (ev_PeerPort ev) [6881, 6882, 51413, 16881])"

definition wanted_jobs :: "(bytes \<Rightarrow> bytes) \<Rightarrow> event \<Rightarrow> (bytes \<times> bytes) list" where
  "wanted_jobs v6 ev = map (\<lambda>port. (Hex (ev_InfoHash ev), addr_string v6 (ev_PeerIP ev) port)) (ports_to_try ev)"

definition wanted_searches :: "event \<Rightarrow> search list" where
  "wanted_searches ev = (case ev_Type ev of EventGetPeers \<Rightarrow> [Entering (ev_InfoHash ev)] | EventAnnounce \<Rightarrow> [])"

lemma distinct_ports: "distinct (ports_to_try ev)"
  by (simp add: ports_to_try_def split: event_type.split)

lemma hash_of_Hex: "hash_of ev = Hex (ev_InfoHash ev)"
  by (simp add: hash_of_def Hex_def)

lemma filter_removeAll: "filter (\<lambda>x. x \<noteq> y) xs = removeAll y xs"
  by (induction xs) auto

lemma wanted_jobs_addrs: "wanted_jobs v6 ev = map (Pair (hash_of ev)) (event_addrs v6 ev)"
proof -
  have "event_addrs v6 ev = map (addr_string v6 (ev_PeerIP ev)) (ports_to_try ev)"
    unfolding event_addrs_def ports_to_try_def common_ports_def filter_removeAll
    by (cases "ev_Type ev") simp_all
  then show ?thesis by (simp add: wanted_jobs_def hash_of_Hex)
qed

section \<open>Traces\<close>

text \<open>The events taken, the addresses handed to \<open>Submit\<close>, the searches started, the hashes counted.\<close>

fun taken_events :: "sys_op \<Rightarrow> system \<Rightarrow> system \<Rightarrow> event list" where
  "taken_events LoopTakes y y' =
     (if y_loop y = Waiting then take (length (ch_buf (p_eventChan (y_dht y))) - length (ch_buf (p_eventChan (y_dht y'))))
        (ch_buf (p_eventChan (y_dht y)))
      else [])"
| "taken_events _ y y' = []"

fun submitted_jobs :: "sys_op \<Rightarrow> system \<Rightarrow> system \<Rightarrow> (bytes \<times> bytes) list" where
  "submitted_jobs (LoopSubmits now) y y' =
     (case y_loop y of Submitting ev (addr # addrs) \<Rightarrow> [(hash_of ev, addr)] | _ \<Rightarrow> [])"
| "submitted_jobs _ y y' = []"

text \<open>The jobs a submission of the loop adds to the queue.\<close>

fun queued_jobs :: "sys_op \<Rightarrow> system \<Rightarrow> system \<Rightarrow> (bytes \<times> bytes) list" where
  "queued_jobs (LoopSubmits now) y y' =
     map (\<lambda>x. (di_infoHash x, di_peerAddr x))
       (drop (length (q_items (wp_queue (pl_pool (y_pipe y))))) (q_items (wp_queue (pl_pool (y_pipe y')))))"
| "queued_jobs _ y y' = []"

fun started_searches :: "sys_op \<Rightarrow> system \<Rightarrow> system \<Rightarrow> search list" where
  "started_searches (LoopSubmits now) y y' = drop (length (y_searches y)) (y_searches y')"
| "started_searches _ y y' = []"

definition counted_hashes :: "sys_op \<Rightarrow> system \<Rightarrow> system \<Rightarrow> bytes list" where
  "counted_hashes op y y' = drop (length (y_log y)) (rev (y_log y'))"

text \<open>What is still to be done for the event in hand.\<close>

fun in_hand :: "loop \<Rightarrow> event list" where
  "in_hand (Counting ev) = [ev]"
| "in_hand (Flushing (Resume ev)) = [ev]"
| "in_hand (Storing (Resume ev) its) = [ev]"
| "in_hand _ = []"

fun owed_jobs :: "(bytes \<Rightarrow> bytes) \<Rightarrow> loop \<Rightarrow> (bytes \<times> bytes) list" where
  "owed_jobs v6 (Submitting ev addrs) = map (Pair (hash_of ev)) addrs"
| "owed_jobs v6 l = concat (map (wanted_jobs v6) (in_hand l))"

fun owed_searches :: "loop \<Rightarrow> search list" where
  "owed_searches (Submitting ev addrs) = wanted_searches ev"
| "owed_searches l = concat (map wanted_searches (in_hand l))"

fun owed_counts :: "loop \<Rightarrow> bytes list" where
  "owed_counts (Counting ev) = [hash_of ev]"
| "owed_counts _ = []"

section \<open>The accounts\<close>

lemma taken_LoopTakes:
  assumes "sys_exec sha1 v6 LoopTakes y = Inr y'"
  obtains (none) "y' = y \<or> y' = y\<lparr>y_loop := Ended\<rparr> \<and> y_loop y = Waiting" "taken_events LoopTakes y y' = []"
  | (event) ev where "y_loop y = Waiting" "y_loop y' = Counting ev" "taken_events LoopTakes y y' = [ev]"
      "y' = y\<lparr>y_dht := y_dht y', y_loop := Counting ev\<rparr>"
proof (cases "y_loop y")
  case Waiting
  show thesis
  proof (cases "ch_buf (p_eventChan (y_dht y))")
    case Nil
    then show thesis using assms Waiting none by (auto simp: recv_def split: if_splits)
  next
    case (Cons ev evs)
    then show thesis using assms Waiting by (intro event [of ev]) (auto simp: recv_def)
  qed
qed (use assms none in auto)

lemma no_log [simp]:
  "counted_hashes op y (set_search i x y) = []" "counted_hashes op y (leave_search i y) = []"
  "counted_hashes op y y = []"
  by (simp_all add: counted_hashes_def)

lemma proceed_loop_Resume: "y_loop (proceed v6 (Resume ev) y) = Submitting ev (event_addrs v6 ev)"
  by (simp add: proceed_def split: event_type.split)

lemma loop_quiet:
  assumes "\<not> loop_op op" and "op \<noteq> LoopTakes"
  shows "taken_events op y y' = []" "submitted_jobs op y y' = []" "started_searches op y y' = []" "queued_jobs op y y' = []"
  using assms by (cases op; simp)+

lemma log_kept:
  assumes "sys_exec sha1 v6 op y = Inr y'" and "\<And>now. op \<noteq> LoopCounts now"
  shows "y_log y' = y_log y"
proof (cases op)
  case (SearchSubmits i now)
  then have "search_step v6 (SearchSubmits i now) y = Inr y'" using assms(1) by simp
  then show ?thesis by (cases rule: search_submits_cases) auto
qed (use assms in \<open>auto simp: dht_step_def pipe_step_def
    split: loop.splits option.splits prod.splits sum.splits search.splits if_splits bool.splits list.splits\<close>)

text \<open>Each step of the loop hands on what it owes or pays it.\<close>

lemma owed_step:
  assumes "sys_exec sha1 v6 op y = Inr y'" and "sys_op_ok k op"
  shows "submitted_jobs op y y' @ owed_jobs v6 (y_loop y')
      = owed_jobs v6 (y_loop y) @ concat (map (wanted_jobs v6) (taken_events op y y'))"
    and "started_searches op y y' @ owed_searches (y_loop y')
      = owed_searches (y_loop y) @ concat (map wanted_searches (taken_events op y y'))"
    and "counted_hashes op y y' @ owed_counts (y_loop y')
      = owed_counts (y_loop y) @ concat (map (\<lambda>ev. [hash_of ev]) (taken_events op y y'))"
proof -
  have "submitted_jobs op y y' @ owed_jobs v6 (y_loop y')
      = owed_jobs v6 (y_loop y) @ concat (map (wanted_jobs v6) (taken_events op y y'))
    \<and> started_searches op y y' @ owed_searches (y_loop y')
      = owed_searches (y_loop y) @ concat (map wanted_searches (taken_events op y y'))
    \<and> counted_hashes op y y' @ owed_counts (y_loop y')
      = owed_counts (y_loop y) @ concat (map (\<lambda>ev. [hash_of ev]) (taken_events op y y'))"
  proof (cases "loop_op op \<or> op = LoopTakes")
    case False
    then have "op \<noteq> LoopCounts now" for now by auto
    then have "y_loop y' = y_loop y" "y_log y' = y_log y"
      using loop_kept [OF assms] log_kept [OF assms(1)] False by blast+
    then show ?thesis using False loop_quiet [of op] by (simp add: counted_hashes_def)
  next
    case True
    have log: "counted_hashes op y y' = []" if "\<And>now. op \<noteq> LoopCounts now"
      using log_kept [OF assms(1) that] by (simp add: counted_hashes_def)
    show ?thesis
    proof (cases op)
      case LoopTakes
      from assms(1) [unfolded LoopTakes] show ?thesis
      proof (cases rule: taken_LoopTakes)
        case none
        then show ?thesis using log LoopTakes by auto
      next
        case (event ev)
        then show ?thesis using log LoopTakes by simp
      qed
    next
      case (LoopCounts now)
      show ?thesis
      proof (cases "\<exists>ev. y_loop y = Counting ev")
        case True
        then obtain ev where ev: "y_loop y = Counting ev" "y' = count_hash v6 now ev y"
          using assms(1) LoopCounts by auto
        then have "y_loop y' = Flushing (Resume ev) \<or> y_loop y' = Submitting ev (event_addrs v6 ev)"
          by (auto simp: count_hash_def proceed_loop_Resume Let_def split: prod.split)
        then show ?thesis using ev LoopCounts by (auto simp: wanted_jobs_addrs counted_hashes_def)
      next
        case False
        then have "y' = y" using assms(1) LoopCounts by (auto split: loop.splits)
        then show ?thesis using LoopCounts by simp
      qed
    next
      case LoopFlushes
      show ?thesis
      proof (cases "\<exists>g. y_loop y = Flushing g")
        case True
        then obtain g where g: "y_loop y = Flushing g" by blast
        then show ?thesis using assms(1) LoopFlushes log
          by (cases g; cases "flush_take (y_cache y)")
            (auto simp: proceed_loop_Resume wanted_jobs_addrs, auto simp: proceed_def)
      next
        case False
        then have "y' = y" using assms(1) LoopFlushes by (auto split: loop.splits)
        then show ?thesis using LoopFlushes by simp
      qed
    next
      case (LoopStores env now ord)
      show ?thesis
      proof (cases "\<exists>g its. y_loop y = Storing g its")
        case True
        then obtain g its where g: "y_loop y = Storing g its" by blast
        then show ?thesis using assms(1) LoopStores log
          by (cases g) (auto simp: proceed_loop_Resume wanted_jobs_addrs, auto simp: proceed_def)
      next
        case False
        then have "y' = y" using assms(1) LoopStores by (auto split: loop.splits)
        then show ?thesis using LoopStores by simp
      qed
    next
      case (LoopSubmits now)
      show ?thesis
      proof (cases "\<exists>ev addrs. y_loop y = Submitting ev addrs")
        case True
        then obtain ev addrs where a: "y_loop y = Submitting ev addrs" by blast
        then show ?thesis using assms(1) LoopSubmits log
          by (cases addrs) (auto simp: wanted_searches_def split: event_type.splits)
      next
        case False
        then have "y' = y" using assms(1) LoopSubmits by (auto split: loop.splits)
        then show ?thesis using LoopSubmits False by (auto split: loop.splits)
      qed
    next
      case LoopStops
      then show ?thesis using assms(1) log by (auto split: if_splits)
    next
      case LoopCloses
      then show ?thesis using assms(1) log by (cases "y_loop y") (auto split: sum.splits)
    qed (use True in simp_all)
  qed
  then show "submitted_jobs op y y' @ owed_jobs v6 (y_loop y')
      = owed_jobs v6 (y_loop y) @ concat (map (wanted_jobs v6) (taken_events op y y'))"
    and "started_searches op y y' @ owed_searches (y_loop y')
      = owed_searches (y_loop y) @ concat (map wanted_searches (taken_events op y y'))"
    and "counted_hashes op y y' @ owed_counts (y_loop y')
      = owed_counts (y_loop y) @ concat (map (\<lambda>ev. [hash_of ev]) (taken_events op y y'))" by blast+
qed

interpretation jobs_account: account "sys_exec sha1 v6" "\<lambda>y. True" "sys_op_ok k" taken_events submitted_jobs
    "wanted_jobs v6" "\<lambda>y. owed_jobs v6 (y_loop y)" for sha1 v6 k
  by unfold_locales (simp_all add: owed_step(1))

interpretation search_account: account "sys_exec sha1 v6" "\<lambda>y. True" "sys_op_ok k" taken_events started_searches
    wanted_searches "\<lambda>y. owed_searches (y_loop y)" for sha1 v6 k
  by unfold_locales (simp_all add: owed_step(2))

interpretation count_account: account "sys_exec sha1 v6" "\<lambda>y. True" "sys_op_ok k" taken_events counted_hashes
    "\<lambda>ev. [hash_of ev]" "\<lambda>y. owed_counts (y_loop y)" for sha1 v6 k
  by unfold_locales (simp_all add: owed_step(3))

section \<open>Counters and log\<close>

text \<open>The counter of a kind of event, and what it still lacks for the event in hand.\<close>

definition processed :: "event_type \<Rightarrow> system \<Rightarrow> uint64" where
  "processed T y = (case T of EventGetPeers \<Rightarrow> y_getPeers y | EventAnnounce \<Rightarrow> y_announces y)"

definition events_of :: "event_type \<Rightarrow> event list \<Rightarrow> uint64" where
  "events_of T evs = of_nat (length (filter (\<lambda>ev. ev_Type ev = T) evs))"

lemma events_of_append: "events_of T (xs @ ys) = events_of T xs + events_of T ys"
  by (simp add: events_of_def)

lemma events_of_simps [simp]: "events_of T [] = 0" "events_of T [ev] = (if ev_Type ev = T then 1 else 0)"
  by (simp_all add: events_of_def)

lemma processed_fields [simp]:
  "processed T (y\<lparr>y_dht := d\<rparr>) = processed T y" "processed T (y\<lparr>y_loop := l\<rparr>) = processed T y"
  "processed T (y\<lparr>y_cache := c\<rparr>) = processed T y" "processed T (y\<lparr>y_pipe := pl\<rparr>) = processed T y"
  "processed T (y\<lparr>y_log := hs\<rparr>) = processed T y" "processed T (y\<lparr>y_searches := ss\<rparr>) = processed T y"
  "processed T (y\<lparr>y_slots := n\<rparr>) = processed T y" "processed T (y\<lparr>y_flusher := b\<rparr>) = processed T y"
  "processed T (y\<lparr>y_flusher_gone := g\<rparr>) = processed T y" "processed T (y\<lparr>y_ticking := g\<rparr>) = processed T y"
  "processed T (y\<lparr>y_dbClosed := g\<rparr>) = processed T y" "processed T (proceed v6 FinishRun y) = processed T y"
  "processed T (proceed v6 (Resume ev) y) = processed T y + (if ev_Type ev = T then 1 else 0)"
  "processed T (store_batch env now ord its y) = processed T y" "processed T (set_search i x y) = processed T y"
  "processed T (leave_search i y) = processed T y" "processed T (end_search i y) = processed T y"
  "processed T (snd (submit_job now h a y)) = processed T y"
  by (simp_all add: processed_def proceed_def store_batch_def set_search_def leave_search_def end_search_def
      submit_job_def split: event_type.split prod.split)

lemma processed_kept:
  assumes "sys_exec sha1 v6 op y = Inr y'" and "\<not> loop_op op" and "op \<noteq> LoopTakes" and "sys_op_ok k op"
  shows "processed T y' = processed T y"
proof (cases op)
  case (SearchSubmits i now)
  then have "search_step v6 (SearchSubmits i now) y = Inr y'" using assms(1) by simp
  then show ?thesis by (cases rule: search_submits_cases) auto
qed (use assms in \<open>auto simp: dht_step_def pipe_step_def
    split: loop.splits option.splits prod.splits sum.splits search.splits if_splits bool.splits list.splits\<close>)

lemma processed_step:
  assumes "sys_exec sha1 v6 op y = Inr y'" and "sys_op_ok k op"
  shows "processed T y' + events_of T (in_hand (y_loop y'))
    = processed T y + events_of T (in_hand (y_loop y)) + events_of T (taken_events op y y')"
proof (cases "loop_op op \<or> op = LoopTakes")
  case False
  then have l: "\<not> loop_op op" "op \<noteq> LoopTakes" by simp_all
  show ?thesis using loop_kept [OF assms l] processed_kept [OF assms(1) l assms(2)] loop_quiet(1) [OF l] by simp
next
  case True
  show ?thesis
  proof (cases op)
    case LoopTakes
    from assms(1) [unfolded LoopTakes] show ?thesis
    proof (cases rule: taken_LoopTakes)
      case none
      then show ?thesis using LoopTakes by auto
    next
      case (event ev)
      then have "processed T y' = processed T y" by (metis processed_fields(1,2))
      then show ?thesis using event LoopTakes by simp
    qed
  next
    case (LoopCounts now)
    show ?thesis
    proof (cases "\<exists>ev. y_loop y = Counting ev")
      case True
      then obtain ev where ev: "y_loop y = Counting ev" "y' = count_hash v6 now ev y" using assms(1) LoopCounts by auto
      obtain due c where "add_locked now (hash_of ev) (y_cache y) = (due, c)" by force
      then show ?thesis using ev LoopCounts by (cases due) (simp_all add: count_hash_def proceed_loop_Resume)
    next
      case False
      then have "y' = y" using assms(1) LoopCounts by (auto split: loop.splits)
      then show ?thesis using LoopCounts by simp
    qed
  next
    case LoopFlushes
    show ?thesis
    proof (cases "\<exists>g. y_loop y = Flushing g")
      case True
      then obtain g where "y_loop y = Flushing g" by blast
      then show ?thesis using assms(1) LoopFlushes
        by (cases g; cases "flush_take (y_cache y)") (auto simp: proceed_loop_Resume, auto simp: proceed_def)
    next
      case False
      then have "y' = y" using assms(1) LoopFlushes by (auto split: loop.splits)
      then show ?thesis using LoopFlushes by simp
    qed
  next
    case (LoopStores env now ord)
    show ?thesis
    proof (cases "\<exists>g its. y_loop y = Storing g its")
      case True
      then obtain g its where "y_loop y = Storing g its" by blast
      then show ?thesis using assms(1) LoopStores
        by (cases g) (auto simp: proceed_loop_Resume, auto simp: proceed_def)
    next
      case False
      then have "y' = y" using assms(1) LoopStores by (auto split: loop.splits)
      then show ?thesis using LoopStores by simp
    qed
  next
    case (LoopSubmits now)
    then show ?thesis using assms(1) by (auto split: loop.splits list.splits)
  next
    case LoopStops
    then show ?thesis using assms(1) by (auto split: if_splits)
  next
    case LoopCloses
    then show ?thesis using assms(1) by (cases "y_loop y") (auto split: sum.splits)
  qed (use True in simp_all)
qed

lemma processed_run:
  "sys_run sha1 v6 ops y = Inr y' \<Longrightarrow> list_all (sys_op_ok k) ops \<Longrightarrow>
    processed T y' + events_of T (in_hand (y_loop y'))
      = processed T y + events_of T (in_hand (y_loop y)) + events_of T (observed taken_events (sys_exec sha1 v6) ops y)"
proof (induction ops arbitrary: y)
  case (Cons op ops)
  then obtain y1 where y1: "sys_exec sha1 v6 op y = Inr y1" "sys_run sha1 v6 ops y1 = Inr y'" by (auto split: sum.splits)
  with Cons.IH [OF y1(2)] Cons.prems(2) processed_step [OF y1(1), of k T] show ?case
    by (simp add: events_of_append add.assoc)
qed simp

text \<open>The log is the trace of what is counted.\<close>

lemma log_run:
  "sys_run sha1 v6 ops y = Inr y' \<Longrightarrow> rev (y_log y') = rev (y_log y) @ observed counted_hashes (sys_exec sha1 v6) ops y"
proof (induction ops arbitrary: y)
  case (Cons op ops)
  then obtain y1 where y1: "sys_exec sha1 v6 op y = Inr y1" "sys_run sha1 v6 ops y1 = Inr y'" by (auto split: sum.splits)
  have "rev (y_log y1) = rev (y_log y) @ counted_hashes op y y1"
  proof (cases "\<exists>now ev. op = LoopCounts now \<and> y_loop y = Counting ev")
    case True
    then show ?thesis using y1(1) by (auto simp: counted_hashes_def)
  next
    case False
    have "y_log y1 = y_log y"
    proof (cases "\<exists>now. op = LoopCounts now")
      case True
      then show ?thesis using False y1(1) by (auto split: loop.splits)
    qed (use log_kept [OF y1(1)] in blast)
    then show ?thesis by (simp add: counted_hashes_def)
  qed
  with Cons.IH [OF y1(2)] y1(1) show ?case by simp
qed simp

section \<open>Submissions and the queue\<close>

text \<open>A submission of the loop enters the queue exactly when its hash is not in flight and there is room.\<close>

lemma queued_submission:
  assumes "sys_exec sha1 v6 (LoopSubmits now) y = Inr y'" and "y_loop y = Submitting ev (addr # addrs)"
  shows "queued_jobs (LoopSubmits now) y y' =
    (if hash_of ev \<notin> inFlight (wp_queue (pl_pool (y_pipe y)))
        \<and> int (length (q_items (wp_queue (pl_pool (y_pipe y))))) < q_maxSize (wp_queue (pl_pool (y_pipe y)))
     then [(hash_of ev, addr)] else [])"
proof -
  have "wp_queue (pl_pool (y_pipe y')) = snd (Add now (hash_of ev) addr (wp_queue (pl_pool (y_pipe y))))"
    using assms by (auto simp: Submit_def split: prod.split)
  then show ?thesis by (auto simp: Add_def Let_def)
qed

lemma queued_subseq:
  assumes "sys_exec sha1 v6 op y = Inr y'"
  shows "subseq (queued_jobs op y y') (submitted_jobs op y y')"
proof (cases "\<exists>now. op = LoopSubmits now")
  case True
  then obtain now where op: "op = LoopSubmits now" by blast
  show ?thesis
  proof (cases "\<exists>ev a as. y_loop y = Submitting ev (a # as)")
    case True
    then obtain ev a as where "y_loop y = Submitting ev (a # as)" by blast
    then show ?thesis using queued_submission [of sha1 v6 now y y' ev a as] assms op by simp
  next
    case False
    then have "y_pipe y' = y_pipe y" using assms op by (auto split: loop.splits list.splits)
    then show ?thesis using op by simp
  qed
next
  case False
  then show ?thesis by (cases op) simp_all
qed

lemma observed_subseq:
  "run_ops step ops s = Inr s' \<Longrightarrow> (\<And>op s s'. step op s = Inr s' \<Longrightarrow> subseq (a op s s') (b op s s')) \<Longrightarrow>
    subseq (observed a step ops s) (observed b step ops s)"
proof (induction ops arbitrary: s)
  case (Cons op ops)
  then obtain s1 where "step op s = Inr s1" "run_ops step ops s1 = Inr s'" by (auto split: sum.splits)
  with Cons show ?case by (auto intro: list_emb_append_mono)
qed simp

section \<open>Properties\<close>



end
