(* ===== verification/Startup.thy ===== *)
theory Startup
  imports Crawl_System Command_Line Web "HOL-Library.Sublist"
begin

text \<open>
  From \<open>main\<close> to the running crawler: the sockets and loops of a node (\<open>Start\<close>, \<open>readLoop\<close> and
  \<open>refreshLoop\<close> of \<open>internal/dht/node.go\<close>), \<open>Start\<close> of the pool, the start of \<open>Run\<close>, and the start
  sequence of \<open>cmd/crawler/main.go\<close>. What the operating system and the libraries answer (which ports
  can be bound, the configuration file, the database, the templates) are arguments. The loops of a
  node are given as the operations of the node (theory \<open>Dht_Node\<close>) that one turn of the loop executes.
\<close>

section \<open>The loops of a node\<close>

definition UDPBufferSize :: nat where
  "UDPBufferSize = 65535"

definition RefreshInterval :: int where
  "RefreshInterval = 15 * (60 * Second)"

definition BootstrapInterval :: int where
  "BootstrapInterval = 30 * Second"

text \<open>
  One read of the socket: an error, of which a timeout is one, is followed by the next read; the
  buffer holds what fits of a datagram, and a copy of that is handled.
\<close>

datatype socket_read = ReadFailed | ReadFrom bytes udp_addr

fun read_ops :: "int \<Rightarrow> socket_read \<Rightarrow> node_op list" where
  "read_ops now ReadFailed = []"
| "read_ops now (ReadFrom datagram addr) = [Receive now (take UDPBufferSize datagram) addr]"

text \<open>\<open>Bootstrap\<close>: the addresses, then three rounds over the nodes that have answered by then.\<close>

definition Bootstrap_ops :: "(bytes \<Rightarrow> udp_addr option) \<Rightarrow> (nat \<Rightarrow> nat \<Rightarrow> node_id) \<Rightarrow> (nat \<Rightarrow> nat \<Rightarrow> node_id) \<Rightarrow> node_op list" where
  "Bootstrap_ops resolve rnd0 rnd = BootstrapContact resolve rnd0 # map (\<lambda>k. BootstrapRound (rnd k)) [0, 1, 2]"

datatype tick =
    BootstrapTick "bytes \<Rightarrow> udp_addr option" "nat \<Rightarrow> nat \<Rightarrow> node_id" "nat \<Rightarrow> nat \<Rightarrow> node_id"
  | QueryTick "nat \<Rightarrow> info_hash"
  | RefreshTick "nat \<Rightarrow> node_id"

text \<open>The size of the table is looked at when the ticker fires.\<close>

fun tick_ops :: "tick \<Rightarrow> dht_node \<Rightarrow> node_op list" where
  "tick_ops (BootstrapTick resolve rnd0 rnd) n =
     (if Size (routingTable n) < K * 2 then Bootstrap_ops resolve rnd0 rnd else [])"
| "tick_ops (QueryTick hs) n = map (\<lambda>i. ActiveQuery (hs i)) [0, 1, 2]"
| "tick_ops (RefreshTick rnd) n = [Refresh rnd]"

section \<open>Starting a node and the pool\<close>

datatype start_error = BindFailed int go_error

text \<open>
  \<open>bind port\<close> is what \<open>net.ListenUDP\<close> returns for the port. A node that is bound has its table, and its loops
  run; what they do from then on, \<open>Bootstrap\<close> included, are operations of the node.
\<close>

definition Start_node :: "(int \<Rightarrow> go_error option) \<Rightarrow> dht_node \<Rightarrow> start_error + dht_node" where
  "Start_node bind n =
     (case bind (Port n) of
        Some e \<Rightarrow> Inl (BindFailed (Port n) e)
      | None \<Rightarrow> Inr (n\<lparr>routingTable := NewRoutingTable (ID n)\<rparr>))"

datatype pool_error = StartFailed nat nat start_error

definition start_errors :: "(int \<Rightarrow> go_error option) \<Rightarrow> nat list \<Rightarrow> pool \<Rightarrow> (nat \<times> start_error) list" where
  "start_errors bind order p =
     concat (map (\<lambda>i. case Start_node bind (p_nodes p ! i) of Inl e \<Rightarrow> [(i, e)] | Inr _ \<Rightarrow> []) order)"

text \<open>
  \<open>Start\<close> of the pool starts every node in a goroutine and waits until all have returned, that is until the
  nodes that were bound have bootstrapped. \<open>during\<close> is what their goroutines do until then, in the
  order in which they do it; a panic of one ends the process. \<open>order\<close> is the order in which the errors
  come in: \<open>Start\<close> reports their number and the first, with its index, and the nodes that did start
  keep running.
\<close>

definition Start_pool ::
  "(int \<Rightarrow> go_error option) \<Rightarrow> nat list \<Rightarrow> (nat \<times> node_op) list \<Rightarrow> pool \<Rightarrow> (pool_error option \<times> pool) res" where
  "Start_pool bind order during p =
     (let p1 = p\<lparr>p_nodes := map (\<lambda>n. case Start_node bind n of Inl _ \<Rightarrow> n | Inr n' \<Rightarrow> n') (p_nodes p)\<rparr> in
      case pool_run (map (\<lambda>(i, op). OnNode i op) during) p1 of
        Inl f \<Rightarrow> Inl f
      | Inr q \<Rightarrow>
          Inr (case start_errors bind order p of
                 [] \<Rightarrow> (None, q)
               | (i, e) # es \<Rightarrow> (Some (StartFailed (Suc (length es)) i e), q)))"

text \<open>
  What may happen during the start: only nodes that were bound do anything, whatever arrives, and each
  of them goes through its bootstrap; \<open>resolve\<close> is what the names of the bootstrap nodes resolve to.
\<close>

definition ops_of :: "nat \<Rightarrow> (nat \<times> node_op) list \<Rightarrow> node_op list" where
  "ops_of i during = map snd (filter (\<lambda>x. fst x = i) during)"

definition bootstrapping ::
  "(bytes \<Rightarrow> udp_addr option) \<Rightarrow> (int \<Rightarrow> go_error option) \<Rightarrow> pool \<Rightarrow> (nat \<times> node_op) list \<Rightarrow> bool" where
  "bootstrapping resolve bind p during \<longleftrightarrow>
     (\<forall>(i, op) \<in> set during. i < length (p_nodes p) \<and> bind (Port (p_nodes p ! i)) = None \<and> op_ok op \<and> op \<noteq> TakeEvent)
     \<and> (\<forall>i < length (p_nodes p). bind (Port (p_nodes p ! i)) = None \<longrightarrow>
          (\<exists>rnd0 rnd. subseq (Bootstrap_ops resolve rnd0 rnd) (ops_of i during)))"

section \<open>Starting the crawler\<close>

datatype main_error = ConfigError go_error | CreateError go_error | WebError go_error | RunError pool_error

text \<open>
  \<open>Run\<close> up to its loop: the start of the pool, and then, as goroutines, the flusher, whose first step
  is its ticker, the workers and the printer of statistics.
\<close>

datatype run_outcome = RunFailed pool_error | RunCrashed fault | RunLoop system

definition Run_start :: "(int \<Rightarrow> go_error option) \<Rightarrow> nat list \<Rightarrow> (nat \<times> node_op) list \<Rightarrow> crawler \<Rightarrow> run_outcome" where
  "Run_start bind order during c =
     (case Start_pool bind order during (c_dhtPool c) of
        Inl f \<Rightarrow> RunCrashed f
      | Inr (Some e, _) \<Rightarrow> RunFailed e
      | Inr (None, p) \<Rightarrow> RunLoop (system_of (c\<lparr>c_dhtPool := p\<rparr>)))"

section \<open>The process\<close>

record boot_env =
  be_load :: "bytes \<Rightarrow> file_config \<Rightarrow> go_error option \<times> file_config"
  be_init :: init_env
  be_disk :: "bytes \<Rightarrow> storage"
  be_secret :: "nat \<Rightarrow> bytes"
  be_draw :: "nat \<Rightarrow> nat \<Rightarrow> nat res"
  be_now :: int
  be_templates :: "bytes list option"
  be_default :: bool
  be_bind :: "int \<Rightarrow> go_error option"
  be_order :: "nat list"
  be_resolve :: "bytes \<Rightarrow> udp_addr option"
  be_during :: "(nat \<times> node_op) list"

text \<open>\<open>log.Fatalf\<close> ends the process with a message, a panic with a crash.\<close>

datatype outcome =
    Fatal main_error
  | Crash fault
  | Running crawler "server option" system

definition crawler_at :: "boot_env \<Rightarrow> config \<Rightarrow> crawler res" where
  "crawler_at E cfg =
     NewCrawler (Open_storage (be_init E) (be_disk E (DBPath cfg))) (be_secret E) (be_draw E) (be_now E) cfg"

definition web_at :: "boot_env \<Rightarrow> config \<Rightarrow> server option res" where
  "web_at E cfg =
     (if WebEnabled cfg then
        (case NewServer (be_templates E) (be_default E) (WebPort cfg) of Inl f \<Rightarrow> Inl f | Inr sv \<Rightarrow> Inr (Some sv))
      else Inr None)"

definition end_with :: "(go_error \<Rightarrow> main_error) \<Rightarrow> fault \<Rightarrow> outcome" where
  "end_with cause f = (case f of Err e \<Rightarrow> Fatal (cause e) | Panic p \<Rightarrow> Crash (Panic p))"

definition main_start :: "boot_env \<Rightarrow> flags \<Rightarrow> outcome" where
  "main_start E fl =
     (case configure (be_load E) fl of
        Inl e \<Rightarrow> Fatal (ConfigError e)
      | Inr cfg \<Rightarrow>
     (case crawler_at E cfg of
        Inl f \<Rightarrow> end_with CreateError f
      | Inr c \<Rightarrow>
     (case web_at E cfg of
        Inl f \<Rightarrow> end_with WebError f
      | Inr w \<Rightarrow>
     (case Run_start (be_bind E) (be_order E) (be_during E) c of
        RunFailed e \<Rightarrow> Fatal (RunError e)
      | RunCrashed x \<Rightarrow> Crash x
      | RunLoop y \<Rightarrow> Running c w y))))"

section \<open>What the loops of a node send\<close>

text \<open>The most queries one operation of a loop sends, for a node with \<open>b\<close> bootstrap addresses.\<close>

fun query_bound :: "nat \<Rightarrow> node_op \<Rightarrow> nat" where
  "query_bound b (ActiveQuery h) = 3"
| "query_bound b (Refresh rnd) = 30"
| "query_bound b (BootstrapContact resolve rnd) = 4 * b"
| "query_bound b (BootstrapRound rnd) = 2 * (K * 2)"
| "query_bound b _ = 0"

lemma tick_op_sends:
  assumes "op \<in> set (tick_ops t n)"
  shows "\<exists>k m'. k \<le> query_bound (length (bootstraps m)) op \<and> exec op m = Inr m' \<and> sends k m m'"
proof -
  have round: "\<exists>k \<le> 2 * (K * 2). sends k m (bootstrap_round rnd m)" for rnd
    by (rule exI, rule conjI [OF _ sends_bootstrap_round]) simp
  show ?thesis
    using assms sends_activeQuery [of m] sends_refresh [of m] sends_bootstrap_contact [of m] round
    by (cases t) (fastforce simp: Bootstrap_ops_def split: if_splits)+
qed

text \<open>The tickers of \<open>refreshLoop\<close> have positive intervals, so its start does not panic.\<close>

lemma refresh_tickers: "NewTicker RefreshInterval = None" "NewTicker BootstrapInterval = None" "NewTicker (2 * Second) = None"
  by (simp_all add: NewTicker_def RefreshInterval_def BootstrapInterval_def Second_def)

text \<open>No UDP datagram is cut: its length is a 16-bit number with the eight bytes of the UDP header in it.\<close>

lemma read_whole: "length datagram + 8 < 2 ^ 16 \<Longrightarrow> read_ops now (ReadFrom datagram addr) = [Receive now datagram addr]"
  by (simp add: UDPBufferSize_def)

section \<open>What a start leaves\<close>

lemma start_errors_Nil:
  assumes "mset order = mset [0..<length (p_nodes p)]"
  shows "start_errors bind order p = [] \<longleftrightarrow> (\<forall>n\<in>set (p_nodes p). bind (Port n) = None)"
proof -
  have o: "set order = {0..<length (p_nodes p)}" using mset_eq_setD [OF assms] by simp
  have "start_errors bind order p = [] \<longleftrightarrow> (\<forall>i\<in>set order. bind (Port (p_nodes p ! i)) = None)"
    by (auto simp: start_errors_def Start_node_def split: option.splits)
  then show ?thesis unfolding o all_set_conv_all_nth by auto
qed

lemma length_start_errors:
  assumes "mset order = mset [0..<length (p_nodes p)]"
  shows "length (start_errors bind order p) = length (filter (\<lambda>n. bind (Port n) \<noteq> None) (p_nodes p))"
proof -
  let ?bad = "\<lambda>i. bind (Port (p_nodes p ! i)) \<noteq> None"
  have "length (start_errors bind order p) = length (filter ?bad order)"
    unfolding start_errors_def by (induction order) (simp_all add: Start_node_def split: option.split)
  also have "\<dots> = length (filter ?bad [0..<length (p_nodes p)])"
    by (rule mset_eq_length) (simp add: assms del: mset_upt)
  also have "\<dots> = length (filter (\<lambda>n. bind (Port n) \<noteq> None) (map (\<lambda>i. p_nodes p ! i) [0..<length (p_nodes p)]))"
    by (simp only: filter_map length_map comp_def)
  finally show ?thesis by (simp only: map_nth)
qed

lemma first_start_error:
  assumes "start_errors bind order p = (i, x) # es" and "\<And>i. i \<in> set order \<Longrightarrow> Port (p_nodes p ! i) = startPort + int i"
  shows "find (\<lambda>i. bind (startPort + int i) \<noteq> None) order = Some i
    \<and> (\<exists>e. x = BindFailed (startPort + int i) e \<and> bind (startPort + int i) = Some e)"
  using assms
proof (induction order)
  case (Cons j js)
  then show ?case by (auto simp: start_errors_def Start_node_def split: option.splits)
qed (simp add: start_errors_def)

text \<open>A node fresh from \<open>NewNode\<close> is not changed by a start that succeeds.\<close>

definition fresh_pool :: "pool \<Rightarrow> bool" where
  "fresh_pool p \<longleftrightarrow> (\<forall>n\<in>set (p_nodes p). routingTable n = NewRoutingTable (ID n))"

lemma NewPool_fresh:
  assumes "NewPool secret draw cnt startPort boots = Inr p"
  shows "fresh_pool p" and "map Port (p_nodes p) = map (\<lambda>i. startPort + int i) [0..<nat cnt]"
  using assms by (auto simp: NewPool_def fresh_pool_def NewNode_def Let_def split: if_splits sum.splits)

text \<open>So nothing but the schedule decides how the pool comes out of its start.\<close>

lemma Start_pool_fresh:
  assumes "fresh_pool p"
  shows "Start_pool bind order during p =
    (case pool_run (map (\<lambda>(i, op). OnNode i op) during) p of
       Inl f \<Rightarrow> Inl f
     | Inr q \<Rightarrow> Inr (case start_errors bind order p of
                       [] \<Rightarrow> None | (i, e) # es \<Rightarrow> Some (StartFailed (Suc (length es)) i e), q))"
proof -
  have "map (\<lambda>n. case Start_node bind n of Inl _ \<Rightarrow> n | Inr n' \<Rightarrow> n') (p_nodes p) = map (\<lambda>n. n) (p_nodes p)"
    using assms by (intro map_cong refl) (auto simp: Start_node_def fresh_pool_def split: option.split)
  then show ?thesis by (simp add: Start_pool_def split: sum.split list.split)
qed

section \<open>What happens during a start\<close>

text \<open>The channel is open until \<open>Stop\<close>, so only two panics are left.\<close>

interpretation starting: machine pool_exec
    "\<lambda>p. wf_pool p \<and> map ID (p_nodes p) = ids \<and> \<not> ch_closed (p_eventChan p)"
    "\<lambda>op. pool_op_ok (length ids) op \<and> op \<noteq> StopPool" for ids
proof unfold_locales
  fix p op p'
  assume p: "wf_pool p \<and> map ID (p_nodes p) = ids \<and> \<not> ch_closed (p_eventChan p)"
    and op: "pool_op_ok (length ids) op \<and> op \<noteq> StopPool" "pool_exec op p = Inr p'"
  then have "length ids = length (p_nodes p)" by auto
  then show "wf_pool p' \<and> map ID (p_nodes p') = ids \<and> \<not> ch_closed (p_eventChan p')"
    using wf_pool_step [OF _ _ op(2)] pool_exec_closed [OF op(2)] p op(1) by simp
qed

lemma start_panics:
  assumes "wf_pool p" and "\<not> ch_closed (p_eventChan p)"
    and "pool_run (map (\<lambda>(i, op). OnNode i op) during) p = Inl f"
    and "\<forall>(i, op) \<in> set during. i < length (p_nodes p) \<and> op_ok op"
  shows "f \<in> {Panic MakeSliceLen, Panic SliceBounds}"
proof -
  let ?ok = "\<lambda>op. pool_op_ok (length (map ID (p_nodes p))) op \<and> op \<noteq> StopPool"
  have ok: "list_all ?ok (map (\<lambda>(i, op). OnNode i op) during)" using assms(4) by (auto simp: list_all_iff)
  obtain before op after p1 where b: "map (\<lambda>(i, op). OnNode i op) during = before @ op # after"
    "wf_pool p1" "map ID (p_nodes p1) = map ID (p_nodes p)" "\<not> ch_closed (p_eventChan p1)" "pool_exec op p1 = Inl f"
    using starting.run_faults [OF assms(3) _ ok] assms(1,2) by blast
  have "op \<in> set (map (\<lambda>(i, op). OnNode i op) during)" unfolding b(1) by simp
  then obtain i nop where nop: "op = OnNode i nop" "(i, nop) \<in> set during" by auto
  have len: "length (p_nodes p1) = length (p_nodes p)" using arg_cong [OF b(3), of length] by simp
  have i: "i < length (p_nodes p1)" "op_ok nop" using assms(4) nop(2) len by auto
  have e: "exec nop (node_at p1 i) = Inl f" using b(5) nop(1) by (auto split: sum.splits)
  then obtain now data addr where d: "nop = Receive now data addr" "handleMessage now data addr (node_at p1 i) = Inl f"
    using exec_panics by blast
  have "wf_node (node_at p1 i)" "ua_IP addr \<noteq> []" "\<not> ch_closed (eventChan (node_at p1 i))"
    using b(2,4) i d(1) by (simp_all add: wf_pool_def node_at_def)
  with datagram_faults [OF this(1,2), of now data f] d(2) show ?thesis by auto
qed

text \<open>No operation of a node forgets what was sent.\<close>

lemma handleMessage_sent:
  assumes "handleMessage now data addr n = Inr n'"
  shows "set (sent n) \<subseteq> set (sent n') \<and> bootstraps n' = bootstraps n"
proof -
  have deliver: "sent n2 = sent n1 \<and> bootstraps n2 = bootstraps n1" if "deliver m n1 = Inr n2" for m n1 n2
    using that by (auto simp: deliver_def Let_def split: option.splits sum.splits)
  have replied: "sent (replied now m addr n1) = sent n1 \<and> bootstraps (replied now m addr n1) = bootstraps n1" for m n1
    by (cases rule: replied_cases [of now m addr n1]) (simp_all add: insert_node_def)
  have inserted: "sent (insert_all now ns n1) = sent n1 \<and> bootstraps (insert_all now ns n1) = bootstraps n1" for ns n1
    unfolding insert_all_def by (induction ns arbitrary: n1) (simp_all add: insert_node_def)
  have greet: "bootstraps (greeted now m addr n1) = bootstraps n1" for m n1
    by (simp add: greeted_def insert_node_def split: option.split)
  have "set (sent n1) \<subseteq> set (sent n') \<and> bootstraps n' = bootstraps n1"
    if "handleResponse now m addr n1 = Inr n'" for m n1
  proof -
    from that obtain n2 where "deliver m (replied now m addr n1) = Inr n2" "n' = insert_all now (GetResponseNodes m) n2"
      by (auto simp: handleResponse_replied split: sum.splits)
    then show ?thesis using deliver [of m "replied now m addr n1" n2] replied [of m n1] inserted by simp
  qed
  moreover have "set (sent n1) \<subseteq> set (sent n') \<and> bootstraps n' = bootstraps n1"
    if "handleQuery now m addr n1 = Inr n'" for m n1
    using that greet [of m n1]
    by (auto simp: handleQuery_greeted handlePing_def handleFindNode_def handleGetPeers_def try_send_Inr
        handleAnnouncePeer_def WriteToUDP_def Let_def split: if_splits option.splits sum.splits bool.splits)
  ultimately have "set (sent n1) \<subseteq> set (sent n') \<and> bootstraps n' = bootstraps n1"
    if "handleResponse now m addr n1 = Inr n' \<or> handleQuery now m addr n1 = Inr n'" for m n1
    using that by blast
  then show ?thesis
    using assms by (fastforce simp: handleMessage_def Let_def split: if_splits sum.splits fault.splits)
qed

lemma crawler_at_pool:
  assumes "crawler_at E cfg = Inr c"
  shows "NewPool (be_secret E) (be_draw E) (NodeCount_cfg cfg) (StartPort cfg) (Bootstraps_cfg cfg) = Inr (c_dhtPool c)"
    and "c_config c = cfg"
  using assms by (auto simp: crawler_at_def NewCrawler_def Let_def split: sum.splits)

lemma exec_sent:
  assumes "exec op n = Inr n'"
  shows "set (sent n) \<subseteq> set (sent n') \<and> bootstraps n' = bootstraps n"
proof -
  have sends: "set (sent n) \<subseteq> set (sent m) \<and> bootstraps m = bootstraps n" if "\<exists>k. sends k n m" for m
    using that by (auto simp: sends_def)
  show ?thesis
  proof (cases op)
    case (Receive now data addr)
    then show ?thesis using assms handleMessage_sent by simp
  next
    case (QueryPeers h node)
    then show ?thesis using assms by (auto simp: query_peers_def nextTxnID_def WriteToUDP_def Let_def)
  next
    case (ActiveQuery h)
    then show ?thesis using assms sends [OF sends_ops(1), of h] by simp
  next
    case (Refresh rnd)
    then show ?thesis using assms sends [OF sends_ops(2), of rnd] by simp
  next
    case (BootstrapContact resolve rnd)
    then show ?thesis using assms sends [OF sends_ops(3), of resolve rnd] by simp
  next
    case (BootstrapRound rnd)
    then show ?thesis using assms sends [OF sends_ops(4), of rnd] by simp
  qed (use assms in \<open>auto simp: rotateSecrets_def\<close>)
qed

text \<open>A node has contacted the bootstrap nodes that resolve.\<close>

definition contacted :: "(bytes \<Rightarrow> udp_addr option) \<Rightarrow> dht_node \<Rightarrow> bool" where
  "contacted resolve n \<longleftrightarrow> (\<forall>a \<in> set (bootstraps n). \<forall>u. resolve a = Some u \<longrightarrow> u \<in> fst ` set (sent n))"

lemma contact_sends: "contacted resolve (bootstrap_contact resolve rnd n)"
proof -
  let ?f = "\<lambda>n (k, a). case resolve a of
         None \<Rightarrow> n
       | Some u \<Rightarrow> foldl (\<lambda>n i. send_find_node (rnd k i) u n) (send_find_node (ID n) u n) [0..<3]"
  have grows: "set (sent n) \<subseteq> set (sent (send_find_node t u n))" "bootstraps (send_find_node t u n) = bootstraps n" for t u n
    using sends_find_node [of n t u] by (auto simp: sends_def)
  have more: "set (sent n) \<subseteq> set (sent (foldl (\<lambda>n i. send_find_node (rnd k i) u n) n is))
      \<and> bootstraps (foldl (\<lambda>n i. send_find_node (rnd k i) u n) n is) = bootstraps n" for n k u "is"
    by (induction "is" arbitrary: n) (use grows in \<open>fastforce+\<close>)
  have asked: "u \<in> fst ` set (sent (send_find_node t u n))" for t u n
    by (simp add: send_find_node_def send_query_def nextTxnID_def WriteToUDP_def Let_def)
  have one: "set (sent n) \<subseteq> set (sent (?f n x)) \<and> bootstraps (?f n x) = bootstraps n
      \<and> (\<forall>u. resolve (snd x) = Some u \<longrightarrow> u \<in> fst ` set (sent (?f n x)))" for n x
  proof (cases x)
    case (Pair k a)
    show ?thesis
    proof (cases "resolve a")
      case (Some u)
      let ?n = "send_find_node (ID n) u n"
      have "?f n x = foldl (\<lambda>n i. send_find_node (rnd k i) u n) ?n [0..<3]" using Pair Some by simp
      moreover have "set (sent ?n) \<subseteq> set (sent (foldl (\<lambda>n i. send_find_node (rnd k i) u n) ?n [0..<3]))"
        "bootstraps (foldl (\<lambda>n i. send_find_node (rnd k i) u n) ?n [0..<3]) = bootstraps n"
        using more [of ?n k u "[0..<3]"] grows(2) by simp_all
      ultimately show ?thesis using asked [of u "ID n" n] grows(1) [of n "ID n" u] Pair Some by auto
    qed (simp add: Pair)
  qed
  have "set (sent n) \<subseteq> set (sent (foldl ?f n xs)) \<and> bootstraps (foldl ?f n xs) = bootstraps n
      \<and> (\<forall>x \<in> set xs. \<forall>u. resolve (snd x) = Some u \<longrightarrow> u \<in> fst ` set (sent (foldl ?f n xs)))" for n xs
  proof (induction xs arbitrary: n)
    case (Cons x xs)
    note a = one [of n x] and b = Cons.IH [of "?f n x"]
    have "u \<in> fst ` set (sent (foldl ?f (?f n x) xs))" if "resolve (snd x) = Some u" for u
      using a b that by blast
    with a b show ?case unfolding foldl_Cons by auto
  qed simp
  note all = this [of n "enumerate 0 (bootstraps n)"]
  have m: "bootstrap_contact resolve rnd n = foldl ?f n (enumerate 0 (bootstraps n))" by (simp add: bootstrap_contact_def)
  show ?thesis unfolding contacted_def
  proof (intro ballI allI impI)
    fix a u
    assume a: "a \<in> set (bootstraps (bootstrap_contact resolve rnd n))" and u: "resolve a = Some u"
    have "set (bootstraps n) = snd ` set (enumerate 0 (bootstraps n))" by (simp flip: set_map)
    with a obtain k where "(k, a) \<in> set (enumerate 0 (bootstraps n))" using all unfolding m by auto
    with all u show "u \<in> fst ` set (sent (bootstrap_contact resolve rnd n))" unfolding m by fastforce
  qed
qed

abbreviation node_ops :: "(nat \<times> node_op) list \<Rightarrow> pool_op list" where
  "node_ops during \<equiv> map (\<lambda>(i, op). OnNode i op) during"

text \<open>What a schedule of the nodes leaves at each of them.\<close>

lemma nodes_after:
  "pool_run (node_ops during) p = Inr q \<Longrightarrow> i < length (p_nodes p) \<Longrightarrow>
    length (p_nodes q) = length (p_nodes p) \<and> bootstraps (p_nodes q ! i) = bootstraps (p_nodes p ! i)
    \<and> set (sent (p_nodes p ! i)) \<subseteq> set (sent (p_nodes q ! i))
    \<and> (\<forall>resolve rnd. BootstrapContact resolve rnd \<in> set (ops_of i during) \<longrightarrow> contacted resolve (p_nodes q ! i))
    \<and> (ops_of i during = [] \<longrightarrow> p_nodes q ! i = p_nodes p ! i)"
proof (induction during arbitrary: p)
  case (Cons x during)
  obtain j op where x: "x = (j, op)" by force
  then obtain n where n: "exec op (node_at p j) = Inr n" "pool_run (node_ops during) (set_node j n p) = Inr q"
    using Cons.prems(1) by (auto split: sum.splits)
  let ?p = "set_node j n p"
  have p: "p_nodes ?p = (p_nodes p)[j := n]" by (simp add: set_node_def)
  note ih = Cons.IH [OF n(2), unfolded p, simplified, OF Cons.prems(2)]
  show ?case
  proof (cases "j = i")
    case True
    have e: "set (sent (p_nodes p ! i)) \<subseteq> set (sent n)" "bootstraps n = bootstraps (p_nodes p ! i)"
      using exec_sent [OF n(1)] True by (simp_all add: node_at_def)
    have "contacted resolve (p_nodes q ! i)" if "op = BootstrapContact resolve rnd" for resolve rnd
    proof -
      have "contacted resolve n" using n(1) that contact_sends by auto
      moreover have b: "bootstraps (p_nodes q ! i) = bootstraps n" and "set (sent n) \<subseteq> set (sent (p_nodes q ! i))"
        using ih True Cons.prems(2) by auto
      then have "fst ` set (sent n) \<subseteq> fst ` set (sent (p_nodes q ! i))" by blast
      ultimately show ?thesis unfolding contacted_def b by blast
    qed
    moreover have "ops_of i (x # during) = op # ops_of i during" using True by (simp add: ops_of_def x)
    ultimately show ?thesis using ih e True Cons.prems(2) by auto
  next
    case False
    then have "ops_of i (x # during) = ops_of i during" by (simp add: ops_of_def x)
    with ih False show ?thesis by simp
  qed
qed (simp add: ops_of_def)

text \<open>The start of the pool as a run of the system.\<close>

lemma start_run:
  "sys_run sha1 v6 (map (\<lambda>(i, op). NodeOp i op) during) y =
    (case pool_run (node_ops during) (y_dht y) of Inl f \<Rightarrow> Inl f | Inr q \<Rightarrow> Inr (y\<lparr>y_dht := q\<rparr>))"
proof (induction during arbitrary: y)
  case (Cons x during)
  obtain j op where x: "x = (j, op)" by force
  show ?case
  proof (cases "pool_exec (OnNode j op) (y_dht y)")
    case (Inr p)
    then show ?thesis using Cons.IH [of "y\<lparr>y_dht := p\<rparr>"] by (simp add: x dht_step_def split: sum.split)
  qed (simp add: x dht_step_def)
qed simp

lemma system_of_started: "system_of (c\<lparr>c_dhtPool := q\<rparr>) = (system_of c)\<lparr>y_dht := q\<rparr>"
  by (simp add: system_of_def)

lemma Run_start_outcome:
  assumes "crawler_at E cfg = Inr c" and "mset order = mset [0..<nat (NodeCount_cfg cfg)]"
  shows "Run_start bind order during c =
    (case sys_run sha1 v6 (map (\<lambda>(i, op). NodeOp i op) during) (system_of c) of
       Inl f \<Rightarrow> RunCrashed f
     | Inr y \<Rightarrow>
         (case start_errors bind order (c_dhtPool c) of
            [] \<Rightarrow> RunLoop y | (i, e) # es \<Rightarrow> RunFailed (StartFailed (Suc (length es)) i e)))"
    and "start_errors bind order (c_dhtPool c) = [] \<longleftrightarrow> (\<forall>i<nat (NodeCount_cfg cfg). bind (StartPort cfg + int i) = None)"
proof -
  note new = NewPool_fresh [OF crawler_at_pool(1) [OF assms(1)]]
  have d: "y_dht (system_of c) = c_dhtPool c" by (simp add: system_of_def)
  show "Run_start bind order during c =
    (case sys_run sha1 v6 (map (\<lambda>(i, op). NodeOp i op) during) (system_of c) of
       Inl f \<Rightarrow> RunCrashed f
     | Inr y \<Rightarrow>
         (case start_errors bind order (c_dhtPool c) of
            [] \<Rightarrow> RunLoop y | (i, e) # es \<Rightarrow> RunFailed (StartFailed (Suc (length es)) i e)))"
    unfolding Run_start_def Start_pool_fresh [OF new(1)] start_run d
    by (simp add: system_of_started split: sum.split list.split)
  have ports: "Port ` set (p_nodes (c_dhtPool c)) = (\<lambda>i. StartPort cfg + int i) ` {..<nat (NodeCount_cfg cfg)}"
    using arg_cong [OF new(2), of set] by (simp add: atLeast0LessThan)
  have "length (p_nodes (c_dhtPool c)) = nat (NodeCount_cfg cfg)"
    using arg_cong [OF new(2), of length] by simp
  then have "start_errors bind order (c_dhtPool c) = []
      \<longleftrightarrow> (\<forall>port\<in>Port ` set (p_nodes (c_dhtPool c)). bind port = None)"
    using start_errors_Nil [of order "c_dhtPool c" bind] assms(2) by simp
  then show "start_errors bind order (c_dhtPool c) = [] \<longleftrightarrow> (\<forall>i<nat (NodeCount_cfg cfg). bind (StartPort cfg + int i) = None)"
    unfolding ports by auto
qed

section \<open>Properties\<close>

text \<open>C39: What a node sends on its own. When a ticker of \<open>refreshLoop\<close> fires, the operations it leads
  to never fail and send at most nine queries for active querying, thirty for a refresh, and for a
  bootstrap four for each bootstrap address and thirty-two for each of the three rounds, or none when the
  table holds sixteen nodes or more; each operation keeps to its share in whatever state the node
  then is, and sends well-formed queries in the node's name under consecutive transaction ids, counts
  them and changes nothing else.\<close>

theorem periodic_queries:
  "sum_list (map (query_bound b) (tick_ops t n)) \<le>
      (case t of
         BootstrapTick _ _ _ \<Rightarrow> if 16 \<le> Size (routingTable n) then 0 else 4 * b + 96
       | QueryTick _ \<Rightarrow> 9
       | RefreshTick _ \<Rightarrow> 30)
   \<and> list_all (\<lambda>op. \<exists>k m'. k \<le> query_bound (length (bootstraps m)) op \<and> exec op m = Inr m' \<and> sends k m m')
       (tick_ops t n)"
proof -
  have "sum_list (map (query_bound b) (tick_ops t n)) \<le>
      (case t of
         BootstrapTick _ _ _ \<Rightarrow> if 16 \<le> Size (routingTable n) then 0 else 4 * b + 96
       | QueryTick _ \<Rightarrow> 9
       | RefreshTick _ \<Rightarrow> 30)"
    by (cases t) (simp_all add: Bootstrap_ops_def K_def)
  then show ?thesis using tick_op_sends by (simp add: list_all_iff)
qed

text \<open>C38: Starting the pool. Whatever the order in which its nodes come up and whatever they receive and do
  until all of them have bootstrapped: a panic during that time is one of the two a datagram can cause while the
  event channel is open; otherwise \<open>Start\<close> fails exactly when the port of some node cannot be bound,
  and then reports how many could not, and of the first of them to end the index, the port and the
  cause. A node that could not be bound is as it was made; one that was has sent queries to every bootstrap
  address that resolves; and the pool keeps its invariant and the identifiers of its nodes.\<close>

theorem pool_start:
  assumes "NewPool secret draw cnt startPort boots = Inr p" and "\<forall>i. length (secret i) = 16"
    and "mset order = mset [0..<nat cnt]" and "bootstrapping resolve bind p during"
  shows "case Start_pool bind order during p of
      Inl f \<Rightarrow> f \<in> {Panic MakeSliceLen, Panic SliceBounds}
    | Inr (r, q) \<Rightarrow> wf_pool q \<and> map ID (p_nodes q) = map ID (p_nodes p)
        \<and> (\<forall>i<nat cnt. if bind (startPort + int i) = None
             then (\<forall>a \<in> set boots. \<forall>u. resolve a = Some u \<longrightarrow> u \<in> fst ` set (sent (p_nodes q ! i)))
             else p_nodes q ! i = p_nodes p ! i)
        \<and> (case r of
             None \<Rightarrow> \<forall>i<nat cnt. bind (startPort + int i) = None
           | Some (StartFailed k i (BindFailed port e)) \<Rightarrow>
               k = length (filter (\<lambda>i. bind (startPort + int i) \<noteq> None) [0..<nat cnt]) \<and> 0 < k
               \<and> find (\<lambda>i. bind (startPort + int i) \<noteq> None) order = Some i
               \<and> port = startPort + int i \<and> bind port = Some e)"
proof -
  note new = NewPool_fresh [OF assms(1)] and wf = wf_NewPool [OF assms(1,2)]
  have len: "length (p_nodes p) = nat cnt" using arg_cong [OF new(2), of length] by simp
  have port: "Port (p_nodes p ! i) = startPort + int i" if "i < nat cnt" for i
    using arg_cong [OF new(2), of "\<lambda>xs. xs ! i"] that len by simp
  have boots: "bootstraps (p_nodes p ! i) = boots" if "i < nat cnt" for i
    using assms(1) that by (auto simp: NewPool_def NewNode_def Let_def split: if_splits sum.splits)
  have ok: "\<forall>(i, op) \<in> set during. i < length (p_nodes p) \<and> op_ok op"
    "\<forall>(i, op) \<in> set during. i < nat cnt \<and> bind (startPort + int i) = None"
    using assms(4) port len by (auto simp: bootstrapping_def)
  show ?thesis
  proof (cases "pool_run (node_ops during) p")
    case (Inl f)
    then show ?thesis using start_panics [OF wf(1,5) Inl ok(1)] by (simp add: Start_pool_fresh [OF new(1)])
  next
    case (Inr q)
    have "list_all (pool_op_ok (length (p_nodes p))) (node_ops during)" using ok(1) by (auto simp: list_all_iff)
    note q = wf_pool_run [OF Inr wf(1) this]
    have node: "if bind (startPort + int i) = None
             then (\<forall>a \<in> set boots. \<forall>u. resolve a = Some u \<longrightarrow> u \<in> fst ` set (sent (p_nodes q ! i)))
             else p_nodes q ! i = p_nodes p ! i" if i: "i < nat cnt" for i
    proof -
      note after = nodes_after [OF Inr, of i, unfolded len, OF i]
      show ?thesis
      proof (cases "bind (startPort + int i) = None")
        case True
        then obtain rnd0 rnd where "subseq (Bootstrap_ops resolve rnd0 rnd) (ops_of i during)"
          using assms(4) i port len by (auto simp: bootstrapping_def)
        then have "BootstrapContact resolve rnd0 \<in> set (ops_of i during)"
          by (auto simp: Bootstrap_ops_def elim: list_emb_set)
        then have "contacted resolve (p_nodes q ! i)" using after by blast
        then show ?thesis using True after boots [OF i] by (simp add: contacted_def)
      next
        case False
        then have "ops_of i during = []" using ok(2) by (auto simp: ops_of_def filter_empty_conv)
        with False after show ?thesis by auto
      qed
    qed
    have first: "start_errors bind order p = (i, x) # es \<Longrightarrow> find (\<lambda>i. bind (startPort + int i) \<noteq> None) order = Some i
      \<and> (\<exists>e. x = BindFailed (startPort + int i) e \<and> bind (startPort + int i) = Some e)" for i x es
      by (rule first_start_error [where order = order and p = p and startPort = startPort]) (use mset_eq_setD [OF assms(3)] port in auto)
    have count: "length (start_errors bind order p) = length (filter (\<lambda>i. bind (startPort + int i) \<noteq> None) [0..<nat cnt])"
    proof -
      have "length (start_errors bind order p) = length (filter (\<lambda>q. bind q \<noteq> None) (map Port (p_nodes p)))"
        using length_start_errors [of order p bind] assms(3) len by (simp add: filter_map comp_def)
      then show ?thesis unfolding new(2) by (simp add: filter_map comp_def)
    qed
    show ?thesis
    proof (cases "start_errors bind order p")
      case Nil
      then have "\<forall>i<nat cnt. bind (startPort + int i) = None" using count by (auto simp: filter_empty_conv)
      then show ?thesis using Nil Inr q node by (simp add: Start_pool_fresh [OF new(1)])
    next
      case (Cons ie es)
      then obtain i x where ie: "start_errors bind order p = (i, x) # es" by (cases ie) auto
      then show ?thesis using first [OF ie] count Inr q node by (auto simp: Start_pool_fresh [OF new(1)])
    qed
  qed
qed

text \<open>A pool of one node without bootstrap addresses, on a port that can or cannot be bound.\<close>

definition quiet_start :: "(nat \<times> node_op) list" where
  "quiet_start = map (Pair 0) (Bootstrap_ops (\<lambda>_. None) (\<lambda>_ _. zeroID) (\<lambda>_ _. zeroID))"

lemma quiet_run: "\<exists>q. pool_run (node_ops quiet_start) p = Inr q"
  by (simp add: quiet_start_def Bootstrap_ops_def)

theorem pool_start_witness:
  "\<exists>p r q. NewPool (\<lambda>_. replicate 16 7) (\<lambda>_ _. Inr 5) 1 6881 [] = Inr p
     \<and> Start_pool (\<lambda>port. if port = 6881 then Some (ErrMessage ''address already in use'') else None) [0] [] p = Inr (r, q)
     \<and> wf_pool q \<and> (case r of None \<Rightarrow> False | Some (StartFailed k i x) \<Rightarrow> k = 1 \<and> i = 0)"
proof -
  let ?bind = "\<lambda>port. if port = (6881 :: int) then Some (ErrMessage ''address already in use'') else None"
  have o: "mset [0] = mset [0..<nat 1]" by simp
  have b: "bootstrapping (\<lambda>_. None) ?bind sample_pool []"
    by (simp add: bootstrapping_def sample_pool_def NewNode_def Let_def)
  have "\<exists>x. Start_pool ?bind [0] [] sample_pool = Inr x" by (simp add: Start_pool_def Let_def)
  then obtain r q where "Start_pool ?bind [0] [] sample_pool = Inr (r, q)" by (metis surj_pair)
  with pool_start [OF NewPool_sample _ o b] show ?thesis
    by (intro exI [of _ sample_pool] exI [of _ r] exI [of _ q] conjI NewPool_sample)
      (auto split: option.splits pool_error.splits start_error.splits)
qed

text \<open>C17: When the process comes up. It reaches the loop of \<open>Run\<close> exactly when the configuration loads, the
  crawler can be made from it, the web server, if enabled, has templates, every UDP port of the nodes can
  be bound, and no datagram makes a node panic before all of them have bootstrapped; the system is then
  in a state that a run of the nodes alone reaches from the crawler that was made, so that what is shown of
  the running crawler holds of the process. It crashes before exactly when making the crawler or the
  web server panics or a node does. And the flusher, a goroutine of its own, makes its ticker or, for an
  interval of zero or less, which the configuration file can name, crashes the process.\<close>

theorem process_starts:
  assumes "configure (be_load E) fl = Inr cfg"
    and "mset (be_order E) = mset [0..<nat (NodeCount_cfg cfg)]"
    and "\<And>c. crawler_at E cfg = Inr c \<Longrightarrow> bootstrapping (be_resolve E) (be_bind E) (c_dhtPool c) (be_during E)"
  shows "(main_start E fl = Running c w y \<longleftrightarrow> crawler_at E cfg = Inr c \<and> web_at E cfg = Inr w
      \<and> (\<forall>i<nat (NodeCount_cfg cfg). be_bind E (StartPort cfg + int i) = None)
      \<and> sys_run sha1 v6 (map (\<lambda>(i, op). NodeOp i op) (be_during E)) (system_of c) = Inr y)
    \<and> (crawler_at E cfg = Inr c \<longrightarrow>
        list_all (sys_op_ok (nat (NodeCount_cfg cfg))) (map (\<lambda>(i, op). NodeOp i op) (be_during E)))
    \<and> (main_start E fl = Crash f \<longleftrightarrow>
        (\<exists>x. f = Panic x) \<and> (crawler_at E cfg = Inl f \<or> (\<exists>c. crawler_at E cfg = Inr c) \<and> web_at E cfg = Inl f)
      \<or> (\<exists>c. crawler_at E cfg = Inr c \<and> (\<exists>w. web_at E cfg = Inr w)
          \<and> sys_run sha1 v6 (map (\<lambda>(i, op). NodeOp i op) (be_during E)) (system_of c) = Inl f))
    \<and> (main_start E fl = Running c w y \<longrightarrow> sys_exec sha1 v6 FlusherStarts y =
        (if CacheFlushInterval cfg \<le> 0 then Inl (Panic NonPositiveInterval) else Inr (y\<lparr>y_ticking := True\<rparr>)))"
proof (cases "crawler_at E cfg")
  case (Inl f)
  then show ?thesis using assms(1) by (cases f) (auto simp: main_start_def end_with_def)
next
  case (Inr c')
  let ?ops = "map (\<lambda>(i, op). NodeOp i op) (be_during E)"
  note start = Run_start_outcome [OF Inr assms(2), where bind = "be_bind E"]
  have len: "length (p_nodes (c_dhtPool c')) = nat (NodeCount_cfg cfg)"
    using arg_cong [OF NewPool_fresh(2) [OF crawler_at_pool(1) [OF Inr]], of length] by simp
  have ok: "list_all (sys_op_ok (nat (NodeCount_cfg cfg))) ?ops"
    using assms(3) [OF Inr] len by (auto simp: bootstrapping_def list_all_iff)
  have tick: "sys_exec sha1 v6 FlusherStarts y =
      (if CacheFlushInterval cfg \<le> 0 then Inl (Panic NonPositiveInterval) else Inr (y\<lparr>y_ticking := True\<rparr>))"
    if "sys_run sha1 v6 ?ops (system_of c') = Inr y" for y
  proof -
    have "y = (system_of c')\<lparr>y_dht := y_dht y\<rparr>" using that unfolding start_run by (auto split: sum.splits)
    then have "y_interval y = CacheFlushInterval cfg \<and> \<not> y_ticking y"
      using crawler_at_pool(2) [OF Inr] by (metis system.select_convs(8,9) system.surjective system.update_convs(1) system_of_def)
    then show ?thesis by (simp add: NewTicker_def)
  qed
  show ?thesis
  proof (cases "web_at E cfg")
    case (Inl f)
    then show ?thesis using assms(1) Inr ok by (cases f) (auto simp: main_start_def end_with_def)
  next
    case (Inr w')
    note made = \<open>crawler_at E cfg = Inr c'\<close> Inr
    have main: "main_start E fl = (case sys_run sha1 v6 ?ops (system_of c') of
          Inl f \<Rightarrow> Crash f
        | Inr y \<Rightarrow> (case start_errors (be_bind E) (be_order E) (c_dhtPool c') of
              [] \<Rightarrow> Running c' w' y
            | (i, e) # es \<Rightarrow> Fatal (RunError (StartFailed (Suc (length es)) i e))))"
      using assms(1) made by (simp add: main_start_def start(1) [of _ sha1 v6] split: sum.split list.split)
    show ?thesis
    proof (cases "sys_run sha1 v6 ?ops (system_of c')")
      case (Inl f')
      then show ?thesis using made ok main by auto
    next
      case (Inr y')
      then show ?thesis using made ok main start(2) tick [OF Inr]
        by (cases "start_errors (be_bind E) (be_order E) (c_dhtPool c')") auto
    qed
  qed
qed

definition zero_interval_file :: "bytes \<Rightarrow> file_config \<Rightarrow> go_error option \<times> file_config" where
  "zero_interval_file path cfg =
     (None, cfg\<lparr>f_NodeCount := 1, f_Bootstraps := [], f_MaxSize := 10, f_FlushInterval := bs ''0s'',
        f_Workers := 1, f_PerWorker := 2, f_Enabled := False\<rparr>)"

definition zero_interval_env :: boot_env where
  "zero_interval_env =
     \<lparr>be_load = zero_interval_file,
      be_init = \<lparr>ie_open = None, ie_core = None, ie_fts_available = None, ie_fts_create = None, ie_fts_query = None,
        ie_triggers = None, ie_prepare = (\<lambda>_. None)\<rparr>,
      be_disk = (\<lambda>_. New False), be_secret = (\<lambda>_. replicate 16 7), be_draw = (\<lambda>_ _. Inr 5), be_now = 0,
      be_templates = None, be_default = False, be_bind = (\<lambda>_. None), be_order = [0],
      be_resolve = (\<lambda>_. None), be_during = quiet_start\<rparr>"

lemma parse_0s: "ParseDuration (bs ''0s'') = Inr 0"
  by (simp add: ParseDuration_def bs_def duration_loop.simps duration_item_def duration_number_def
      duration_unit_def unit_of_def is_digit_def)

theorem process_starts_witness:
  "\<exists>c y. main_start zero_interval_env no_flags = Running c None y
     \<and> sys_exec (\<lambda>_. zeroID) (\<lambda>_. []) FlusherStarts y = Inl (Panic NonPositiveInterval)"
proof -
  let ?file = "snd (zero_interval_file [] defaultConfig)" and ?E = zero_interval_env
  let ?cfg = "toCrawlerConfig ?file"
  have cfg: "configure (be_load ?E) no_flags = Inr ?cfg"
    by (simp add: configure_def no_flags_def apply_flags_def zero_interval_env_def zero_interval_file_def)
  have c: "NodeCount_cfg ?cfg = 1" "StartPort ?cfg = 6881" "Bootstraps_cfg ?cfg = []" "CacheMaxSize ?cfg = 10"
    "DownloadWorkers ?cfg = 1" "DownloadPerWorker ?cfg = 2" "CacheFlushInterval ?cfg = 0" "\<not> WebEnabled ?cfg"
    by (simp_all add: toCrawlerConfig_def zero_interval_file_def defaultConfig_def parse_0s)
  have q: "NewDownloadQueue (wrap64 4) = Inr (wp_queue sample_pipe_pool)"
    using sample_pipe_pool(1) by (simp add: wrap64_def)
  obtain s where s: "Open_storage (be_init ?E) (be_disk ?E (DBPath ?cfg)) = Inr s"
    by (simp add: Open_storage_def initSchema_def prepareStatements_def zero_interval_env_def)
  have e: "be_secret ?E = (\<lambda>_. replicate 16 7)" "be_draw ?E = (\<lambda>_ _. Inr 5)" "be_bind ?E = (\<lambda>_. None)"
    "be_order ?E = [0]" "be_during ?E = quiet_start" "be_resolve ?E = (\<lambda>_. None)" by (simp_all add: zero_interval_env_def)
  have "\<exists>c. crawler_at ?E ?cfg = Inr c"
    unfolding crawler_at_def s e NewCrawler_def c NewPool_sample
    by (simp add: q sample_pipe_pool(2))
  then obtain c' where made: "crawler_at ?E ?cfg = Inr c'" ..
  have pool: "c_dhtPool c'' = sample_pool" if "crawler_at ?E ?cfg = Inr c''" for c''
    using crawler_at_pool(1) [OF that] unfolding e c NewPool_sample by simp
  have w: "web_at ?E ?cfg = Inr None" using c(8) by (simp add: web_at_def)
  have o: "mset (be_order ?E) = mset [0..<nat (NodeCount_cfg ?cfg)]" using c(1) e(4) by simp
  have "bootstrapping (\<lambda>_. None) (\<lambda>_. None) sample_pool quiet_start"
    unfolding bootstrapping_def
    by (auto simp: sample_pool_def quiet_start_def Bootstrap_ops_def ops_of_def Let_def intro!: exI [of _ "\<lambda>_ _. zeroID"])
  then have b: "bootstrapping (be_resolve ?E) (be_bind ?E) (c_dhtPool c'') (be_during ?E)"
    if "crawler_at ?E ?cfg = Inr c''" for c''
    using pool [OF that] by (simp add: e)
  obtain y where y: "sys_run (\<lambda>_. zeroID) (\<lambda>_. []) (map (\<lambda>(i, op). NodeOp i op) (be_during ?E)) (system_of c') = Inr y"
    using quiet_run [of "y_dht (system_of c')"] unfolding start_run e by auto
  note starts = process_starts [where ?sha1.0 = "\<lambda>_. zeroID" and ?v6.0 = "\<lambda>_. []", OF cfg o b]
  have r: "main_start ?E no_flags = Running c' None y"
    using starts [of c' None y] made w y e(3) by auto
  moreover have "sys_exec (\<lambda>_. zeroID) (\<lambda>_. []) FlusherStarts y = Inl (Panic NonPositiveInterval)"
    using starts [of c' None y] r c(7) by auto
  ultimately show ?thesis by blast
qed

end
