(* ===== verification/Spec2Isabelle.thy ===== *)
theory Spec2Isabelle
  imports Bencode Node_ID Routing KRPC Dht_Node Node_Protocol Storage Hash_Cache Download_Queue
    Metadata Lookup Pool Worker Crawler Web Command_Line Machine Crawl_System Progress Delivery Event_Flow Startup
begin

text \<open>
  A verification library for the DHT crawler (\<open>cmd/crawler\<close>, \<open>internal/bt\<close>, \<open>internal/dht\<close>,
  \<open>internal/crawler\<close>, \<open>internal/storage\<close>, \<open>internal/web\<close>).

  \<^bold>\<open>The program.\<close> A pool of DHT nodes answers and sends KRPC queries over UDP. Queries for torrents
  (\<open>get_peers\<close>) and announcements become events in one channel. The crawler counts the hash of each
  event in a cache that is flushed to SQLite, submits a download job for the peer the event names and
  searches the DHT for more peers. Workers take the jobs, fetch the torrent's info dictionary from the
  peer, check it against the hash, parse it and store it. A web server shows what is stored.

  \<^bold>\<open>The theories.\<close>
  \<^item> \<open>Crawl_Prelude\<close>: the model's types (bytes, 64-bit integers), errors and panics as values
    (\<open>'a res\<close>), Go's \<open>make\<close> limits, lemmas on lists, maps and words, the collection \<open>wf_intros\<close>.
  \<^item> \<open>Go_Strconv\<close>, \<open>Go_Float\<close>, \<open>Go_Chan\<close>, \<open>Net_Addr\<close>: the parts of Go's standard library the code
    uses: decimal and hexadecimal conversions, big-endian integers, \<open>float64\<close> quotients and \<open>%.1f\<close>,
    buffered channels, addresses as text.
  \<^item> \<open>Codec\<close>, \<open>Fifo\<close>: interfaces as locales: self-delimiting codecs (\<open>prefix_codec\<close>,
    \<open>record_codec\<close>) and bounded queues (\<open>fifo\<close>), interpreted on bencode values, compact nodes, the
    framing of the peer wire protocol, channels and the download queue. Further locales:
    \<open>nearest\<close> and \<open>node_store\<close> (\<open>Routing\<close>), \<open>token_scheme\<close> (\<open>Dht_Node\<close>), \<open>count_sink\<close> (\<open>Hash_Cache\<close>).
  \<^item> \<open>Machine\<close>: goroutines as operations on one state (\<open>run_ops\<close>), the locale \<open>machine\<close> of an
    invariant such operations keep, interpreted on the node, the pool, the pipeline and the whole
    crawler, and its extensions: \<open>progressing\<close> by a rank, \<open>account\<close> by a balance between what a run has
    been given and what it has made of it.
  \<^item> \<open>Bencode\<close> (\<open>bt/bencode.go\<close>): encoder, recursive-descent decoder, accessors.
  \<^item> \<open>Metadata\<close> (\<open>bt/metadata.go\<close>): handshakes, message framing, requesting and assembling the
    pieces, parsing the info dictionary, \<open>Download\<close>. The connection is the stream the peer still sends.
  \<^item> \<open>Node_ID\<close> (\<open>dht/id.go\<close>), \<open>Routing\<close> (\<open>dht/routing.go\<close>), \<open>KRPC\<close> (\<open>dht/krpc.go\<close>): identifiers,
    the routing table, the messages.
  \<^item> \<open>Dht_Node\<close> (\<open>dht/node.go\<close>): the node's state, tokens, one function per handler and periodic
    task, and \<open>run\<close>, the interleaving of them. \<open>Node_Protocol\<close>: the facts about whole datagrams.
  \<^item> \<open>Lookup\<close> (\<open>FindPeers\<close> of \<open>dht/node.go\<close>): the rounds and goroutines of a lookup as an inductive step
    relation over the lookup and its node. \<open>Pool\<close> (\<open>dht/pool.go\<close>): the nodes under one shared channel.
  \<^item> \<open>Storage\<close> (\<open>storage/sqlite.go\<close>): the tables as lists of rows and the meaning of every statement.
  \<^item> \<open>Hash_Cache\<close>, \<open>Download_Queue\<close> (\<open>crawler/cache.go\<close>), \<open>Worker\<close> (\<open>crawler/worker.go\<close>), \<open>Crawler\<close>
    (\<open>crawler/crawler.go\<close>): the crawler's components. \<open>Worker\<close> has the pipeline of feeder, job channel,
    workers and downloads as a machine.
  \<^item> \<open>Crawl_System\<close>: the running crawler, \<open>sys_exec\<close> on the record \<open>system\<close>: the nodes, the loop of
    \<open>Run\<close>, the flusher, the searches and the pipeline, each split where it blocks or gives up a lock.
    \<open>Progress\<close>: two rankings of it, the locale \<open>progressing\<close> interpreted on the pipeline and on the shutdown.
    \<open>Event_Flow\<close>: the traces of the loop, the locale \<open>account\<close> interpreted on its submissions, searches and
    counts. \<open>Delivery\<close>: a third ranking, by which the crawler settles and takes the next event.
  \<^item> \<open>Web\<close> (\<open>web/server.go\<close>): the server, the routes, handlers, pagination and formatting.
    \<open>Command_Line\<close> (\<open>cmd/crawler/main.go\<close>): defaults, file, flags and durations. \<open>Startup\<close>: what one
    turn of a node's loops executes, \<open>Start\<close> of node and pool with the bootstrap of the nodes during it,
    the start of \<open>Run\<close>, and \<open>main\<close>.

  \<^bold>\<open>Conventions.\<close> Definitions keep the names of the functions they model; where two packages share a
  name one has a suffix (\<open>Stats_pool\<close>, \<open>Add_cache\<close>). A method that holds its lock throughout is one
  function of its state. Methods of the crawler that give up a lock, or call several methods that lock, are
  split there and the pieces interleave: \<open>Flush\<close>, the event handler, a search, the pipeline, the shutdown.
  Some are one step although the code holds no lock throughout: a node's handling of a datagram and its
  periodic work (see \<open>Dht_Node\<close>), \<open>Add\<close> of the download queue, whose reservation precedes the lock (see
  \<open>Download_Queue\<close>), and the end of a job (below). What the
  program does not determine is an argument: random bytes, the clock, the order of a map's
  traversal or of a scan, the outcome of a statement of the database, the peer at the other end, the
  SHA-1 function, the YAML reader, the text of an IPv6 address. An error carries no wrapping prefix:
  the model keeps the innermost error. A panic is a value of its own, because a panic in a goroutine
  ends the process.

  \<^bold>\<open>What is shown.\<close> Codecs: round trips, canonical encoding, totality, and that oversized length headers
  are the only panic of the decoder. Identifiers and routing: the metric, the bucket index, the table
  invariant, the effect of insertions, nearest nodes. Node: the invariant over every interleaving, the
  exact panics of a datagram, answers, tokens over rotations, provenance of events, delivery of
  replies, the bounds of its own queries. Lookup and pool: termination within 54 own steps and 24
  queries, the merged result, the errors of a start. Storage and cache: atomic batches, conserved
  counts, ranking, round trip of torrents. Queue and workers: order, bounds, no hash lost or worked on
  twice, the outcome of a job. Metadata: verified results, complete assembly from an honest peer in any
  order, causes of panics, parsing. The running crawler, over every interleaving of all its goroutines
  from the start to the end of the shutdown: only verified torrents are stored, requests are conserved,
  searches, downloads and jobs stay within their bounds, the causes of a panic; no job gets stuck and the
  shutdown completes; and what the loop counts, submits and searches is what the events it took call for.
  Web: where requests go, pagination, a stored torrent is shown. Start: when the process comes up, what
  its nodes have done by then, and when it panics instead. This theory: from every state of the running
  crawler an announced torrent can be brought from the datagram to the database.

  \<^bold>\<open>Bounds.\<close> No definition uses fuel: decoders and message loops recurse on the input they consume,
  the other loops on lists. Allocation succeeds up to \<open>maxAlloc\<close> (\<open>2 ^ 48\<close> bytes, the limit of the
  runtime on 64-bit systems), where a channel takes its elements times their width; running out of actual memory is
  not modelled, and neither is the stack: the recursion of the decoder is as deep as the nesting of its
  input, which nothing in the code bounds (\<open>decoder_nesting\<close> in \<open>Metadata\<close>), so a peer can exhaust the
  stack of a goroutine, a fatal error of the runtime the statements about panics do not cover. Counters,
  sizes and ids keep their widths, and the sizes computed from the configuration wrap at 64 bits
  (\<open>wrap64\<close>) or do not fit into memory; the ports \<open>startPort + i\<close> are integers.

  \<^bold>\<open>Not modelled.\<close> The sockets and tickers themselves (a datagram, a tick or a timeout is an operation
  that may happen), \<open>printStats\<close> and log lines (except where building one can panic), SQL text,
  indexes and triggers of the full-text table, the text of HTML templates and the JSON encoder, the
  registration of signals (a signal is the operation \<open>PCancel\<close>), the HTTP server's own shutdown. The
  loops over several peers of one job are modelled, but each job's steps are one transition after its
  start, since it touches shared state once at its end; an insertion of a batch into the database with the
  putting back of a batch that failed is one transition as well.
\<close>

section \<open>From an announcement to a stored torrent\<close>

text \<open>C1: The purpose of the program. Take any state the running crawler reaches before the end of its
  context, whatever is queued and in hand, in which no torrent is stored for a hash and the event channel has room, and let a
  node receive an announcement of that hash with a valid token. Then the datagram is handled, its event is
  the last in the channel, and from there the crawler's own steps, without any further datagram, can
  bring the torrent into the database: if the announced address delivers the metadata and the insertion
  works, there is a run of the loop, the feeder, the workers and the downloads after which it is
  stored under its hash, with the name and the size the metadata gave it, and the hash is free again. That
  run takes every earlier event first and finishes what was in hand, the other downloads without
  success; it is one schedule, since another may drop the job when the queue is full.\<close>

theorem announced_torrent_stored:
  assumes "NewCrawler (Inr s) secret draw start cfg = Inr c" and "\<And>i. length (secret i) = 16"
    and "sys_run sha1 v6 ops (system_of c) = Inr y" and "list_all (sys_op_ok (nat (NodeCount_cfg cfg))) ops"
    and "0 < DownloadWorkers cfg" and "0 < DownloadPerWorker cfg"
    and "DownloadWorkers cfg * DownloadPerWorker cfg < 2 ^ 62" and "\<not> pl_done (y_pipe y)"
    and "length (ch_buf (p_eventChan (y_dht y))) < ch_cap (p_eventChan (y_dht y))" and "Hex h \<notin> stored_hashes y"
    and "i < nat (NodeCount_cfg cfg)" and "ua_IP addr \<noteq> []" and "int (length tid) \<le> maxAlloc"
    and "query_ok (AnnouncePeerQ h port token)" and "encode_query tid nid (AnnouncePeerQ h port token) = Inr data"
    and "token_valid (tokenSecret (p_nodes (y_dht y) ! i)) (lastSecret (p_nodes (y_dht y) ! i)) token (ua_IP addr)"
    and "\<not> je_cancelled env 0" and "je_insert_err (env :: job_env) = None" and "\<And>j a x. je_dial env j a \<noteq> Inl (Panic x)"
    and "Download sha1 NewMetadataDownloader h
      (je_dial env 0 (addr_string v6 (ua_IP addr) (case port of None \<Rightarrow> ua_Port addr | Some q \<Rightarrow> q))) = Inr meta"
  shows "\<exists>y1 more y2 row. sys_exec sha1 v6 (NodeOp i (Receive now data addr)) y = Inr y1
    \<and> ch_buf (p_eventChan (y_dht y1)) = ch_buf (p_eventChan (y_dht y)) @
        [\<lparr>ev_Type = EventAnnounce, ev_InfoHash = h, ev_PeerIP = ua_IP addr,
          ev_PeerPort = (case port of None \<Rightarrow> ua_Port addr | Some q \<Rightarrow> q)\<rparr>]
    \<and> list_all (crawl_op (nat (NodeCount_cfg cfg))) more \<and> sys_run sha1 v6 more y1 = Inr y2
    \<and> row \<in> set (torrents (pl_storage (y_pipe y2))) \<and> t_info_hash row = Hex h
    \<and> t_name row = tm_Name meta \<and> t_size row = sint (tm_Size meta)
    \<and> Hex h \<notin> inFlight (wp_queue (pl_pool (y_pipe y2)))"
proof -
  let ?k = "nat (NodeCount_cfg cfg)" and ?m = "wrap64 (DownloadWorkers cfg * DownloadPerWorker cfg * 2)"
  let ?ev = "\<lparr>ev_Type = EventAnnounce, ev_InfoHash = h, ev_PeerIP = ua_IP addr,
    ev_PeerPort = (case port of None \<Rightarrow> ua_Port addr | Some q \<Rightarrow> q)\<rparr>"
  let ?ts = "torrents (pl_storage (y_pipe y))" and ?op = "NodeOp i (Receive now data addr)"
  have set: "settling s ?k (y_dht y) ?ts ?m y" by (rule settling_reachable [OF assms(1-6,8)])
  then have d: "wf_pool (y_dht y)" "i < length (p_nodes (y_dht y))" "\<not> ch_closed (p_eventChan (y_dht y))"
    using assms(11) by (auto simp: settling_def sys_ok_def dht_ok_def)
  obtain p where p: "pool_exec (OnNode i (Receive now data addr)) (y_dht y) = Inr p"
    "ch_buf (p_eventChan p) = ch_buf (p_eventChan (y_dht y)) @ [?ev]"
    using pool_announce [OF d assms(9,12-16)] by blast
  let ?y1 = "y\<lparr>y_dht := p\<rparr>"
  have y1: "sys_exec sha1 v6 ?op y = Inr ?y1" using p(1) by (simp add: dht_step_def)
  have "sys_ok s 0 ?k ?y1" using sys_ok_step [OF _ _ y1] set assms(11,12) by (simp add: settling_def)
  then have "settling s ?k p ?ts ?m ?y1" using set by (simp add: settling_def)
  from event_reached [OF this p(2)] obtain more y2 d' where
    y2: "list_all (crawl_op ?k) more" "sys_run sha1 v6 more ?y1 = Inr y2" "settling s ?k d' ?ts ?m y2"
    "tokens (y_pipe y2) = []" "y_loop y2 = Counting ?ev" by fastforce
  have "0 < DownloadWorkers cfg * DownloadPerWorker cfg" using assms(5,6) by simp
  then have m: "0 < ?m" using assms(7) wrap64_pos by simp
  have h: "hash_of ?ev = Hex h" "event_addr v6 ?ev = addr_string v6 (ua_IP addr) (case port of None \<Rightarrow> ua_Port addr | Some q \<Rightarrow> q)"
    by (simp_all add: hash_of_def Hex_def event_addr_def)
  have fresh: "t_info_hash row \<noteq> hash_of ?ev" if "row \<in> set ?ts" for row
    using assms(10) that unfolding stored_hashes_def h by (metis imageI)
  obtain more2 y3 row where y3: "list_all (crawl_op ?k) more2" "sys_run sha1 v6 more2 y2 = Inr y3"
    "row \<in> set (torrents (pl_storage (y_pipe y3)))" "t_info_hash row = Hex h" "t_name row = tm_Name meta"
    "t_size row = sint (tm_Size meta)" "Hex h \<notin> inFlight (wp_queue (pl_pool (y_pipe y3)))"
    using event_delivered [OF y2(3-5) m _ fresh assms(17-19), of sha1 v6 meta] assms(20) unfolding h by auto
  have "sys_run sha1 v6 (more @ more2) ?y1 = Inr y3" unfolding run_ops_append using y2(2) y3(2) by simp
  moreover have "list_all (crawl_op ?k) (more @ more2)" using y2(1) y3(1) by simp
  ultimately show ?thesis using y1 p(2) y3(3-7)
    by (intro exI [of _ ?y1] exI [of _ "more @ more2"] exI [of _ y3] exI [of _ row]) simp
qed

theorem announced_torrent_stored_witness:
  "\<exists>data y1 more y2 row.
      encode_query [2] zeroID (AnnouncePeerQ zeroID None (token_of (replicate 16 7) [10, 0, 0, 1])) = Inr data
    \<and> sys_exec (\<lambda>_. zeroID) (\<lambda>_. []) (NodeOp 0 (Receive 0 data sample_addr)) (system_of sample_start) = Inr y1
    \<and> list_all (crawl_op 1) more \<and> sys_run (\<lambda>_. zeroID) (\<lambda>_. []) more y1 = Inr y2
    \<and> row \<in> set (torrents (pl_storage (y_pipe y2))) \<and> t_name row = bs ''a''"
proof -
  let ?token = "token_of (replicate 16 7) [10, 0, 0, 1]"
  have q: "query_ok (AnnouncePeerQ zeroID None ?token)" "int (length [2 :: byte]) \<le> maxAlloc"
    by (simp_all add: maxAlloc_def)
  obtain data where data: "encode_query [2] zeroID (AnnouncePeerQ zeroID None ?token) = Inr data"
    using query_roundtrip [OF q(2,1), of zeroID] by auto
  have w: "0 < DownloadWorkers sample_config" "0 < DownloadPerWorker sample_config"
    "DownloadWorkers sample_config * DownloadPerWorker sample_config < 2 ^ 62"
    by (simp_all add: sample_config_def)
  have y: "\<not> pl_done (y_pipe (system_of sample_start))"
    "length (ch_buf (p_eventChan (y_dht (system_of sample_start)))) < ch_cap (p_eventChan (y_dht (system_of sample_start)))"
    "Hex zeroID \<notin> stored_hashes (system_of sample_start)" "0 < nat (NodeCount_cfg sample_config)" "ua_IP sample_addr \<noteq> []"
    by (simp_all add: system_of_def sample_start_def sample_config_def sample_addr_def new_pipeline_def stored_hashes_def
        New_def sample_pool_def Let_def)
  have t: "token_valid (tokenSecret (p_nodes (y_dht (system_of sample_start)) ! 0))
      (lastSecret (p_nodes (y_dht (system_of sample_start)) ! 0)) ?token (ua_IP sample_addr)"
    using tokens.valid_current [of "replicate 16 7" "replicate 16 7" "[10, 0, 0, 1]"]
    by (simp add: system_of_def sample_start_def sample_pool_def NewNode_def sample_addr_def Let_def)
  have e: "\<not> je_cancelled sample_env 0" "je_insert_err sample_env = None" "je_dial sample_env j a \<noteq> Inl (Panic x)"
    "Download (\<lambda>_. zeroID) NewMetadataDownloader zeroID (je_dial sample_env 0
       (addr_string (\<lambda>_. []) (ua_IP sample_addr) (case None of None \<Rightarrow> ua_Port sample_addr | Some q \<Rightarrow> q)))
     = Inr \<lparr>tm_InfoHash = zeroID, tm_Name = bs ''a'', tm_Size = 5,
         tm_Files = [\<lparr>fi_Path = bs ''a'', fi_Size = 5\<rparr>], tm_PieceLen = 0, tm_RawInfo = sample_info\<rparr>" for j a x
    by (simp_all add: sample_env_def sample_download sample_parse)
  have r: "sys_run (\<lambda>_. zeroID) (\<lambda>_. []) [] (system_of sample_start) = Inr (system_of sample_start)"
    "list_all (sys_op_ok (nat (NodeCount_cfg sample_config))) []" by simp_all
  have k: "nat (NodeCount_cfg sample_config) = 1" by (simp add: sample_config_def)
  show ?thesis
    using announced_torrent_stored [OF sample_start _ r w y q(2,1) data t e, of 0] data unfolding k by auto
qed

end
